(* ===== verification/Prelude.thy ===== *)
theory Prelude
  imports Main "HOL-Library.Word" "HOL-Library.Monad_Syntax"
begin

unbundle bit_operations_syntax

section \<open>Shared vocabulary of the kernel model\<close>

text \<open>
  The integer types of \<open>src/kernel/std/types.h\<close>, the flat byte memory the kernel's
  pointers range over, little-endian encoding of the multi-byte accesses the x86 does,
  and the two raw copy loops \<open>memcpy\<close> and \<open>memzero\<close>.  Every component theory
  imports this one.

  Conventions used throughout.  A pointer is a 64-bit word and \<open>nullptr\<close> is \<open>0\<close>.
  A call that may never come back (\<open>halt()\<close>, \<open>fatalError\<close>, a loop with no exit, an
  access the C++ standard leaves undefined) has type \<open>'a option\<close>: \<open>None\<close> is
  ``control never returns to the caller with a defined state''.  Diagnostic text printed by
  \<open>error\<close> and \<open>logE9\<close> is part of the state where it is the handlers' own (\<open>Kernel\<close>, \<open>Arch\<close>); the
  texts that paging, the heap, the disk, the files and the task manager print on the way are left out.
\<close>

type_synonym u8 = "8 word"
type_synonym u16 = "16 word"
type_synonym u32 = "32 word"
type_synonym u64 = "64 word"

type_synonym mem = "u64 \<Rightarrow> u8"

named_theorems mem_simps \<open>reading back what was written, and writes that do not interfere\<close>
named_theorems wf_intros \<open>preservation of the components' invariants\<close>

subsection \<open>Little-endian words\<close>

fun le_bytes :: "nat \<Rightarrow> 'a::len word \<Rightarrow> u8 list" where
  "le_bytes 0 w = []"
| "le_bytes (Suc n) w = ucast w # le_bytes n (drop_bit 8 w)"

fun le_word :: "u8 list \<Rightarrow> 'a::len word" where
  "le_word [] = 0"
| "le_word (b # bs) = ucast b OR push_bit 8 (le_word bs)"

lemma length_le_bytes [simp]: "length (le_bytes n w) = n"
  by (induction n arbitrary: w) auto

lemma le_bytes_Nil [simp]: "le_bytes n w = [] \<longleftrightarrow> n = 0"
  by (cases n) auto

lemma le_word_le_bytes: "le_word (le_bytes n w) = take_bit (8 * n) w"
proof (induction n arbitrary: w)
  case 0
  then show ?case by simp
next
  case (Suc n)
  show ?case
    by (rule bit_eqI) (auto simp: Suc bit_or_iff bit_push_bit_iff bit_take_bit_iff bit_drop_bit_eq
        bit_ucast_iff not_less dest: bit_imp_le_length)
qed

lemma le_word_le_bytes_full:
  "LENGTH('a) \<le> 8 * n \<Longrightarrow> le_word (le_bytes n (w :: 'a::len word)) = w"
  by (simp add: le_word_le_bytes take_bit_word_eq_self)

lemma le_bytes_le_word:
  "8 * length bs \<le> LENGTH('a) \<Longrightarrow> le_bytes (length bs) (le_word bs :: 'a::len word) = bs"
proof (induction bs)
  case Nil
  then show ?case by simp
next
  case (Cons b bs)
  let ?w = "le_word bs :: 'a word"
  have len: "8 * length bs + 8 \<le> LENGTH('a)" using Cons.prems by simp
  have hd: "ucast (ucast b OR push_bit 8 ?w :: 'a word) = b"
    by (rule bit_eqI) (use len in \<open>auto simp: bit_ucast_iff bit_or_iff bit_push_bit_iff\<close>)
  have small: "?w = take_bit (8 * length bs) ?w"
  proof -
    have "le_bytes (length bs) ?w = bs" using Cons by simp
    then have "?w = le_word (le_bytes (length bs) ?w)" by simp
    then show ?thesis by (simp add: le_word_le_bytes)
  qed
  have tl: "drop_bit 8 (ucast b OR push_bit 8 ?w :: 'a word) = ?w"
  proof (rule bit_eqI)
    fix n
    have "bit ?w n \<Longrightarrow> n < 8 * length bs"
      by (subst (asm) small) (simp add: bit_take_bit_iff)
    then show "bit (drop_bit 8 (ucast b OR push_bit 8 ?w :: 'a word)) n = bit ?w n"
      using len by (auto simp: bit_drop_bit_eq bit_or_iff bit_push_bit_iff bit_ucast_iff
          dest: bit_imp_le_length)
  qed
  show ?case using Cons hd tl by simp
qed

lemma le_word_append: "le_word (xs @ ys) = (le_word xs OR push_bit (8 * length xs) (le_word ys) :: 'a::len word)"
proof (induction xs)
  case (Cons x xs)
  show ?case
    unfolding append_Cons le_word.simps Cons.IH
    by (rule bit_eqI) (auto simp: bit_or_iff bit_push_bit_iff)
qed simp

lemma le_bytes_append: "le_bytes (n + k) w = le_bytes n w @ le_bytes k (drop_bit (8 * n) w)"
  by (induction n arbitrary: w) (simp_all add: add.commute)

subsection \<open>Widths and signs\<close>

lemma unat_ucast_32 [simp]: "unat (ucast (w :: u32) :: u64) = unat w"
proof -
  have "unat w < 2 ^ 64" using unsigned_less [of w, where 'a = nat] by simp
  then show ?thesis by (simp add: unsigned_ucast_eq take_bit_nat_eq_self)
qed

lemma negative_32: "(w :: u32) <s 0 \<longleftrightarrow> 2 ^ 31 \<le> unat w"
proof -
  have "w <s 0 \<longleftrightarrow> odd (uint w div 2 ^ 31)"
    by (simp add: word_sless_alt sint_uint signed_take_bit_negative_iff bit_iff_odd)
  also have "uint w div 2 ^ 31 = of_bool (2 ^ 31 \<le> uint w)"
  proof (cases "2 ^ 31 \<le> uint w")
    case True
    then have "uint w div 2 ^ 31 = 1"
      using uint_lt2p [of w] by (intro int_div_pos_eq [of _ _ _ "uint w - 2 ^ 31"]) simp_all
    then show ?thesis using True by simp
  qed (simp add: div_pos_pos_trivial)
  also have "odd (of_bool (2 ^ 31 \<le> uint w) :: int) \<longleftrightarrow> 2 ^ 31 \<le> uint w" by simp
  also have "\<dots> \<longleftrightarrow> int (2 ^ 31) \<le> int (unat w)" by (simp only: uint_nat) simp
  also have "\<dots> \<longleftrightarrow> 2 ^ 31 \<le> unat w" by (rule of_nat_le_iff)
  finally show ?thesis .
qed

lemma wrap_once:
  fixes x n :: int
  assumes "0 \<le> x" "x < n + n"
  shows "x mod n = (if x < n then x else x - n)"
proof (cases "x < n")
  case True
  then show ?thesis using assms by simp
next
  case False
  then have "x mod n = (x - n) mod n" by simp
  also have "\<dots> = x - n" using False assms by (intro mod_pos_pos_trivial) auto
  finally show ?thesis using False by simp
qed

subsection \<open>Byte memory: block reads and writes\<close>

definition rd :: "mem \<Rightarrow> u64 \<Rightarrow> nat \<Rightarrow> u8 list" where
  "rd m a n = map (\<lambda>i. m (a + of_nat i)) [0..<n]"

definition wr :: "mem \<Rightarrow> u64 \<Rightarrow> u8 list \<Rightarrow> mem" where
  "wr m a bs = (\<lambda>x. if unat (x - a) < length bs then bs ! unat (x - a) else m x)"

definition rd64 :: "mem \<Rightarrow> u64 \<Rightarrow> u64" where
  "rd64 m a = le_word (rd m a 8)"

definition wr64 :: "mem \<Rightarrow> u64 \<Rightarrow> u64 \<Rightarrow> mem" where
  "wr64 m a w = wr m a (le_bytes 8 w)"

definition apart :: "u64 \<Rightarrow> nat \<Rightarrow> u64 \<Rightarrow> nat \<Rightarrow> bool" where
  "apart a n b k \<longleftrightarrow> n \<le> unat (b - a) \<and> k \<le> unat (a - b)"

lemma length_rd [simp]: "length (rd m a n) = n"
  by (simp add: rd_def)

lemma rd_nth [simp]: "i < n \<Longrightarrow> rd m a n ! i = m (a + of_nat i)"
  by (simp add: rd_def)

lemma apart_sym: "apart a n b k \<longleftrightarrow> apart b k a n"
  by (auto simp: apart_def)

lemma apart_nat:
  assumes "unat a + n \<le> unat b" "unat b + k \<le> 2 ^ 64" "0 < n"
  shows "apart a n b k"
  using assms by (auto simp: apart_def unat_sub_if')

lemma apart_offset:
  assumes "apart a n b k" "i < k"
  shows "n \<le> unat (b + of_nat i - a)"
proof -
  let ?d = "unat (b - a)"
  have ne: "a \<noteq> b" using assms by (auto simp: apart_def)
  have k64: "k \<le> 2 ^ 64"
    using assms(1) unsigned_less [of "a - b", where 'a = nat] by (auto simp: apart_def)
  have "?d + unat (a - b) = 2 ^ 64"
    using ne unsigned_less [of a, where 'a = nat] unsigned_less [of b, where 'a = nat]
    by (auto simp: unat_sub_if' word_unat_eq_iff)
  then have bound: "?d + i < 2 ^ 64" using assms by (auto simp: apart_def)
  have "unat (b - a + of_nat i) = ?d + i"
    using bound assms(2) k64 by (simp add: unat_word_ariths unat_of_nat)
  then show ?thesis using assms(1) by (simp add: apart_def algebra_simps)
qed

lemma unat_offset [simp]: "i < 2 ^ 64 \<Longrightarrow> unat (a + of_nat i - a :: u64) = i"
  by (simp add: unat_of_nat)

lemma wr_outside [mem_simps]:
  "apart a (length bs) b k \<Longrightarrow> i < k \<Longrightarrow> wr m a bs (b + of_nat i) = m (b + of_nat i)"
  using apart_offset [of a "length bs" b k i] by (auto simp: wr_def)

lemma rd_wr_apart [mem_simps]: "apart a (length bs) b k \<Longrightarrow> rd (wr m a bs) b k = rd m b k"
  by (simp add: rd_def wr_outside)

lemma rd_wr_same [mem_simps]:
  assumes "length bs \<le> 2 ^ 64"
  shows "rd (wr m a bs) a (length bs) = bs"
  using assms by (auto simp: wr_def unat_of_nat intro!: nth_equalityI)

lemma rd64_wr64_same [mem_simps]: "rd64 (wr64 m a w) a = w"
  using rd_wr_same [of "le_bytes 8 w" m a] by (simp add: rd64_def wr64_def le_word_le_bytes_full)

lemma rd64_wr64_apart [mem_simps]: "apart a 8 b 8 \<Longrightarrow> rd64 (wr64 m a w) b = rd64 m b"
  by (simp add: rd64_def wr64_def rd_wr_apart)

lemma rd_append: "rd m a (n + k) = rd m a n @ rd m (a + of_nat n) k"
  by (rule nth_equalityI) (auto simp: nth_append algebra_simps)

lemma rd_0 [simp]: "rd m a 0 = []"
  by (simp add: rd_def)

lemma rd_1 [simp]: "rd m a (Suc 0) = [m a]"
  by (simp add: rd_def)

lemma rd_cong: "(\<And>i. i < n \<Longrightarrow> m (a + of_nat i) = m' (a + of_nat i)) \<Longrightarrow> rd m a n = rd m' a n"
  by (simp add: rd_def)

lemma rd_slice: "i + n \<le> k \<Longrightarrow> rd m (a + of_nat i) n = take n (drop i (rd m a k))"
  by (rule nth_equalityI) (auto simp: add.assoc)

lemma rd_wr_behind:
  assumes "n + length bs \<le> 2 ^ 64"
  shows "rd (wr m (a + of_nat n) bs) a (n + length bs) = rd m a n @ bs"
proof -
  have "rd (wr m (a + of_nat n) bs) a n = rd m a n"
  proof (rule rd_cong)
    fix i assume i: "i < n"
    show "wr m (a + of_nat n) bs (a + of_nat i) = m (a + of_nat i)"
    proof (cases "bs = []")
      case False
      then have n: "n < 2 ^ 64" using assms by (cases bs) auto
      then have "unat (of_nat i - of_nat n :: u64) = 2 ^ 64 + i - n"
        using i by (auto simp: unat_sub_if' unat_of_nat take_bit_nat_eq_self)
      then have "\<not> unat (of_nat i - of_nat n :: u64) < length bs" using assms i by simp
      then show ?thesis by (simp add: wr_def)
    qed (simp add: wr_def)
  qed
  then show ?thesis using assms by (simp add: rd_append rd_wr_same)
qed

subsection \<open>\<open>memcpy\<close> and \<open>memzero\<close>\<close>

text \<open>
  \<open>memcpy\<close> (\<open>src/kernel/mm/memcpy.cpp\<close>) copies upwards, one byte at a time, re-reading
  the memory it has already written; with overlapping ranges this matters, and
  \<open>realloc\<close> relies on it when it slides a block down.
\<close>

fun memcpy :: "mem \<Rightarrow> u64 \<Rightarrow> u64 \<Rightarrow> nat \<Rightarrow> mem" where
  "memcpy m dest src 0 = m"
| "memcpy m dest src (Suc count) = memcpy (m(dest := m src)) (dest + 1) (src + 1) count"

fun memzero :: "mem \<Rightarrow> u64 \<Rightarrow> nat \<Rightarrow> mem" where
  "memzero m dst 0 = m"
| "memzero m dst (Suc count) = memzero (m(dst := 0)) (dst + 1) count"

lemma wr_Cons:
  assumes "Suc (length bs) \<le> 2 ^ 64"
  shows "wr m a (b # bs) = wr (m(a := b)) (a + 1) bs"
proof
  fix x
  show "wr m a (b # bs) x = wr (m(a := b)) (a + 1) bs x"
  proof (cases "x = a")
    case True
    have "unat (- 1 :: u64) = 2 ^ 64 - 1" by (simp add: unsigned_minus_1_eq_mask mask_eq_exp_minus_1)
    with True assms show ?thesis by (simp add: wr_def)
  next
    case False
    then have "unat (x - a) \<noteq> 0" by (simp add: unat_eq_0)
    then have pos: "0 < unat (x - a)" by simp
    have "x - (a + 1) = x - a - 1" by simp
    moreover have "unat (x - a - 1) = unat (x - a) - 1"
      using False by (intro unat_minus_one) simp
    ultimately have "unat (x - (a + 1)) = unat (x - a) - 1" by presburger
    with pos False show ?thesis by (auto simp: wr_def nth_Cons' )
  qed
qed

lemma wr_Nil [simp]: "wr m a [] = m"
  by (simp add: wr_def)

lemma wr_rd [simp]: "wr m a (rd m a n) = m"
  by (auto simp: wr_def fun_eq_iff)

lemma wr_single: "wr m a [b] = m(a := b)"
  by (simp add: wr_Cons)

lemma wr_append:
  "length (xs @ ys) \<le> 2 ^ 64 \<Longrightarrow> wr m a (xs @ ys) = wr (wr m a xs) (a + of_nat (length xs)) ys"
  by (induction xs arbitrary: m a) (auto simp: wr_Cons add.assoc)

lemma wr_upd_commute: "length bs \<le> unat (x - a) \<Longrightarrow> wr (m(x := b)) a bs = (wr m a bs)(x := b)"
  by (auto simp: wr_def fun_eq_iff)

lemma memzero_wr: "n \<le> 2 ^ 64 \<Longrightarrow> memzero m a n = wr m a (replicate n 0)"
  by (induction n arbitrary: m a) (auto simp: wr_Cons)

text \<open>The copy is exact when the ranges are apart, or when it slides downwards.\<close>

lemma memcpy_wr:
  assumes "n \<le> 2 ^ 64" "\<And>i j. i < j \<Longrightarrow> j < n \<Longrightarrow> dest + of_nat i \<noteq> src + of_nat j"
  shows "memcpy m dest src n = wr m dest (rd m src n)"
  using assms
proof (induction n arbitrary: m dest src)
  case 0
  then show ?case by (simp add: rd_def)
next
  case (Suc n)
  have later: "dest \<noteq> src + 1 + of_nat j" if "j < n" for j
    using Suc.prems(2) [of 0 "Suc j"] that by (simp add: add.assoc)
  have step: "\<And>i j. i < j \<Longrightarrow> j < n \<Longrightarrow> dest + 1 + of_nat i \<noteq> src + 1 + of_nat j"
    using Suc.prems(2) [of "Suc i" "Suc j" for i j] by (simp add: add.assoc)
  have "rd (m(dest := m src)) (src + 1) n = rd m (src + 1) n"
    by (rule rd_cong) (use later in auto)
  moreover have "rd m src (Suc n) = m src # rd m (src + 1) n"
    using rd_append [of m src 1 n] by (simp add: rd_def)
  ultimately show ?case
    using Suc.IH [of "dest + 1" "src + 1" "m(dest := m src)"] step Suc.prems(1)
    by (simp add: wr_Cons del: fun_upd_apply)
qed

subsection \<open>Counted loops\<close>

text \<open>
  \<open>for (i = a; i < b; ++i) body\<close> over a list of the values the counter takes.
  \<open>for_each\<close> runs every iteration; \<open>for_find\<close> is a loop whose body may \<open>return\<close> a
  value, which ends it.  A body that never returns (\<open>None\<close>) makes the loop never return.
\<close>

fun for_each :: "('a \<Rightarrow> 's \<Rightarrow> 's option) \<Rightarrow> 'a list \<Rightarrow> 's \<Rightarrow> 's option" where
  "for_each body [] s = Some s"
| "for_each body (i # is) s = do { s' \<leftarrow> body i s; for_each body is s' }"

fun for_find :: "('a \<Rightarrow> 's \<Rightarrow> ('r option \<times> 's) option) \<Rightarrow> 'a list \<Rightarrow> 's \<Rightarrow> ('r option \<times> 's) option" where
  "for_find body [] s = Some (None, s)"
| "for_find body (i # is) s = do {
     (r, s') \<leftarrow> body i s;
     case r of None \<Rightarrow> for_find body is s' | Some v \<Rightarrow> Some (Some v, s')
   }"

lemma for_each_append:
  "for_each body (xs @ ys) s = do { s' \<leftarrow> for_each body xs s; for_each body ys s' }"
  by (induction xs arbitrary: s) (auto split: Option.bind_splits)

lemma for_each_invariant:
  assumes "for_each body xs s = Some t" "P s"
    and "\<And>i s s'. i \<in> set xs \<Longrightarrow> P s \<Longrightarrow> body i s = Some s' \<Longrightarrow> P s'"
  shows "P t"
  using assms
proof (induction xs arbitrary: s)
  case (Cons i "is")
  then obtain s' where s': "body i s = Some s'" "for_each body is s' = Some t"
    by (auto split: Option.bind_splits)
  have "P s'" using Cons.prems(2,3) s'(1) by auto
  from s'(2) this show ?case
  proof (rule Cons.IH)
    fix j u u' assume "j \<in> set is" "P u" "body j u = Some u'"
    then show "P u'" using Cons.prems(3) [of j u u'] by simp
  qed
qed simp

lemma for_each_total:
  assumes "P s" "\<And>i s. i \<in> set xs \<Longrightarrow> P s \<Longrightarrow> \<exists>s'. body i s = Some s' \<and> P s'"
  shows "\<exists>t. for_each body xs s = Some t \<and> P t"
  using assms
proof (induction xs arbitrary: s)
  case (Cons i "is")
  then obtain s' where "body i s = Some s'" "P s'" by (metis list.set_intros(1))
  with Cons show ?case by auto
qed simp

subsection \<open>More shared facts\<close>

lemma le_word_le_bytes_ucast:
  assumes "LENGTH('a::len) \<le> LENGTH('b::len)"
  shows "(le_word (le_bytes n (w :: 'a word)) :: 'b word) = ucast (take_bit (8 * n) w)"
proof (induction n arbitrary: w)
  case (Suc n)
  show ?case
    by (rule bit_eqI) (use assms in \<open>auto simp: Suc bit_simps intro: less_le_trans dest: bit_imp_le_length\<close>)
qed simp

lemma memcpy_self: "memcpy m a a n = m"
  by (induction n arbitrary: a) auto

lemma rd64_cong: "(\<And>i. i < 8 \<Longrightarrow> m (a + of_nat i) = m' (a + of_nat i)) \<Longrightarrow> rd64 m a = rd64 m' a"
  unfolding rd64_def by (metis rd_cong)

lemma unat_add_small: "unat (a :: u64) + i < 2 ^ 64 \<Longrightarrow> unat (a + of_nat i) = unat a + i"
  by (simp add: unat_word_ariths unat_of_nat take_bit_nat_eq_self)

lemma unat_of_nat_small: "n < 2 ^ 64 \<Longrightarrow> unat (of_nat n :: u64) = n"
  by (simp add: unat_of_nat take_bit_nat_eq_self)

lemma map_of_tabulate: "map_of (rev (map (\<lambda>i. (i, f i)) [a..<b])) i = (if a \<le> i \<and> i < b then Some (f i) else None)"
  by (induction b) (auto simp: less_Suc_eq)

lemma map_of_rev_distinct: "distinct (map fst xs) \<Longrightarrow> map_of (rev xs) = map_of xs"
  by (simp add: map_of_inject_set rev_map [symmetric])

lemma for_find_continue:
  "for_find body xs s = Some (None, s') \<Longrightarrow> for_find body (xs @ ys) s = for_find body ys s'"
  by (induction xs arbitrary: s) (auto split: Option.bind_splits option.splits prod.splits)

end
