(* ===== verification/CString.thy ===== *)
theory CString
  imports Prelude "HOL-Library.Signed_Division"
begin

section \<open>C strings: \<open>src/kernel/lib/string.cpp\<close>\<close>

text \<open>
  The string routines walk NUL-terminated byte memory.  Each loop of the source is a
  recursion over the same pointers; a string with no terminator makes the loop run for ever,
  which is \<open>None\<close>.  \<open>char\<close> is a byte; \<open>itoa\<close> keeps its intermediate values as integers
  because no step of its loop leaves the range of \<open>i64\<close>, \<open>utoa\<close> and \<open>atoi\<close> work on 64-bit
  words.  The lemmas show each routine's result on a well-formed string, that \<open>itoa\<close> and
  \<open>utoa\<close> print the numeral, how many bytes of the caller's buffer they use, and that
  \<open>atoi\<close> reads back what \<open>itoa\<close> prints.
\<close>

definition ascii :: "string \<Rightarrow> u8 list" where
  "ascii s = map of_char s"

definition is_cstr :: "mem \<Rightarrow> u64 \<Rightarrow> u8 list \<Rightarrow> bool" where
  "is_cstr m p bs \<longleftrightarrow> 0 \<notin> set bs \<and> length bs < 2 ^ 64 \<and> rd m p (Suc (length bs)) = bs @ [0]"

subsection \<open>The routines\<close>

partial_function (option) strlen_loop :: "mem \<Rightarrow> u64 \<Rightarrow> u64 option" where
  "strlen_loop m s = (if m s = 0 then Some s else strlen_loop m (s + 1))"

definition strlen :: "mem \<Rightarrow> u64 \<Rightarrow> u64 option" where
  "strlen m str = map_option (\<lambda>s. s - str) (strlen_loop m str)"

partial_function (option) strcmp :: "mem \<Rightarrow> u64 \<Rightarrow> u64 \<Rightarrow> int option" where
  "strcmp m s1 s2 =
     (if m s1 = m s2 then (if m s1 = 0 then Some 0 else strcmp m (s1 + 1) (s2 + 1))
      else Some (uint (m s1) - uint (m s2)))"

partial_function (option) strcpy :: "mem \<Rightarrow> u64 \<Rightarrow> u64 \<Rightarrow> mem option" where
  "strcpy m dest src =
     (let c = m src; m' = m(dest := c)
      in if c = 0 then Some m' else strcpy m' (dest + 1) (src + 1))"

text \<open>\<open>strcat\<close> runs to the terminator of \<open>dest\<close> and then performs \<open>strcpy\<close>'s loop there.\<close>

definition strcat :: "mem \<Rightarrow> u64 \<Rightarrow> u64 \<Rightarrow> mem option" where
  "strcat m dest src = do { e \<leftarrow> strlen_loop m dest; strcpy m e src }"

partial_function (option) strchr :: "mem \<Rightarrow> u64 \<Rightarrow> u32 \<Rightarrow> u64 option" where
  "strchr m s c =
     (if m s \<noteq> ucast c then (if m s = 0 then Some 0 else strchr m (s + 1) c) else Some s)"

function reverse_loop :: "mem \<Rightarrow> u64 \<Rightarrow> int \<Rightarrow> int \<Rightarrow> mem" where
  "reverse_loop m s i j =
     (if i < j
      then let c = m (s + of_int i);
               m1 = m(s + of_int i := m (s + of_int j));
               m2 = m1(s + of_int j := c)
           in reverse_loop m2 s (i + 1) (j - 1)
      else m)"
  by pat_completeness auto
termination
  by (relation "measure (\<lambda>(m, s, i, j). nat (j - i))") auto

definition reverse :: "mem \<Rightarrow> u64 \<Rightarrow> mem option" where
  "reverse m s = do { n \<leftarrow> strlen m s; Some (reverse_loop m s 0 (sint (ucast n - 1 :: u32))) }"

subsection \<open>Numbers\<close>

definition digit_table :: "u8 list" where
  "digit_table = ascii ''zyxwvutsrqponmlkjihgfedcba9876543210123456789abcdefghijklmnopqrstuvwxyz''"

partial_function (option) itoa_digits ::
  "mem \<Rightarrow> int \<Rightarrow> u64 \<Rightarrow> int \<Rightarrow> (mem \<times> u64 \<times> int) option" where
  "itoa_digits m value ptr base =
     (let tmp_value = value;
          value' = value sdiv base;
          m' = m(ptr := digit_table ! nat (35 + (tmp_value - value' * base)));
          ptr' = ptr + 1
      in if value' = 0 then Some (m', ptr', tmp_value) else itoa_digits m' value' ptr' base)"

function itoa_swap :: "mem \<Rightarrow> u64 \<Rightarrow> u64 \<Rightarrow> mem" where
  "itoa_swap m ptr1 ptr =
     (if ptr1 < ptr
      then let tmp_char = m ptr; m1 = m(ptr := m ptr1); m2 = m1(ptr1 := tmp_char)
           in itoa_swap m2 (ptr1 + 1) (ptr - 1)
      else m)"
  by pat_completeness auto
termination
proof (relation "measure (\<lambda>(m, ptr1, ptr). unat ptr)", goal_cases)
  case (2 m ptr1 ptr)
  then have "ptr \<noteq> 0" by auto
  then show ?case by (simp add: measure_unat)
qed simp

definition itoa :: "mem \<Rightarrow> int \<Rightarrow> u64 \<Rightarrow> int \<Rightarrow> mem option" where
  "itoa m value result base =
     (if base < 2 \<or> base > 36 then Some (m(result := 0))
      else do {
        (m1, ptr, tmp_value) \<leftarrow> itoa_digits m value result base;
        let (m2, ptr2) = (if tmp_value < 0 then (m1(ptr := of_char CHR ''-''), ptr + 1) else (m1, ptr));
        let m3 = m2(ptr2 := 0);
        Some (itoa_swap m3 result (ptr2 - 1))
      })"

partial_function (option) utoa_digits ::
  "mem \<Rightarrow> u64 \<Rightarrow> u64 \<Rightarrow> int \<Rightarrow> (mem \<times> u64) option" where
  "utoa_digits m value ptr base =
     (let tmp_value = value;
          value' = value div of_int base;
          m' = m(ptr := digit_table ! unat (35 + (tmp_value - value' * of_int base)));
          ptr' = ptr + 1
      in if value' = 0 then Some (m', ptr') else utoa_digits m' value' ptr' base)"

definition utoa :: "mem \<Rightarrow> u64 \<Rightarrow> u64 \<Rightarrow> int \<Rightarrow> mem option" where
  "utoa m value result base =
     (if base < 2 \<or> base > 36 then Some (m(result := 0))
      else do {
        (m1, ptr) \<leftarrow> utoa_digits m value result base;
        Some (itoa_swap (m1(ptr := 0)) result (ptr - 1))
      })"

partial_function (option) atoi_loop :: "mem \<Rightarrow> u64 \<Rightarrow> u64 \<Rightarrow> u64 option" where
  "atoi_loop m str num =
     (let c = m str
      in if c = 0 then Some num
         else if c < of_char CHR ''0'' \<or> c > of_char CHR ''9'' then Some num
         else atoi_loop m (str + 1) (num * 10 + (ucast c - of_char CHR ''0'')))"

definition atoi :: "mem \<Rightarrow> u64 \<Rightarrow> u64 option" where
  "atoi m str =
     (let negative = (m str = of_char CHR ''-'')
      in map_option (\<lambda>num. if negative then - num else num)
           (atoi_loop m (if negative then str + 1 else str) 0))"

text \<open>The text at an address, and what the conversions leave in a local buffer.\<close>

definition cstring_at :: "mem \<Rightarrow> u64 \<Rightarrow> u8 list option" where
  "cstring_at m p = do { n \<leftarrow> strlen m p; Some (rd m p (unat n)) }"

definition itoa_text :: "u64 \<Rightarrow> int \<Rightarrow> u8 list option" where
  "itoa_text v base = do { m \<leftarrow> itoa (\<lambda>_. 0) (sint v) 0x1000 base; cstring_at m 0x1000 }"

definition utoa_text :: "u64 \<Rightarrow> int \<Rightarrow> u8 list option" where
  "utoa_text v base = do { m \<leftarrow> utoa (\<lambda>_. 0) v 0x1000 base; cstring_at m 0x1000 }"

declare reverse_loop.simps [simp del] itoa_swap.simps [simp del]

subsection \<open>Walking a well-formed string\<close>

lemma is_cstr_Nil [simp]: "is_cstr m p [] \<longleftrightarrow> m p = 0"
  by (simp add: is_cstr_def rd_def)

lemma rd_Suc: "rd m p (Suc n) = m p # rd m (p + 1) n"
  using rd_append [of m p 1 n] by (simp add: rd_def)

lemma is_cstr_Cons:
  "is_cstr m p (b # bs) \<longleftrightarrow>
     m p = b \<and> b \<noteq> 0 \<and> Suc (length bs) < 2 ^ 64 \<and> is_cstr m (p + 1) bs"
  by (auto simp: is_cstr_def rd_Suc)

lemma is_cstr_wr: "0 \<notin> set bs \<Longrightarrow> length bs < 2 ^ 64 \<Longrightarrow> is_cstr (wr m p (bs @ [0])) p bs"
  using rd_wr_same [of "bs @ [0]" m p] by (simp add: is_cstr_def)

lemma is_cstr_apart:
  "is_cstr m q bs \<Longrightarrow> apart p (length ds) q (Suc (length bs)) \<Longrightarrow> is_cstr (wr m p ds) q bs"
  by (simp add: is_cstr_def rd_wr_apart)

lemma strlen_loop_cstr: "is_cstr m p bs \<Longrightarrow> strlen_loop m p = Some (p + of_nat (length bs))"
proof (induction bs arbitrary: p)
  case Nil
  then show ?case by (simp add: strlen_loop.simps [of m p])
next
  case (Cons b bs)
  then show ?case by (simp add: strlen_loop.simps [of m p] is_cstr_Cons add.assoc)
qed

lemma strlen_cstr: "is_cstr m p bs \<Longrightarrow> strlen m p = Some (of_nat (length bs))"
  by (simp add: strlen_def strlen_loop_cstr)

lemma strcmp_cstr:
  assumes "is_cstr m p xs" "is_cstr m q ys"
  shows "\<exists>r. strcmp m p q = Some r \<and> (r = 0 \<longleftrightarrow> xs = ys) \<and> (r < 0 \<longleftrightarrow> ord_class.lexordp xs ys)"
  using assms
proof (induction xs arbitrary: p q ys)
  case Nil
  then show ?case
    by (cases ys) (auto simp: strcmp.simps [of m p q] is_cstr_Cons word_less_def word_neq_0_conv)
next
  case (Cons x xs)
  show ?case
  proof (cases ys)
    case Nil
    with Cons.prems show ?thesis
      by (auto simp: strcmp.simps [of m p q] is_cstr_Cons word_neq_0_conv word_less_def uint_0_iff)
  next
    case (Cons y ys')
    show ?thesis
    proof (cases "x = y")
      case True
      with Cons Cons.prems Cons.IH [of "p + 1" "q + 1" ys'] show ?thesis
        by (auto simp: strcmp.simps [of m p q] is_cstr_Cons)
    next
      case False
      with Cons Cons.prems show ?thesis
        by (auto simp: strcmp.simps [of m p q] is_cstr_Cons word_less_def word_uint_eq_iff)
    qed
  qed
qed

lemma strcpy_cstr:
  assumes "is_cstr m src bs" "\<And>i j. i < j \<Longrightarrow> j \<le> length bs \<Longrightarrow> dest + of_nat i \<noteq> src + of_nat j"
  shows "strcpy m dest src = Some (wr m dest (bs @ [0]))"
  using assms
proof (induction bs arbitrary: m dest src)
  case Nil
  then have "m src = 0" by simp
  moreover have "wr m dest [0] = m(dest := 0)"
    by (rule wr_single)
  ultimately show ?case by (simp add: strcpy.simps [of m dest src] fun_upd_def)
next
  case (Cons b bs)
  let ?m = "m(dest := b)"
  have later: "dest \<noteq> src + 1 + of_nat j" if "j \<le> length bs" for j
    using Cons.prems(2) [of 0 "Suc j"] that by (simp add: add.assoc)
  have "rd ?m (src + 1) (Suc (length bs)) = rd m (src + 1) (Suc (length bs))"
    by (rule rd_cong) (use later in \<open>auto simp: less_Suc_eq_le\<close>)
  then have str: "is_cstr ?m (src + 1) bs"
    using Cons.prems(1) by (simp add: is_cstr_Cons) (simp add: is_cstr_def)
  have "strcpy ?m (dest + 1) (src + 1) = Some (wr ?m (dest + 1) (bs @ [0]))"
  proof (rule Cons.IH [OF str])
    fix i j :: nat assume "i < j" "j \<le> length bs"
    then show "dest + 1 + of_nat i \<noteq> src + 1 + of_nat j"
      using Cons.prems(2) [of "Suc i" "Suc j"] by (simp add: add.assoc)
  qed
  moreover have "m src = b" "b \<noteq> 0" "Suc (length (bs @ [0])) \<le> 2 ^ 64"
    using Cons.prems(1) by (auto simp: is_cstr_Cons)
  ultimately show ?case
    by (subst strcpy.simps) (simp add: wr_Cons Let_def del: fun_upd_apply)
qed

lemma strchr_cstr:
  assumes "is_cstr m p bs"
  shows "strchr m p c = Some (if ucast c = (0::u8) then p + of_nat (length bs)
     else if ucast c \<in> set bs then p + of_nat (length (takeWhile (\<lambda>b. b \<noteq> ucast c) bs)) else 0)"
  using assms
proof (induction bs arbitrary: p)
  case Nil
  then show ?case by (auto simp: strchr.simps [of m p])
next
  case (Cons b bs)
  then show ?case by (auto simp: strchr.simps [of m p] is_cstr_Cons add.assoc)
qed

subsection \<open>The swap loop reverses\<close>

lemma itoa_swap_wr:
  assumes "unat lo + n \<le> 2 ^ 64" "0 < n"
  shows "itoa_swap m lo (lo + of_nat n - 1) = wr m lo (rev (rd m lo n))"
  using assms
proof (induction n arbitrary: m lo rule: less_induct)
  case (less n)
  let ?hi = "lo + of_nat n - 1"
  have n64: "n \<le> 2 ^ 64" using less.prems by simp
  have dist: "?hi - lo = of_nat (n - 1)" using less.prems by (simp add: of_nat_diff)
  have u_dist: "unat (?hi - lo) = n - 1"
  proof -
    have "unat (of_nat (n - 1) :: u64) = n - 1"
      using n64 less.prems by (simp add: unat_of_nat del: of_nat_diff)
    then show ?thesis by (subst dist)
  qed
  have hi: "unat ?hi = unat lo + (n - 1)"
  proof -
    have "?hi = lo + of_nat (n - 1)" using less.prems by (simp add: of_nat_diff)
    moreover have "unat (lo + of_nat (n - 1)) = unat lo + (n - 1)"
      using less.prems by (simp add: unat_word_ariths unat_of_nat del: of_nat_diff)
    ultimately show ?thesis by presburger
  qed
  show ?case
  proof (cases "n = 1")
    case True
    then show ?thesis by (simp add: itoa_swap.simps [of m lo] rd_def wr_single)
  next
    case False
    define mid where "mid = rd m (lo + 1) (n - 2)"
    define m2 where "m2 = m(?hi := m lo, lo := m ?hi)"
    have lt: "lo < ?hi" using False hi less.prems by (simp add: word_less_nat_alt)
    have n2: "n = Suc ((n - 2) + 1)" using False less.prems by simp
    have "rd m lo n = m lo # rd m (lo + 1) ((n - 2) + 1)" by (subst n2) (rule rd_Suc)
    also have "\<dots> = m lo # mid @ [m ?hi]"
    proof -
      have "lo + 1 + of_nat (n - 2) = ?hi" using False less.prems by (simp add: of_nat_diff)
      then have "m (lo + 1 + of_nat (n - 2)) = m ?hi" by (rule arg_cong)
      then show ?thesis using rd_append [of m "lo + 1" "n - 2" 1] by (simp add: mid_def)
    qed
    finally have rd: "rev (rd m lo n) = m ?hi # rev mid @ [m lo]" by simp
    have far: "unat (?hi - (lo + 1)) = n - 2"
    proof -
      have "?hi - (lo + 1) = of_nat (n - 2)" using False less.prems by (simp add: of_nat_diff)
      then show ?thesis using n64 by (simp add: unat_of_nat)
    qed
    have target: "wr m lo (rev (rd m lo n)) = wr m2 (lo + 1) (rev mid)"
    proof -
      have "wr m lo (rev (rd m lo n)) = wr (m(lo := m ?hi)) (lo + 1) (rev mid @ [m lo])"
        using n64 False less.prems by (simp add: rd wr_Cons mid_def)
      also have "\<dots> = (wr (m(lo := m ?hi)) (lo + 1) (rev mid))(?hi := m lo)"
        using False less.prems n64 by (simp add: wr_append wr_single mid_def of_nat_diff)
      also have "\<dots> = wr (m(lo := m ?hi, ?hi := m lo)) (lo + 1) (rev mid)"
        using far by (simp add: wr_upd_commute mid_def)
      also have "m(lo := m ?hi, ?hi := m lo) = m2"
        using lt by (auto simp: m2_def fun_eq_iff)
      finally show ?thesis .
    qed
    have unfold: "itoa_swap m lo ?hi = itoa_swap m2 (lo + 1) (?hi - 1)"
      using lt by (simp add: itoa_swap.simps [of m lo ?hi] m2_def Let_def)
    show ?thesis
    proof (cases "n = 2")
      case True
      then have "itoa_swap m2 (lo + 1) (?hi - 1) = m2"
      proof -
        have "\<not> lo + 1 < lo" using lt True by (auto simp: add.commute)
        then show ?thesis using True by (simp add: itoa_swap.simps [of m2])
      qed
      then show ?thesis using True unfold target by (simp add: mid_def rd_def wr_def)
    next
      case False
      have sub: "0 < n - 2" "n - 2 < n" using False \<open>n \<noteq> 1\<close> less.prems by auto
      have "unat (lo + 1) + (n - 2) \<le> 2 ^ 64"
        using less.prems sub by (simp add: unat_word_ariths)
      from less.IH [OF sub(2) this sub(1), of m2]
      have "itoa_swap m2 (lo + 1) (?hi - 1) = wr m2 (lo + 1) (rev (rd m2 (lo + 1) (n - 2)))"
        using sub by (simp add: of_nat_diff algebra_simps)
      moreover have "rd m2 (lo + 1) (n - 2) = mid"
        unfolding mid_def
      proof (rule rd_cong)
        fix i assume i: "i < n - 2"
        have "lo + 1 + of_nat i - lo = of_nat (Suc i)" by simp
        then have k: "unat (lo + 1 + of_nat i - lo) = Suc i"
          using i n64 by (simp only: unat_of_nat) simp
        have "lo + 1 + of_nat i \<noteq> lo"
        proof
          assume "lo + 1 + of_nat i = lo"
          with k show False by simp
        qed
        moreover have "lo + 1 + of_nat i \<noteq> ?hi"
        proof
          assume "lo + 1 + of_nat i = ?hi"
          from k [unfolded this] u_dist i show False by linarith
        qed
        ultimately show "m2 (lo + 1 + of_nat i) = m (lo + 1 + of_nat i)" by (simp add: m2_def)
      qed
      ultimately show ?thesis using unfold target by simp
    qed
  qed
qed

lemma reverse_loop_swap:
  assumes "0 \<le> i" "0 \<le> j" "i \<le> j + 1" "uint s + j + 1 < 2 ^ 64"
  shows "reverse_loop m s i j = itoa_swap m (s + of_int i) (s + of_int j)"
  using assms
proof (induction m s i j rule: reverse_loop.induct)
  case (1 m s i j)
  have off: "uint (s + of_int k) = uint s + k" if "0 \<le> k" "k \<le> j + 1" for k
  proof -
    have "0 \<le> uint s" by simp
    then have "k < 2 ^ 64" "uint s + k < 2 ^ 64" using that "1.prems" by linarith+
    then show ?thesis using that by (simp add: uint_word_ariths uint_word_of_int)
  qed
  have less: "s + of_int i < s + of_int j \<longleftrightarrow> i < j"
    using "1.prems" off [of i] off [of j] by (simp add: word_less_def)
  show ?case
  proof (cases "i < j")
    case True
    let ?m = "m(s + of_int i := m (s + of_int j), s + of_int j := m (s + of_int i))"
    have "reverse_loop ?m s (i + 1) (j - 1) =
        itoa_swap ?m (s + of_int (i + 1)) (s + of_int (j - 1))"
      using True "1.prems" by (intro "1.IH") auto
    moreover have "?m = m(s + of_int j := m (s + of_int i), s + of_int i := m (s + of_int j))"
      by (auto simp: fun_eq_iff)
    ultimately show ?thesis using True less
      by (simp add: reverse_loop.simps [of m] itoa_swap.simps [of m] Let_def algebra_simps
          del: fun_upd_apply)
  next
    case False
    with less show ?thesis by (simp add: reverse_loop.simps [of m] itoa_swap.simps [of m])
  qed
qed

lemma wr_overwrite:
  "length ys = length xs \<Longrightarrow> wr (wr m a (xs @ zs)) a ys = wr m a (ys @ zs)"
  by (auto simp: wr_def fun_eq_iff nth_append)

lemma j_bound:
  assumes "0 < n" "n < 2 ^ 31"
  shows "sint (ucast (of_nat n :: u64) - 1 :: u32) = int n - 1"
proof -
  have "(ucast (of_nat n :: u64) - 1 :: u32) = of_int (int n - 1)"
    by (simp add: unsigned_of_nat take_bit_nat_eq_self_iff word_of_nat_eq_iff)
  moreover have "sint (of_int (int n - 1) :: u32) = int n - 1"
    using assms by (subst signed_of_int) (simp add: signed_take_bit_int_eq_self)
  ultimately show ?thesis by simp
qed

lemma reverse_cstr:
  assumes "is_cstr m s bs" "length bs < 2 ^ 31" "unat s + length bs < 2 ^ 64"
  shows "reverse m s = Some (wr m s (rev bs @ [0]))"
proof -
  have str: "rd m s (Suc (length bs)) = bs @ [0]" using assms(1) by (simp add: is_cstr_def)
  have body: "wr m s (bs @ [0]) = m" using wr_rd [of m s "Suc (length bs)"] by (simp add: str)
  have rd: "rd m s (length bs) = bs"
    using str rd_append [of m s "length bs" 1] by simp
  show ?thesis
  proof (cases "bs = []")
    case True
    then have "strlen m s = Some 0" "m s = 0"
      using strlen_cstr [OF assms(1)] assms(1) by simp_all
    then show ?thesis using True
      by (simp add: reverse_def reverse_loop.simps [of m s 0 "- 1"] wr_single fun_upd_idem)
  next
    case False
    define n where "n = length bs"
    have n: "0 < n" "n < 2 ^ 31" "unat s + n < 2 ^ 64" using assms False by (auto simp: n_def)
    have j: "sint (ucast (of_nat n :: u64) - 1 :: u32) = int n - 1"
      using n by (simp add: j_bound)
    have "reverse_loop m s 0 (int n - 1) = itoa_swap m s (s + of_nat n - 1)"
    proof -
      have "int (unat s + n) < int (2 ^ 64)" using n(3) by (simp only: of_nat_less_iff)
      then have "uint s + (int n - 1) + 1 < 2 ^ 64" by simp
      then show ?thesis using n reverse_loop_swap [of 0 "int n - 1" s m]
        by (simp add: add_diff_eq)
    qed
    also have "\<dots> = wr m s (rev bs)"
      using n itoa_swap_wr [of s n m] rd by (simp add: n_def)
    also have "\<dots> = wr m s (rev bs @ [0])"
      using wr_overwrite [of "rev bs" bs m s "[0]"] body by simp
    finally show ?thesis using assms(1) j by (simp add: reverse_def strlen_cstr n_def)
  qed
qed

subsection \<open>Printing a number\<close>

fun digits_rev :: "nat \<Rightarrow> nat \<Rightarrow> nat list" where
  "digits_rev b n = (if b < 2 \<or> n < b then [n] else n mod b # digits_rev b (n div b))"

declare digits_rev.simps [simp del]

definition digit_char :: "nat \<Rightarrow> u8" where
  "digit_char d = digit_table ! (35 + d)"

definition itoa_string :: "int \<Rightarrow> nat \<Rightarrow> u8 list" where
  "itoa_string v b = (if v < 0 then [of_char CHR ''-''] else []) @
     rev (map digit_char (digits_rev b (nat \<bar>v\<bar>)))"

lemma digit_table_bytes:
  "digit_table =
   [122, 121, 120, 119, 118, 117, 116, 115, 114, 113, 112, 111, 110, 109, 108, 107, 106,
    105, 104, 103, 102, 101, 100, 99, 98, 97, 57, 56, 55, 54, 53, 52, 51, 50, 49, 48, 49,
    50, 51, 52, 53, 54, 55, 56, 57, 97, 98, 99, 100, 101, 102, 103, 104, 105, 106, 107, 108,
    109, 110, 111, 112, 113, 114, 115, 116, 117, 118, 119, 120, 121, 122]"
  by (simp add: digit_table_def ascii_def)

lemma digit_table_symmetric: "d < 36 \<Longrightarrow> digit_table ! (35 - d) = digit_char d"
proof -
  have "\<forall>d \<in> set [0..<36]. digit_table ! (35 - d) = digit_char d"
    by (simp add: digit_table_bytes digit_char_def upt_rec)
  then show "d < 36 \<Longrightarrow> digit_table ! (35 - d) = digit_char d" by simp
qed

lemma digit_char_nonzero: "d < 36 \<Longrightarrow> digit_char d \<noteq> 0 \<and> digit_char d \<noteq> of_char CHR ''-''"
proof -
  have "\<forall>d \<in> set [0..<36]. digit_char d \<noteq> 0 \<and> digit_char d \<noteq> of_char CHR ''-''"
    by (simp add: digit_table_bytes digit_char_def upt_rec)
  then show "d < 36 \<Longrightarrow> digit_char d \<noteq> 0 \<and> digit_char d \<noteq> of_char CHR ''-''" by simp
qed

lemma digits_rev_bound: "2 \<le> b \<Longrightarrow> d \<in> set (digits_rev b n) \<Longrightarrow> d < b"
proof (induction b n rule: digits_rev.induct)
  case (1 b n)
  then show ?case by (auto simp: digits_rev.simps [of b n] split: if_splits)
qed

lemma digits_rev_nonempty [simp]: "digits_rev b n \<noteq> []"
  by (simp add: digits_rev.simps [of b n])

lemma length_digits_rev: "2 \<le> b \<Longrightarrow> n < b ^ k \<Longrightarrow> 0 < k \<Longrightarrow> length (digits_rev b n) \<le> k"
proof (induction k arbitrary: n)
  case 0
  then show ?case by simp
next
  case (Suc k)
  show ?case
  proof (cases "n < b")
    case True
    then show ?thesis by (simp add: digits_rev.simps [of b n])
  next
    case False
    then have "k \<noteq> 0" using Suc.prems by (cases k) auto
    moreover have "n div b < b ^ k" using Suc.prems by (simp add: less_mult_imp_div_less mult.commute)
    ultimately show ?thesis using Suc False by (simp add: digits_rev.simps [of b n])
  qed
qed

lemma sdiv_abs:
  assumes "2 \<le> (b::int)"
  shows "v sdiv b = sgn v * (\<bar>v\<bar> div b)" "v - v sdiv b * b = sgn v * (\<bar>v\<bar> mod b)"
proof -
  show *: "v sdiv b = sgn v * (\<bar>v\<bar> div b)"
    using assms by (simp add: signed_divide_int_def)
  have "\<bar>v\<bar> mod b = \<bar>v\<bar> - \<bar>v\<bar> div b * b" by (simp add: minus_div_mult_eq_mod)
  then show "v - v sdiv b * b = sgn v * (\<bar>v\<bar> mod b)"
    by (simp add: * right_diff_distrib abs_sgn mult.assoc)
qed

lemma itoa_step:
  assumes "2 \<le> base" "base \<le> 36"
  shows "digit_table ! nat (35 + (v - v sdiv base * base)) = digit_char (nat \<bar>v\<bar> mod nat base)"
    and "nat \<bar>v sdiv base\<bar> = nat \<bar>v\<bar> div nat base"
    and "v sdiv base = 0 \<longleftrightarrow> nat \<bar>v\<bar> < nat base"
    and "v sdiv base \<noteq> 0 \<Longrightarrow> v sdiv base < 0 \<longleftrightarrow> v < 0"
proof -
  define d where "d = nat \<bar>v\<bar> mod nat base"
  have d: "\<bar>v\<bar> mod base = int d" using assms by (simp add: d_def zmod_int)
  have "d < nat base" unfolding d_def using assms by (intro mod_less_divisor) simp
  then have d36: "d < 36" using assms by simp
  have idx: "v - v sdiv base * base = sgn v * int d" using assms d by (simp add: sdiv_abs(2))
  have "digit_table ! nat (35 + sgn v * int d) = digit_char d"
  proof (cases "v < 0")
    case True
    then have "nat (35 + sgn v * int d) = 35 - d" using d36 by simp
    then show ?thesis using digit_table_symmetric [OF d36] by simp
  next
    case False
    then have "sgn v * int d = int d" using d_def by (cases "v = 0") auto
    then have "nat (35 + sgn v * int d) = 35 + d" by auto
    then show ?thesis by (simp add: digit_char_def)
  qed
  then show "digit_table ! nat (35 + (v - v sdiv base * base)) = digit_char (nat \<bar>v\<bar> mod nat base)"
    by (simp add: idx d_def)
  show "nat \<bar>v sdiv base\<bar> = nat \<bar>v\<bar> div nat base"
  proof -
    have "0 \<le> \<bar>v\<bar> div base" using assms by (simp add: pos_imp_zdiv_nonneg_iff)
    then show ?thesis using assms by (auto simp: sdiv_abs abs_mult nat_div_distrib)
  qed
  show "v sdiv base = 0 \<longleftrightarrow> nat \<bar>v\<bar> < nat base"
    using assms by (auto simp: sdiv_abs sgn_0_0 zdiv_eq_0_iff)
  have "0 \<le> \<bar>v\<bar> div base" using assms by (simp add: pos_imp_zdiv_nonneg_iff)
  then show "v sdiv base \<noteq> 0 \<Longrightarrow> v sdiv base < 0 \<longleftrightarrow> v < 0"
    using assms by (cases "v < 0"; cases "v = 0") (auto simp: sdiv_abs)
qed

lemma itoa_digits_correct:
  assumes "2 \<le> base" "base \<le> 36" "length (digits_rev (nat base) (nat \<bar>v\<bar>)) \<le> 2 ^ 64"
  shows "\<exists>t. itoa_digits m v p base =
      Some (wr m p (map digit_char (digits_rev (nat base) (nat \<bar>v\<bar>))),
            p + of_nat (length (digits_rev (nat base) (nat \<bar>v\<bar>))), t) \<and> (t < 0 \<longleftrightarrow> v < 0)"
  using assms(3)
proof (induction "nat \<bar>v\<bar>" arbitrary: m v p rule: less_induct)
  case less
  note step = itoa_step [OF assms(1,2), of v]
  let ?c = "digit_char (nat \<bar>v\<bar> mod nat base)" and ?v' = "v sdiv base"
  show ?case
  proof (cases "?v' = 0")
    case True
    then show ?thesis using step assms(1)
      by (simp add: itoa_digits.simps [of m v] digits_rev.simps [of "nat base" "nat \<bar>v\<bar>"] wr_single)
  next
    case False
    have ds: "digits_rev (nat base) (nat \<bar>v\<bar>) =
        (nat \<bar>v\<bar> mod nat base) # digits_rev (nat base) (nat \<bar>?v'\<bar>)"
    proof -
      have "\<not> nat base < 2" using assms(1) by simp
      then show ?thesis
        using False step by (simp add: digits_rev.simps [of "nat base" "nat \<bar>v\<bar>"])
    qed
    have "nat \<bar>?v'\<bar> < nat \<bar>v\<bar>"
      using False step assms(1) by (simp add: div_less_dividend)
    from less.hyps [OF this, of "m(p := ?c)" "p + 1"] less.prems ds
    obtain t where t: "itoa_digits (m(p := ?c)) ?v' (p + 1) base =
        Some (wr (m(p := ?c)) (p + 1) (map digit_char (digits_rev (nat base) (nat \<bar>?v'\<bar>))),
          p + 1 + of_nat (length (digits_rev (nat base) (nat \<bar>?v'\<bar>))), t)"
      "t < 0 \<longleftrightarrow> ?v' < 0" by auto
    have "itoa_digits m v p base = itoa_digits (m(p := ?c)) ?v' (p + 1) base"
      using False by (simp add: itoa_digits.simps [of m v] step(1) Let_def)
    then show ?thesis
      using t less.prems ds step(4) [OF False] by (simp add: wr_Cons add.assoc)
  qed
qed

theorem itoa_correct:
  assumes "2 \<le> base" "base \<le> 36" "- (2 ^ 63) \<le> v" "v < 2 ^ 63" "unat r + 65 \<le> 2 ^ 64"
  shows "itoa m v r base = Some (wr m r (itoa_string v (nat base) @ [0]))"
proof -
  define ds where "ds = map digit_char (digits_rev (nat base) (nat \<bar>v\<bar>))"
  define sg :: "u8 list" where "sg = (if v < 0 then [of_char CHR ''-''] else [])"
  have "nat \<bar>v\<bar> < (2::nat) ^ 64" using assms by auto
  also have "\<dots> \<le> nat base ^ 64" using assms by (intro power_mono) auto
  finally have len: "length ds \<le> 64"
    using assms length_digits_rev [of "nat base" "nat \<bar>v\<bar>" 64] by (simp add: ds_def)
  obtain t where t: "itoa_digits m v r base = Some (wr m r ds, r + of_nat (length ds), t)"
    "t < 0 \<longleftrightarrow> v < 0"
    using itoa_digits_correct [OF assms(1,2), of v m r] len by (auto simp: ds_def)
  define n where "n = length (ds @ sg)"
  have n: "0 < n" "n \<le> 65" "unat r + n \<le> 2 ^ 64" using len assms(5) by (auto simp: n_def ds_def sg_def)
  let ?m = "wr m r (ds @ sg @ [0])"
  have "itoa m v r base = Some (itoa_swap ?m r (r + of_nat n - 1))"
    using assms(1,2) t len
    by (simp add: itoa_def n_def sg_def wr_append wr_single add.assoc wr_Cons)
  also have "itoa_swap ?m r (r + of_nat n - 1) = wr ?m r (rev (rd ?m r n))"
    using n by (intro itoa_swap_wr) auto
  also have "rd ?m r n = ds @ sg"
  proof -
    have "rd ?m r (n + 1) = ds @ sg @ [0]"
      using rd_wr_same [of "ds @ sg @ [0]" m r] n by (simp add: n_def add.assoc)
    then show ?thesis unfolding rd_append by (simp add: n_def)
  qed
  also have "wr ?m r (rev (ds @ sg)) = wr m r (rev (ds @ sg) @ [0])"
    using wr_overwrite [of "rev (ds @ sg)" "ds @ sg" m r "[0]"] by simp
  also have "rev (ds @ sg) = itoa_string v (nat base)"
    by (auto simp: itoa_string_def ds_def sg_def)
  finally show ?thesis .
qed

subsection \<open>\<open>utoa\<close>\<close>

lemma utoa_step:
  assumes "2 \<le> base" "base \<le> 36"
  shows "digit_table ! unat (35 + (v - v div of_int base * of_int base :: u64)) =
      digit_char (unat v mod nat base)"
    and "unat (v div of_int base :: u64) = unat v div nat base"
    and "(v div of_int base :: u64) = 0 \<longleftrightarrow> unat v < nat base"
proof -
  obtain b where b: "base = int b" "2 \<le> b" "b \<le> 36"
    using assms nonneg_int_cases [of base] by auto
  have ub: "unat (of_nat b :: u64) = b" using b by (simp add: unat_of_nat)
  show q: "unat (v div of_int base :: u64) = unat v div nat base"
    using b ub by (simp add: unat_div)
  show "(v div of_int base :: u64) = 0 \<longleftrightarrow> unat v < nat base"
    using q b by (metis div_eq_0_iff nat_int not_numeral_le_zero unat_eq_0)
  have "v - v div of_nat b * of_nat b = v mod of_nat b"
    by (simp add: minus_div_mult_eq_mod)
  moreover have "unat (v mod of_nat b) = unat v mod b" using ub by (simp add: unat_mod)
  moreover have "unat v mod b < 36" using b mod_less_divisor [of b "unat v"] by linarith
  ultimately have "unat (35 + (v - v div of_nat b * of_nat b)) = 35 + unat v mod b"
    by (simp add: unat_word_ariths)
  then show "digit_table ! unat (35 + (v - v div of_int base * of_int base :: u64)) =
      digit_char (unat v mod nat base)"
    using b by (simp add: digit_char_def)
qed

lemma utoa_digits_correct:
  assumes "2 \<le> base" "base \<le> 36" "length (digits_rev (nat base) (unat v)) \<le> 2 ^ 64"
  shows "utoa_digits m v p base =
      Some (wr m p (map digit_char (digits_rev (nat base) (unat v))),
            p + of_nat (length (digits_rev (nat base) (unat v))))"
  using assms(3)
proof (induction "unat v" arbitrary: m v p rule: less_induct)
  case less
  note step = utoa_step [OF assms(1,2), of v]
  let ?c = "digit_char (unat v mod nat base)" and ?v' = "v div of_int base"
  have nb: "\<not> nat base < 2" "1 < nat base" using assms(1) by simp_all
  show ?case
  proof (cases "?v' = 0")
    case True
    then show ?thesis using step
      by (simp add: utoa_digits.simps [of m v] digits_rev.simps [of "nat base" "unat v"] wr_single)
  next
    case False
    have ds: "digits_rev (nat base) (unat v) =
        (unat v mod nat base) # digits_rev (nat base) (unat ?v')"
      using False step nb(1) by (simp add: digits_rev.simps [of "nat base" "unat v"])
    have "unat ?v' < unat v"
    proof -
      have "0 < unat v" using False step(3) nb by (metis not_less_zero neq0_conv less_trans zero_less_one)
      then show ?thesis using nb by (simp add: step(2) div_less_dividend)
    qed
    from less.hyps [OF this, of "m(p := ?c)" "p + 1"] less.prems ds False
    show ?thesis
      by (simp add: utoa_digits.simps [of m v] step(1) Let_def wr_Cons add.assoc)
  qed
qed

theorem utoa_correct:
  assumes "2 \<le> base" "base \<le> 36" "unat r + 64 \<le> 2 ^ 64"
  shows "utoa m v r base = Some (wr m r (itoa_string (int (unat v)) (nat base) @ [0]))"
proof -
  define ds where "ds = map digit_char (digits_rev (nat base) (unat v))"
  have "unat v < (2::nat) ^ 64" using unsigned_less [of v, where 'a = nat] by simp
  also have "\<dots> \<le> nat base ^ 64" using assms by (intro power_mono) auto
  finally have len: "length ds \<le> 64"
    using assms length_digits_rev [of "nat base" "unat v" 64] by (simp add: ds_def)
  define n where "n = length ds"
  have n: "0 < n" "n \<le> 64" "unat r + n \<le> 2 ^ 64" using len assms(3) by (auto simp: n_def ds_def)
  let ?m = "wr m r (ds @ [0])"
  have "utoa m v r base = Some (itoa_swap ?m r (r + of_nat n - 1))"
    using assms(1,2) utoa_digits_correct [OF assms(1,2), of v m r] len
    by (simp add: utoa_def n_def ds_def wr_append wr_single)
  also have "itoa_swap ?m r (r + of_nat n - 1) = wr ?m r (rev (rd ?m r n))"
    using n by (intro itoa_swap_wr) auto
  also have "rd ?m r n = ds"
  proof -
    have "rd ?m r (n + 1) = ds @ [0]" using rd_wr_same [of "ds @ [0]" m r] n by (simp add: n_def)
    then show ?thesis unfolding rd_append by (simp add: n_def)
  qed
  also have "wr ?m r (rev ds) = wr m r (rev ds @ [0])"
    using wr_overwrite [of "rev ds" ds m r "[0]"] by simp
  finally show ?thesis by (simp add: itoa_string_def ds_def)
qed

subsection \<open>\<open>atoi\<close>\<close>

lemma digit_char_decimal: "d < 10 \<Longrightarrow> digit_char d = 48 + of_nat d"
proof -
  have "\<forall>d \<in> set [0..<10]. digit_char d = 48 + of_nat d"
    by (simp add: digit_table_bytes digit_char_def upt_rec)
  then show "d < 10 \<Longrightarrow> digit_char d = 48 + of_nat d" by simp
qed

lemma atoi_loop_digits:
  assumes "is_cstr m p (map digit_char ds)" "\<forall>d \<in> set ds. d < 10"
  shows "atoi_loop m p num = Some (foldl (\<lambda>n d. n * 10 + of_nat d) num ds)"
  using assms
proof (induction ds arbitrary: p num)
  case Nil
  then show ?case by (simp add: atoi_loop.simps [of m p])
next
  case (Cons d ds)
  have d: "d < 10" using Cons.prems by simp
  have u: "unat (digit_char d) = 48 + d" using d by (simp add: digit_char_decimal unat_word_ariths unat_of_nat)
  have range: "\<not> (digit_char d < 48 \<or> digit_char d > 57)" using u d by (simp add: word_less_nat_alt)
  have "(ucast (digit_char d) :: u64) = of_nat (unat (digit_char d))" by simp
  then have "(ucast (digit_char d) :: u64) - 48 = of_nat d" using u by simp
  then show ?case using Cons range
    by (simp add: atoi_loop.simps [of m p num] is_cstr_Cons Let_def)
qed

lemma foldl_digits:
  "2 \<le> b \<Longrightarrow> foldl (\<lambda>n d. n * of_nat b + of_nat d) (0 :: u64) (rev (digits_rev b n)) = of_nat n"
proof (induction b n rule: digits_rev.induct)
  case (1 b n)
  show ?case
  proof (cases "n < b")
    case True
    then show ?thesis by (simp add: digits_rev.simps [of b n])
  next
    case False
    then show ?thesis using 1
      by (simp add: digits_rev.simps [of b n] flip: of_nat_mult of_nat_add)
  qed
qed

lemma length_itoa_string:
  assumes "2 \<le> b" "nat \<bar>v\<bar> < b ^ k" "0 < k"
  shows "length (itoa_string v b) \<le> Suc k"
  using length_digits_rev [OF assms(1,2,3)] by (cases "v < 0") (auto simp: itoa_string_def)

lemma length_digits_rev_ge: "2 \<le> b \<Longrightarrow> b ^ k \<le> n \<Longrightarrow> k < length (digits_rev b n)"
proof (induction k arbitrary: n)
  case 0
  then show ?case by simp
next
  case (Suc k)
  have "1 \<le> b ^ k" using Suc.prems by simp
  then have "b * 1 \<le> b * b ^ k" using mult_le_mono2 by blast
  then have big: "b \<le> n" using Suc.prems(2) by (simp only: power_Suc mult_1_right)
  have "b ^ k \<le> n div b" using Suc.prems by (simp add: less_eq_div_iff_mult_less_eq mult.commute)
  then have "k < length (digits_rev b (n div b))" using Suc by blast
  then show ?case using big Suc.prems by (simp add: digits_rev.simps [of b n])
qed

lemma itoa_string_no_nul: "2 \<le> b \<Longrightarrow> b \<le> 36 \<Longrightarrow> 0 \<notin> set (itoa_string v b)"
proof
  assume b: "2 \<le> b" "b \<le> 36" and z: "0 \<in> set (itoa_string v b)"
  then obtain d where "d \<in> set (digits_rev b (nat \<bar>v\<bar>))" "digit_char d = 0"
    by (auto simp: itoa_string_def split: if_splits)
  then show False using digits_rev_bound [of b d] digit_char_nonzero [of d] b by force
qed

lemma itoa_cstr:
  assumes "2 \<le> base" "base \<le> 36" "- (2 ^ 63) \<le> v" "v < 2 ^ 63" "unat r + 65 \<le> 2 ^ 64"
  obtains m' where "itoa m v r base = Some m'" "is_cstr m' r (itoa_string v (nat base))"
proof
  have "nat \<bar>v\<bar> < (2::nat) ^ 64" using assms by auto
  also have "\<dots> \<le> nat base ^ 64" using assms by (intro power_mono) auto
  finally have "length (itoa_string v (nat base)) < 2 ^ 64"
    using assms length_itoa_string [of "nat base" v 64] nat_mono [OF assms(1)] by simp
  then show "is_cstr (wr m r (itoa_string v (nat base) @ [0])) r (itoa_string v (nat base))"
    using assms itoa_string_no_nul [of "nat base" v] by (intro is_cstr_wr) auto
qed (rule itoa_correct [OF assms])

subsection \<open>Properties\<close>

text \<open>
  C37: \<open>atoi\<close> reads back exactly the number \<open>itoa\<close> printed in base 10 into any buffer
  of the address space, for every \<open>i64\<close> whose negation is representable.
\<close>

theorem itoa_atoi_roundtrip:
  assumes "- (2 ^ 63) < v" "v < 2 ^ 63" "unat r + 65 \<le> 2 ^ 64"
  shows "\<exists>m'. itoa m v r 10 = Some m' \<and> atoi m' r = Some (of_int v)"
proof -
  obtain m' where m': "itoa m v r 10 = Some m'" "is_cstr m' r (itoa_string v 10)"
    using itoa_cstr [of 10 v r m] assms by auto
  define ds where "ds = rev (digits_rev 10 (nat \<bar>v\<bar>))"
  have small: "\<forall>d \<in> set ds. d < 10" using digits_rev_bound [of 10] by (auto simp: ds_def)
  have val: "foldl (\<lambda>n d. n * 10 + of_nat d) (0 :: u64) ds = of_nat (nat \<bar>v\<bar>)"
    using foldl_digits [of 10 "nat \<bar>v\<bar>"] by (simp add: ds_def)
  have digits: "atoi_loop m' p 0 = Some (of_nat (nat \<bar>v\<bar>))" if "is_cstr m' p (map digit_char ds)" for p
    using atoi_loop_digits [OF that small] val by simp
  have "atoi m' r = Some (of_int v)"
  proof (cases "v < 0")
    case True
    then have "m' r = 45" "is_cstr m' (r + 1) (map digit_char ds)"
      using m'(2) by (auto simp: itoa_string_def is_cstr_Cons ds_def rev_map)
    then show ?thesis using True digits by (simp add: atoi_def)
  next
    case False
    then have str: "is_cstr m' r (map digit_char ds)" using m'(2) by (simp add: itoa_string_def ds_def rev_map)
    obtain d ds' where "ds = d # ds'" by (cases ds) (auto simp: ds_def)
    then have "m' r \<noteq> 45" using str small digit_char_nonzero [of d] by (auto simp: is_cstr_Cons)
    then show ?thesis using False digits [OF str] by (simp add: atoi_def)
  qed
  with m' show ?thesis by blast
qed

theorem itoa_atoi_roundtrip_witness:
  "\<exists>m'. itoa (\<lambda>_. 0) (- 1234) 4096 10 = Some m' \<and> atoi m' 4096 = Some (- 1234)"
  using itoa_atoi_roundtrip [of "- 1234" 4096 "\<lambda>_. 0"] by simp

text \<open>
  C38: The 32-byte stack buffer of \<open>printf\<close> and \<open>logE9\<close> is big enough for every
  \<open>%d\<close> and \<open>%x\<close> conversion: \<open>itoa\<close> in base 10 or 16 stores the digits, the sign and the
  terminator in at most 21 bytes at the buffer and touches nothing else.
\<close>

theorem itoa_fits_printf_buffer:
  assumes "base = 10 \<or> base = 16" "- (2 ^ 63) \<le> v" "v < 2 ^ 63" "unat r + 65 \<le> 2 ^ 64"
  shows "\<exists>bs. itoa m v r base = Some (wr m r (bs @ [0])) \<and> length (bs @ [0]) \<le> 21 \<and> 0 \<notin> set bs"
proof -
  have v: "nat \<bar>v\<bar> \<le> 2 ^ 63" using assms by auto
  have "nat \<bar>v\<bar> < nat base ^ 19"
    using assms(1) v by auto
  then have "length (itoa_string v (nat base)) \<le> 20"
    using assms(1) length_itoa_string [of "nat base" v 19] by auto
  then show ?thesis
    using itoa_correct [of base v r m] assms itoa_string_no_nul [of "nat base" v] by auto
qed

theorem itoa_fits_printf_buffer_witness:
  "\<exists>bs. itoa (\<lambda>_. 0) (- (2 ^ 63)) 4096 10 = Some (wr (\<lambda>_. 0) 4096 (bs @ [0]))
     \<and> length (bs @ [0]) \<le> 21 \<and> 0 \<notin> set bs"
  using itoa_fits_printf_buffer [of 10 "- (2 ^ 63)" 4096 "\<lambda>_. 0"] by simp

text \<open>
  The same buffer is too small for \<open>%b\<close>: from \<open>2 ^ 31\<close> on, \<open>itoa\<close> in base 2 stores more
  than 32 bytes, so \<open>printf\<close> and \<open>logE9\<close> run past \<open>char buf[32]\<close>.
\<close>

theorem itoa_binary_overruns_printf_buffer:
  assumes "2 ^ 31 \<le> v" "v < 2 ^ 63" "unat r + 65 \<le> 2 ^ 64"
  shows "\<exists>bs. itoa m v r 2 = Some (wr m r (bs @ [0])) \<and> 32 < length (bs @ [0])"
proof -
  have "(2::nat) ^ 31 \<le> nat \<bar>v\<bar>" using assms by auto
  then have "31 < length (itoa_string v 2)"
    using length_digits_rev_ge [of 2 31 "nat \<bar>v\<bar>"] by (simp add: itoa_string_def)
  then show ?thesis using itoa_correct [of 2 v r m] assms by auto
qed

theorem itoa_binary_overruns_printf_buffer_witness:
  "\<exists>bs. itoa (\<lambda>_. 0) (2 ^ 40) 4096 2 = Some (wr (\<lambda>_. 0) 4096 (bs @ [0])) \<and> 32 < length (bs @ [0])"
  using itoa_binary_overruns_printf_buffer [of "2 ^ 40" 4096 "\<lambda>_. 0"] by simp

text \<open>
  \<open>strcmp\<close> on two well-formed strings terminates; its result is zero exactly for equal
  strings, and negative exactly when the first is smaller in the byte-wise dictionary order.
\<close>

theorem strcmp_orders_strings:
  assumes "is_cstr m p xs" "is_cstr m q ys"
  shows "\<exists>r. strcmp m p q = Some r \<and> (r = 0 \<longleftrightarrow> xs = ys) \<and> (r < 0 \<longleftrightarrow> ord_class.lexordp xs ys)"
  using assms by (rule strcmp_cstr)

theorem strcmp_orders_strings_witness:
  "\<exists>r. strcmp (wr (wr (\<lambda>_. 0) 4096 [98, 97]) 8192 [98, 99]) 4096 8192 = Some r \<and> r < 0 \<and> r \<noteq> 0"
proof -
  let ?m = "wr (wr (\<lambda>_. 0) 4096 [98, 97]) 8192 [98, 99]"
  have "is_cstr ?m 4096 [98, 97]" "is_cstr ?m 8192 [98, 99]"
    by (simp_all add: is_cstr_Cons wr_def)
  from strcmp_orders_strings [OF this] show ?thesis by auto
qed

end
