(* ===== verification/PhysPages.thy ===== *)
theory PhysPages
  imports Prelude "HOL-Library.Signed_Division"
begin

section \<open>The physical page allocator: the bitmap of \<open>src/kernel/mm/paging.cpp\<close>\<close>

text \<open>
  The kernel tracks physical pages in a bitmap that lives in memory at
  \<open>FREE_PAGES_START\<close>, one bit per page, set when the page is in use.  The state is the
  physical memory, the bitmap's address and the number of pages; the low memory the kernel
  touches directly is identity mapped, so its virtual addresses are used as physical ones.
  A page is written \<open>p\<close> when it is a page number and \<open>paddr\<close> when it is an address.
  The locale \<open>page_allocator\<close> states what the paging code relies on; the bitmap
  interprets it.
\<close>

definition PAGESIZE :: u64 where "PAGESIZE = 0x1000"
definition FREE_PAGES_START :: u64 where "FREE_PAGES_START = 0x100000"
definition PML4_ADDR :: u64 where "PML4_ADDR = 0x1000"
definition PDPT0_ADDR :: u64 where "PDPT0_ADDR = 0x2000"
definition PD0_ADDR :: u64 where "PD0_ADDR = 0x3000"
definition PT0_ADDR :: u64 where "PT0_ADDR = 0x4000"
definition TMPMAP_PAGE_VADDR :: u64 where "TMPMAP_PAGE_VADDR = 0x7000"
definition USER_OFFSET :: u64 where "USER_OFFSET = 0x40000000"
definition USER_STACK :: u64 where "USER_STACK = 0xE0000000"

lemmas memmap_defs = PAGESIZE_def FREE_PAGES_START_def PML4_ADDR_def PDPT0_ADDR_def PD0_ADDR_def
  PT0_ADDR_def TMPMAP_PAGE_VADDR_def USER_OFFSET_def USER_STACK_def

record kmem =
  phys :: mem
  physPageBitmap :: u64
  maxPhysPages :: u32

subsection \<open>The bitmap operations\<close>

definition getMaxPhysPages :: "kmem \<Rightarrow> u32" where
  "getMaxPhysPages k = maxPhysPages k"

definition bitmap_byte :: "kmem \<Rightarrow> u64 \<Rightarrow> u8" where
  "bitmap_byte k i = phys k (physPageBitmap k + i)"

definition set_bitmap_byte :: "u64 \<Rightarrow> u8 \<Rightarrow> kmem \<Rightarrow> kmem" where
  "set_bitmap_byte i v k = k\<lparr>phys := (phys k)(physPageBitmap k + i := v)\<rparr>"

definition markPhysPageFree :: "u32 \<Rightarrow> kmem \<Rightarrow> kmem" where
  "markPhysPageFree page k =
     (if page \<ge> maxPhysPages k then k
      else set_bitmap_byte (ucast (page div 8))
             (bitmap_byte k (ucast (page div 8)) AND NOT (push_bit (unat (page mod 8)) 1)) k)"

definition markPhysPageFree_paddr :: "u64 \<Rightarrow> kmem \<Rightarrow> kmem" where
  "markPhysPageFree_paddr paddr k =
     (if paddr div PAGESIZE \<ge> ucast (maxPhysPages k) then k
      else set_bitmap_byte (paddr div PAGESIZE div 8)
             (bitmap_byte k (paddr div PAGESIZE div 8)
                AND NOT (push_bit (unat (paddr div PAGESIZE mod 8)) 1)) k)"

definition markPhysPageUsed :: "u32 \<Rightarrow> kmem \<Rightarrow> kmem" where
  "markPhysPageUsed page k =
     (if page \<ge> maxPhysPages k then k
      else set_bitmap_byte (ucast (page div 8))
             (bitmap_byte k (ucast (page div 8)) OR push_bit (unat (page mod 8)) 1) k)"

definition markPhysPageUsed_paddr :: "u64 \<Rightarrow> kmem \<Rightarrow> kmem" where
  "markPhysPageUsed_paddr paddr k =
     (if paddr div PAGESIZE \<ge> ucast (maxPhysPages k) then k
      else set_bitmap_byte (paddr div PAGESIZE div 8)
             (bitmap_byte k (paddr div PAGESIZE div 8)
                OR push_bit (unat (paddr div PAGESIZE mod 8)) 1) k)"

text \<open>The two loops of \<open>getFreePhysPage\<close>: over the bits of a byte, and over the bytes.\<close>

function scan_bits :: "u8 \<Rightarrow> nat \<Rightarrow> nat option" where
  "scan_bits b i =
     (if i < 8 then (if b AND push_bit i 1 = 0 then Some i else scan_bits b (Suc i)) else None)"
  by pat_completeness auto
termination by (relation "measure (\<lambda>(b, i). 8 - i)") auto

function scan_bytes :: "kmem \<Rightarrow> nat \<Rightarrow> nat option" where
  "scan_bytes k byte =
     (if byte < unat (maxPhysPages k) div 8
      then if bitmap_byte k (of_nat byte) = 0xFF then scan_bytes k (Suc byte)
           else case scan_bits (bitmap_byte k (of_nat byte)) 0 of
                  Some i \<Rightarrow> Some (8 * byte + i)
                | None \<Rightarrow> scan_bytes k (Suc byte)
      else None)"
  by pat_completeness auto
termination by (relation "measure (\<lambda>(k, byte). unat (maxPhysPages k) div 8 - byte)") auto

declare scan_bits.simps [simp del] scan_bytes.simps [simp del]

definition getFreePhysPage :: "kmem \<Rightarrow> u64" where
  "getFreePhysPage k =
     (case scan_bytes k 0 of Some page \<Rightarrow> of_nat page * PAGESIZE | None \<Rightarrow> 0)"

subsection \<open>What the bitmap says\<close>

definition page_used :: "kmem \<Rightarrow> nat \<Rightarrow> bool" where
  "page_used k p \<longleftrightarrow> bit (bitmap_byte k (of_nat (p div 8))) (p mod 8)"

text \<open>The bytes the bitmap occupies.\<close>

definition bitmap_size :: "kmem \<Rightarrow> nat" where
  "bitmap_size k = (unat (maxPhysPages k) + 7) div 8"

definition update_bit :: "u8 \<Rightarrow> nat \<Rightarrow> bool \<Rightarrow> u8" where
  "update_bit b i v = (if v then b OR push_bit i 1 else b AND NOT (push_bit i 1))"

definition set_page :: "nat \<Rightarrow> bool \<Rightarrow> kmem \<Rightarrow> kmem" where
  "set_page p v k = set_bitmap_byte (of_nat (p div 8))
     (update_bit (bitmap_byte k (of_nat (p div 8))) (p mod 8) v) k"

lemma bit_update_bit: "i < 8 \<Longrightarrow> bit (update_bit b i v) j = (if j = i then v else bit b j)"
  by (auto simp: update_bit_def bit_or_iff bit_and_iff bit_not_iff bit_exp_iff
      dest: bit_imp_le_length)

lemma set_bitmap_byte_simps [simp]:
  "physPageBitmap (set_bitmap_byte i v k) = physPageBitmap k"
  "maxPhysPages (set_bitmap_byte i v k) = maxPhysPages k"
  "bitmap_byte (set_bitmap_byte i v k) j = (if j = i then v else bitmap_byte k j)"
  by (simp_all add: set_bitmap_byte_def bitmap_byte_def)

lemma set_page_simps [simp]:
  "physPageBitmap (set_page p v k) = physPageBitmap k"
  "maxPhysPages (set_page p v k) = maxPhysPages k"
  by (simp_all add: set_page_def)

lemma page_used_set_page:
  assumes "p < 2 ^ 32" "q < 2 ^ 32"
  shows "page_used (set_page p v k) q = (if q = p then v else page_used k q)"
proof -
  have "(of_nat (q div 8) :: u64) = of_nat (p div 8) \<longleftrightarrow> q div 8 = p div 8"
    using assms by (auto simp: word_unat_eq_iff unat_of_nat)
  moreover have "q = p \<longleftrightarrow> q div 8 = p div 8 \<and> q mod 8 = p mod 8"
    by (metis div_mult_mod_eq)
  ultimately show ?thesis
    by (auto simp: page_used_def set_page_def bit_update_bit)
qed

lemma phys_set_page:
  assumes "p < unat (maxPhysPages k)" "apart (physPageBitmap k) (bitmap_size k) a n" "i < n"
  shows "phys (set_page p v k) (a + of_nat i) = phys k (a + of_nat i)"
proof -
  let ?b = "physPageBitmap k"
  have far: "bitmap_size k \<le> unat (a + of_nat i - ?b)" using apart_offset [OF assms(2,3)] .
  have p: "p div 8 < bitmap_size k" using assms(1) by (auto simp: bitmap_size_def)
  have "p < 2 ^ 64" using assms(1) unsigned_less [of "maxPhysPages k", where 'a = nat] by simp
  then have "unat (?b + of_nat (p div 8) - ?b) = p div 8" by (simp add: unat_of_nat)
  with far p have "a + of_nat i \<noteq> ?b + of_nat (p div 8)" by auto
  then show ?thesis by (simp add: set_page_def set_bitmap_byte_def)
qed

lemma page_index:
  "(ucast (page div 8 :: u32) :: u64) = of_nat (unat page div 8)" "unat (page mod 8) = unat page mod 8"
  "(a div 8 :: u64) = of_nat (unat a div 8)" "unat (a mod 8) = unat a mod 8"
proof -
  have "(of_nat (unat (page div 8)) :: u64) = ucast (page div 8)" by simp
  then show "(ucast (page div 8 :: u32) :: u64) = of_nat (unat page div 8)" by (simp add: unat_div)
  have "(of_nat (unat (a div 8)) :: u64) = a div 8" by simp
  then show "(a div 8 :: u64) = of_nat (unat a div 8)" by (simp add: unat_div)
qed (simp_all add: unat_mod)

lemma mark_set_page:
  "markPhysPageUsed page k = (if page \<ge> maxPhysPages k then k else set_page (unat page) True k)"
  "markPhysPageFree page k = (if page \<ge> maxPhysPages k then k else set_page (unat page) False k)"
  by (simp_all add: markPhysPageUsed_def markPhysPageFree_def set_page_def update_bit_def page_index)

lemma mark_paddr_set_page:
  "markPhysPageUsed_paddr paddr k =
     (if unat paddr div 4096 \<ge> unat (maxPhysPages k) then k else set_page (unat paddr div 4096) True k)"
  "markPhysPageFree_paddr paddr k =
     (if unat paddr div 4096 \<ge> unat (maxPhysPages k) then k else set_page (unat paddr div 4096) False k)"
proof -
  have u: "unat (paddr div 0x1000) = unat paddr div 4096" by (simp add: unat_div)
  have m: "unat (ucast (maxPhysPages k) :: u64) = unat (maxPhysPages k)"
    using unsigned_less [of "maxPhysPages k", where 'a = nat]
    by (simp add: unsigned_ucast_eq take_bit_nat_eq_self_iff)
  show "markPhysPageUsed_paddr paddr k =
     (if unat paddr div 4096 \<ge> unat (maxPhysPages k) then k else set_page (unat paddr div 4096) True k)"
   "markPhysPageFree_paddr paddr k =
     (if unat paddr div 4096 \<ge> unat (maxPhysPages k) then k else set_page (unat paddr div 4096) False k)"
    by (simp_all add: markPhysPageUsed_paddr_def markPhysPageFree_paddr_def set_page_def
        update_bit_def PAGESIZE_def page_index u m word_le_nat_alt)
qed

subsection \<open>The search finds the first free page\<close>

lemma bit_test: "i < 8 \<Longrightarrow> (b :: u8) AND push_bit i 1 = 0 \<longleftrightarrow> \<not> bit b i"
  by (simp add: and_exp_eq_0_iff_not_bit)

lemma scan_bits_Some:
  "scan_bits b i = Some j \<Longrightarrow> i \<le> j \<and> j < 8 \<and> \<not> bit b j \<and> (\<forall>l. i \<le> l \<longrightarrow> l < j \<longrightarrow> bit b l)"
proof (induction b i rule: scan_bits.induct)
  case (1 b i)
  show ?case
  proof (cases "i < 8 \<and> bit b i")
    case True
    then have "scan_bits b (Suc i) = Some j"
      using "1.prems" bit_test [of i b] by (simp add: scan_bits.simps [of b i])
    with True "1.IH" bit_test [of i b]
    have "Suc i \<le> j \<and> j < 8 \<and> \<not> bit b j \<and> (\<forall>l. Suc i \<le> l \<longrightarrow> l < j \<longrightarrow> bit b l)"
      by blast
    with True show ?thesis by (metis Suc_leI Suc_le_lessD le_eq_less_or_eq)
  next
    case False
    then show ?thesis using "1.prems" bit_test [of i b]
      by (auto simp: scan_bits.simps [of b i] split: if_splits)
  qed
qed

lemma scan_bits_None: "scan_bits b i = None \<Longrightarrow> i \<le> l \<Longrightarrow> l < 8 \<Longrightarrow> bit b l"
proof (induction b i rule: scan_bits.induct)
  case (1 b i)
  then have "bit b i" "scan_bits b (Suc i) = None"
    using bit_test [of i b] by (auto simp: scan_bits.simps [of b i] split: if_splits)
  then show ?case using 1 bit_test [of i b] by (cases "i = l") auto
qed

lemma full_byte: "b = 0xFF \<Longrightarrow> i < 8 \<Longrightarrow> bit (b :: u8) i"
proof -
  have eq: "(0xFF :: u8) = mask 8" by (simp add: mask_eq_exp_minus_1)
  show "b = 0xFF \<Longrightarrow> i < 8 \<Longrightarrow> bit b i" by (simp only: eq) (simp add: bit_mask_iff)
qed

lemma scan_bytes_step:
  assumes "bitmap_byte k (of_nat n) = 0xFF \<or> scan_bits (bitmap_byte k (of_nat n)) 0 = None"
    and "8 * n \<le> q" "q < 8 * Suc n"
  shows "page_used k q"
proof -
  have "q div 8 = n" "q mod 8 < 8" using assms by auto
  then show ?thesis using assms(1) full_byte scan_bits_None [of _ 0 "q mod 8"]
    by (auto simp: page_used_def)
qed

lemma scan_bytes_Some:
  "scan_bytes k n = Some p \<Longrightarrow>
     8 * n \<le> p \<and> p < 8 * (unat (maxPhysPages k) div 8) \<and> \<not> page_used k p \<and>
     (\<forall>q. 8 * n \<le> q \<longrightarrow> q < p \<longrightarrow> page_used k q)"
proof (induction k n rule: scan_bytes.induct)
  case (1 k n)
  let ?b = "bitmap_byte k (of_nat n)"
  have lt: "n < unat (maxPhysPages k) div 8"
    using "1.prems" by (auto simp: scan_bytes.simps [of k n] split: if_splits)
  show ?case
  proof (cases "?b = 0xFF \<or> scan_bits ?b 0 = None")
    case True
    then have "scan_bytes k (Suc n) = Some p"
      using "1.prems" lt by (auto simp: scan_bytes.simps [of k n] split: if_splits)
    then have IH: "8 * Suc n \<le> p \<and> p < 8 * (unat (maxPhysPages k) div 8) \<and> \<not> page_used k p \<and>
       (\<forall>q. 8 * Suc n \<le> q \<longrightarrow> q < p \<longrightarrow> page_used k q)"
      using True "1.IH" lt by (cases "?b = 0xFF") auto
    moreover have "page_used k q" if "8 * n \<le> q" "q < p" for q
      using IH scan_bytes_step [OF True that(1)] that(2) by (cases "q < 8 * Suc n") auto
    ultimately show ?thesis by auto
  next
    case False
    then obtain i where i: "scan_bits ?b 0 = Some i" by auto
    then have p: "p = 8 * n + i"
      using "1.prems" lt False by (simp add: scan_bytes.simps [of k n])
    have spec: "i < 8" "\<not> bit ?b i" "\<And>l. l < i \<Longrightarrow> bit ?b l"
      using scan_bits_Some [OF i] by auto
    have "page_used k q" if nq: "8 * n \<le> q" "q < p" for q
    proof -
      obtain j where j: "q = 8 * n + j" using le_Suc_ex [OF nq(1)] by blast
      have "8 * n + j < 8 * n + i" using nq(2) unfolding j p .
      then have "j < i" by simp
      with j spec(1) have "q div 8 = n" "q mod 8 < i" by simp_all
      then show ?thesis using spec(3) by (simp add: page_used_def)
    qed
    moreover have "p div 8 = n \<and> p mod 8 = i" using p spec(1) by simp
    then have "\<not> page_used k p" using spec(2) by (simp add: page_used_def)
    moreover have "p < 8 * (unat (maxPhysPages k) div 8)" using p spec(1) lt by simp
    moreover have "8 * n \<le> p" using p by simp
    ultimately show ?thesis by blast
  qed
qed

lemma scan_bytes_None:
  "scan_bytes k n = None \<Longrightarrow> 8 * n \<le> q \<Longrightarrow> q < 8 * (unat (maxPhysPages k) div 8) \<Longrightarrow> page_used k q"
proof (induction k n rule: scan_bytes.induct)
  case (1 k n)
  let ?b = "bitmap_byte k (of_nat n)"
  have lt: "n < unat (maxPhysPages k) div 8" using "1.prems" by simp
  have full: "?b = 0xFF \<or> scan_bits ?b 0 = None" and rest: "scan_bytes k (Suc n) = None"
    using "1.prems"(1) lt by (auto simp: scan_bytes.simps [of k n] split: if_splits option.splits)
  show ?case
  proof (cases "q < 8 * Suc n")
    case True
    then show ?thesis using scan_bytes_step [OF full "1.prems"(2)] by simp
  next
    case False
    then show ?thesis using "1.IH" lt full rest "1.prems"(3) by (cases "?b = 0xFF") auto
  qed
qed

lemma getFreePhysPage_cases:
  obtains (page) p where "getFreePhysPage k = of_nat p * 0x1000" "unat (getFreePhysPage k) = p * 4096"
      "p < 8 * (unat (maxPhysPages k) div 8)" "\<not> page_used k p" "\<And>q. q < p \<Longrightarrow> page_used k q"
  | (full) "getFreePhysPage k = 0" "\<And>q. q < 8 * (unat (maxPhysPages k) div 8) \<Longrightarrow> page_used k q"
proof (cases "scan_bytes k 0")
  case None
  then show ?thesis using full scan_bytes_None [OF None] by (simp add: getFreePhysPage_def)
next
  case (Some p)
  have p: "p < 8 * (unat (maxPhysPages k) div 8)" using scan_bytes_Some [OF Some] by simp
  then have "p < 2 ^ 32" using unsigned_less [of "maxPhysPages k", where 'a = nat] by simp
  then have "unat (of_nat p * 0x1000 :: u64) = p * 4096" by (simp add: unat_word_ariths unat_of_nat)
  then show ?thesis using page [of p] scan_bytes_Some [OF Some] Some p
    by (simp add: getFreePhysPage_def PAGESIZE_def)
qed

lemma getFreePhysPage_lowest:
  assumes "\<And>q. q < p \<Longrightarrow> page_used k q" "\<not> page_used k p" "p < 8 * (unat (maxPhysPages k) div 8)"
  shows "getFreePhysPage k = of_nat p * 0x1000"
proof (cases k rule: getFreePhysPage_cases)
  case (page q)
  then have "q = p" using assms by (meson linorder_neqE_nat)
  then show ?thesis using page by simp
next
  case full
  then show ?thesis using assms(2,3) by blast
qed

subsection \<open>The contract of a page allocator\<close>

text \<open>
  What the paging code relies on: marking changes one page's state, and the search yields a
  free page whenever it yields one and fails only when all are taken.  Page 0 is never handed
  out: its address is the null pointer.
\<close>

locale page_allocator =
  fixes ok :: "'s \<Rightarrow> bool"
    and limit :: "'s \<Rightarrow> nat"
    and used :: "'s \<Rightarrow> nat \<Rightarrow> bool"
    and mark :: "nat \<Rightarrow> bool \<Rightarrow> 's \<Rightarrow> 's"
    and first_free :: "'s \<Rightarrow> nat option"
  assumes ok_mark: "ok s \<Longrightarrow> 0 < p \<Longrightarrow> p < limit s \<Longrightarrow> ok (mark p v s)"
    and limit_mark [simp]: "limit (mark p v s) = limit s"
    and used_mark: "p < limit s \<Longrightarrow> q < limit s \<Longrightarrow> used (mark p v s) q = (if q = p then v else used s q)"
    and first_free_Some: "ok s \<Longrightarrow> first_free s = Some p \<Longrightarrow> 0 < p \<and> p < limit s \<and> \<not> used s p"
    and first_free_None: "ok s \<Longrightarrow> first_free s = None \<Longrightarrow> q < limit s \<Longrightarrow> used s q"
begin

lemma acquire_ok: "ok s \<Longrightarrow> first_free s = Some p \<Longrightarrow> ok (mark p True s)"
  using first_free_Some [of s p] by (intro ok_mark) auto

lemma acquire_used:
  "ok s \<Longrightarrow> first_free s = Some p \<Longrightarrow> q < limit s \<Longrightarrow> used (mark p True s) q = (q = p \<or> used s q)"
  using first_free_Some [of s p] by (simp add: used_mark)

lemma two_pages_distinct:
  assumes "ok s" "first_free s = Some p" "first_free (mark p True s) = Some q"
  shows "p \<noteq> q" "\<not> used s q" "0 < q" "q < limit s"
  using assms first_free_Some [of s p] first_free_Some [of "mark p True s" q]
    acquire_ok [of s p] acquire_used [of s p q] by auto

lemma release_restores:
  assumes "ok s" "first_free s = Some p" "q < limit s"
  shows "used (mark p False (mark p True s)) q = used s q"
  using assms first_free_Some [of s p] by (auto simp: used_mark)

lemma release_two_restores:
  assumes "ok s" "first_free s = Some p" "first_free (mark p True s) = Some q" "r < limit s"
  shows "used (mark p False (mark q False (mark q True (mark p True s)))) r = used s r"
  using assms first_free_Some [of s p] two_pages_distinct [of s p q]
  by (auto simp: used_mark)

end

definition bitmap_limit :: "kmem \<Rightarrow> nat" where
  "bitmap_limit k = 8 * (unat (maxPhysPages k) div 8)"

definition bitmap_mark :: "nat \<Rightarrow> bool \<Rightarrow> kmem \<Rightarrow> kmem" where
  "bitmap_mark p v k =
     (if v then markPhysPageUsed_paddr (of_nat p * PAGESIZE) k
      else markPhysPageFree_paddr (of_nat p * PAGESIZE) k)"

definition bitmap_first_free :: "kmem \<Rightarrow> nat option" where
  "bitmap_first_free k =
     (if getFreePhysPage k = 0 then None else Some (unat (getFreePhysPage k) div 4096))"

lemma bitmap_limit_bounds:
  assumes "p < bitmap_limit k"
  shows "p < unat (maxPhysPages k)" "p < 2 ^ 32" "unat (of_nat p * 0x1000 :: u64) = p * 4096"
proof -
  show p: "p < unat (maxPhysPages k)" using assms by (simp add: bitmap_limit_def)
  then show "p < 2 ^ 32" using unsigned_less [of "maxPhysPages k", where 'a = nat] by simp
  then show "unat (of_nat p * 0x1000 :: u64) = p * 4096" by (simp add: unat_word_ariths unat_of_nat)
qed

lemma bitmap_mark_set_page: "p < bitmap_limit k \<Longrightarrow> bitmap_mark p v k = set_page p v k"
  using bitmap_limit_bounds [of p k]
  by (simp add: bitmap_mark_def mark_paddr_set_page PAGESIZE_def)

lemma bitmap_mark_limit: "bitmap_limit (bitmap_mark p v k) = bitmap_limit k"
  by (simp add: bitmap_limit_def bitmap_mark_def mark_paddr_set_page)

lemma bitmap_used_mark:
  "p < bitmap_limit k \<Longrightarrow> q < bitmap_limit k \<Longrightarrow>
     page_used (bitmap_mark p v k) q = (if q = p then v else page_used k q)"
  using bitmap_limit_bounds [of p k] bitmap_limit_bounds [of q k]
  by (simp add: bitmap_mark_set_page page_used_set_page)

lemma bitmap_first_free_Some:
  assumes "page_used k 0" "bitmap_first_free k = Some p"
  shows "0 < p \<and> p < bitmap_limit k \<and> \<not> page_used k p \<and> getFreePhysPage k = of_nat p * 0x1000"
  using assms
  by (cases k rule: getFreePhysPage_cases)
     (auto simp: bitmap_first_free_def bitmap_limit_def split: if_splits intro: gr0I)

lemma bitmap_first_free_None:
  assumes "page_used k 0" "bitmap_first_free k = None" "q < bitmap_limit k"
  shows "page_used k q"
proof (cases k rule: getFreePhysPage_cases)
  case (page p)
  then have "p = 0" using assms(2) by (auto simp: bitmap_first_free_def split: if_splits)
  with page assms(1) show ?thesis by simp
next
  case full
  then show ?thesis using assms(3) by (simp add: bitmap_limit_def)
qed

interpretation bm: page_allocator "\<lambda>k. page_used k 0" bitmap_limit page_used bitmap_mark bitmap_first_free
proof unfold_locales
  fix s :: kmem and p v assume "page_used s 0" "0 < p" "p < bitmap_limit s"
  then show "page_used (bitmap_mark p v s) 0" using bitmap_used_mark [of p s 0 v] by simp
qed (auto simp: bitmap_mark_limit bitmap_used_mark dest: bitmap_first_free_Some bitmap_first_free_None)

subsection \<open>Properties\<close>

text \<open>
  C29: Marking a physical page used or free changes exactly that page's bit, whatever the
  bitmap held, leaves every byte outside the bitmap alone, and is ignored for a page that
  does not exist.
\<close>

theorem mark_page_exact:
  assumes "q < 2 ^ 32" "apart (physPageBitmap k) (bitmap_size k) a n" "i < n"
  shows "page_used (markPhysPageUsed page k) q =
           (if page < maxPhysPages k \<and> q = unat page then True else page_used k q) \<and>
         page_used (markPhysPageFree page k) q =
           (if page < maxPhysPages k \<and> q = unat page then False else page_used k q) \<and>
         phys (markPhysPageUsed page k) (a + of_nat i) = phys k (a + of_nat i) \<and>
         phys (markPhysPageFree page k) (a + of_nat i) = phys k (a + of_nat i)"
  using assms unsigned_less [of page, where 'a = nat]
  by (auto simp: mark_set_page page_used_set_page phys_set_page word_le_nat_alt word_less_nat_alt)

theorem mark_page_exact_witness:
  "page_used (markPhysPageUsed 9 \<lparr>phys = \<lambda>_. 0, physPageBitmap = 0x100000, maxPhysPages = 16\<rparr>) 9"
  using mark_page_exact
    [of 9 "\<lparr>phys = \<lambda>_. 0, physPageBitmap = 0x100000, maxPhysPages = 16\<rparr>" "0x200000" 8 0 9]
  by (simp add: apart_def bitmap_size_def)

text \<open>
  C30: With page 0 reserved, \<open>getFreePhysPage\<close> returns the page-aligned address of the
  lowest free page, and returns the null pointer only when every page it can hand out is in use.
\<close>

theorem getFreePhysPage_first_fit:
  assumes "page_used k 0"
  shows "(\<exists>p. getFreePhysPage k = of_nat p * PAGESIZE \<and> getFreePhysPage k \<noteq> 0 \<and>
              p < unat (maxPhysPages k) \<and> \<not> page_used k p \<and> (\<forall>q<p. page_used k q)) \<or>
         (getFreePhysPage k = 0 \<and> (\<forall>q < 8 * (unat (maxPhysPages k) div 8). page_used k q))"
proof (cases k rule: getFreePhysPage_cases)
  case (page p)
  then have "p \<noteq> 0" using assms by (cases p) auto
  with page(2) have "getFreePhysPage k \<noteq> 0" by auto
  with page show ?thesis by (auto simp: PAGESIZE_def)
next
  case full
  then show ?thesis by blast
qed

theorem getFreePhysPage_first_fit_witness:
  "page_used (\<lparr>phys = (\<lambda>_. 0)(0x100000 := 0x1F), physPageBitmap = 0x100000, maxPhysPages = 16\<rparr>) 0 \<and>
   getFreePhysPage \<lparr>phys = (\<lambda>_. 0)(0x100000 := 0x1F), physPageBitmap = 0x100000, maxPhysPages = 16\<rparr> = 0x5000"
  (is "page_used ?k 0 \<and> ?a = _")
proof -
  have bits: "page_used ?k 0" "page_used ?k 1" "page_used ?k 2" "page_used ?k 3" "page_used ?k 4"
      "\<not> page_used ?k 5"
    by (simp_all add: page_used_def bitmap_byte_def bit_iff_odd_drop_bit)
  then obtain p where p: "?a = of_nat p * PAGESIZE" "\<not> page_used ?k p" "\<forall>q<p. page_used ?k q"
    using getFreePhysPage_first_fit [OF bits(1)] by force
  have "p = 5"
  proof (rule ccontr)
    assume "p \<noteq> 5"
    then consider "p < 5" | "5 < p" by linarith
    then show False
    proof cases
      case 1
      then have "p = 0 \<or> p = 1 \<or> p = 2 \<or> p = 3 \<or> p = 4" by auto
      with bits p(2) show False by auto
    qed (use p(3) bits(6) in auto)
  qed
  then show ?thesis using p bits(1) by (simp add: PAGESIZE_def)
qed

text \<open>
  Two allocations in a row, the way \<open>createPageDir\<close> makes them, yield two different
  pages that were both free, and releasing both gives every page back its old state.
\<close>

theorem two_allocations:
  assumes "page_used k 0"
    and "getFreePhysPage k = a" "a \<noteq> 0"
    and "markPhysPageUsed_paddr a k = k1"
    and "getFreePhysPage k1 = b" "b \<noteq> 0"
  shows "a \<noteq> b \<and> \<not> page_used k (unat a div 4096) \<and> \<not> page_used k (unat b div 4096) \<and>
    (\<forall>q < 8 * (unat (maxPhysPages k) div 8).
       page_used (markPhysPageFree_paddr a (markPhysPageFree_paddr b (markPhysPageUsed_paddr b k1))) q
         = page_used k q)"
proof -
  define p where "p = unat a div 4096"
  define q where "q = unat b div 4096"
  have p: "bitmap_first_free k = Some p"
    using assms by (simp add: bitmap_first_free_def p_def)
  have a: "of_nat p * PAGESIZE = a"
    using bitmap_first_free_Some [OF assms(1) p] assms(2) by (simp add: PAGESIZE_def)
  have k1: "bitmap_mark p True k = k1" using assms(4) by (simp add: bitmap_mark_def a)
  have q: "bitmap_first_free k1 = Some q"
    using assms by (simp add: bitmap_first_free_def q_def)
  have k1ok: "page_used k1 0" unfolding k1 [symmetric] by (rule bm.acquire_ok [OF assms(1) p])
  have b: "of_nat q * PAGESIZE = b"
    using bitmap_first_free_Some [OF k1ok q] assms(5) by (simp add: PAGESIZE_def)
  note d = bm.two_pages_distinct [OF assms(1) p, unfolded k1, OF q]
  have "\<not> page_used k p" using bm.first_free_Some [OF assms(1) p] by simp
  moreover have "markPhysPageFree_paddr a (markPhysPageFree_paddr b (markPhysPageUsed_paddr b k1)) =
      bitmap_mark p False (bitmap_mark q False (bitmap_mark q True k1))"
    by (simp add: bitmap_mark_def a b)
  moreover have "a \<noteq> b" using d(1) p_def q_def by auto
  ultimately show ?thesis
    using d(2) bm.release_two_restores [OF assms(1) p, unfolded k1, OF q]
    by (simp add: bitmap_limit_def flip: p_def q_def)
qed

theorem two_allocations_witness:
  "let k = \<lparr>phys = (\<lambda>_. 0)(0x100000 := 0x0F), physPageBitmap = 0x100000, maxPhysPages = 8\<rparr>;
       a = getFreePhysPage k; k1 = markPhysPageUsed_paddr a k; b = getFreePhysPage k1
   in a = 0x4000 \<and> b = 0x5000 \<and> a \<noteq> b \<and> \<not> page_used k (unat b div 4096)"
proof -
  let ?k = "\<lparr>phys = (\<lambda>_. 0)(0x100000 := 0x0F), physPageBitmap = 0x100000, maxPhysPages = 8\<rparr>"
  have ok: "page_used ?k 0" by (simp add: page_used_def bitmap_byte_def)
  have a: "getFreePhysPage ?k = 0x4000" by code_simp
  have b: "getFreePhysPage (markPhysPageUsed_paddr 0x4000 ?k) = 0x5000" by code_simp
  show ?thesis
    using two_allocations [OF ok a _ refl b] by (simp add: Let_def a b)
qed

end
