(* ===== verification/PageTables.thy ===== *)
theory PageTables
  imports PhysPages
begin

section \<open>Page tables: the rest of \<open>src/kernel/mm/paging.cpp\<close>\<close>

text \<open>
  The kernel reaches physical memory through one temporary page: \<open>tmpmap\<close> rewrites the
  page-table entry of virtual page \<open>0x7000\<close>, and the data moves through that page.  The
  model keeps this detail: a temporary access reads the frame out of the entry in physical
  memory, as the processor does.  Every walk below therefore changes that one entry, and the
  functions pass the state even where they only read.  The processor takes bits 12 to 51 of an
  entry as the frame.  \<open>None\<close> is \<open>fatalError\<close>.
\<close>

definition PAGE_ATTR_PRESENT :: u64 where "PAGE_ATTR_PRESENT = 1"
definition PAGE_ATTR_WRITE :: u64 where "PAGE_ATTR_WRITE = 2"
definition PAGE_ATTR_USER :: u64 where "PAGE_ATTR_USER = 4"

lemmas page_attr_defs = PAGE_ATTR_PRESENT_def PAGE_ATTR_WRITE_def PAGE_ATTR_USER_def

definition frame_of :: "u64 \<Rightarrow> u64" where
  "frame_of entry = entry AND 0x000FFFFFFFFFF000"

definition page_mask :: "u64 \<Rightarrow> u64" where
  "page_mask a = a AND NOT 0xFFF"

definition present :: "u64 \<Rightarrow> bool" where
  "present entry \<longleftrightarrow> entry AND PAGE_ATTR_PRESENT \<noteq> 0"

lemma bit_page_mask: "bit (page_mask a) n \<longleftrightarrow> bit a n \<and> 12 \<le> n"
proof -
  have "(0xFFF :: u64) = mask 12" by (simp add: mask_eq_exp_minus_1)
  then have "page_mask a = a AND NOT (mask 12)" by (simp only: page_mask_def)
  then show ?thesis
    by (simp only:) (auto simp: bit_and_iff bit_not_iff bit_mask_iff not_less dest: bit_imp_le_length)
qed

lemma present_bit: "present e \<longleftrightarrow> bit e 0"
  by (simp add: present_def PAGE_ATTR_PRESENT_def and_one_eq bit_0 mod_2_eq_odd)

subsection \<open>The temporary page\<close>

definition TMP_PTE :: u64 where "TMP_PTE = PT0_ADDR + TMPMAP_PAGE_VADDR div PAGESIZE * 8"

definition tmpmap :: "u64 \<Rightarrow> kmem \<Rightarrow> kmem option" where
  "tmpmap pdst k =
     (let page_pdst = pdst AND NOT 0x1FF
      in if pdst \<noteq> page_pdst then None
         else Some (k\<lparr>phys := wr64 (phys k) TMP_PTE (page_pdst OR 3)\<rparr>))"

definition tmp_frame :: "kmem \<Rightarrow> u64" where
  "tmp_frame k = frame_of (rd64 (phys k) TMP_PTE)"

lemma page_offset_take: "a - page_mask a = take_bit 12 a"
proof -
  have "page_mask a + take_bit 12 a = page_mask a OR take_bit 12 a"
    by (rule disjunctive_add) (auto simp: bit_page_mask bit_take_bit_iff)
  also have "\<dots> = a" by (rule bit_eqI) (auto simp: bit_or_iff bit_page_mask bit_take_bit_iff)
  finally show ?thesis by (metis add_diff_cancel_left')
qed

lemma page_offset: "unat (a - page_mask a) < 4096"
  using take_bit_nat_less_exp [of 12 "unat a"]
  by (simp add: page_offset_take unsigned_take_bit_eq)

function phyread :: "u64 \<Rightarrow> nat \<Rightarrow> kmem \<Rightarrow> (u8 list \<times> kmem) option" where
  "phyread psrc sz k =
     (if sz = 0 then Some ([], k)
      else let psrc_page = page_mask psrc in
        case tmpmap psrc_page k of None \<Rightarrow> None
        | Some k1 \<Rightarrow>
            let offset = unat (psrc - psrc_page);
                realsize = min sz (4096 - offset);
                bs = rd (phys k1) (tmp_frame k1 + of_nat offset) realsize
            in case phyread (psrc + of_nat realsize) (sz - realsize) k1 of None \<Rightarrow> None
               | Some (bs', k2) \<Rightarrow> Some (bs @ bs', k2))"
  by pat_completeness auto
termination
  by (relation "measure (\<lambda>(psrc, sz, k). sz)") (use page_offset in \<open>auto simp: min_def not_le\<close>)

function phywrite :: "u64 \<Rightarrow> u8 list \<Rightarrow> kmem \<Rightarrow> kmem option" where
  "phywrite pdst src k =
     (if src = [] then Some k
      else let pdst_page = page_mask pdst in
        case tmpmap pdst_page k of None \<Rightarrow> None
        | Some k1 \<Rightarrow>
            let offset = unat (pdst - pdst_page);
                realsize = min (length src) (4096 - offset)
            in phywrite (pdst + of_nat realsize) (drop realsize src)
                 (k1\<lparr>phys := wr (phys k1) (tmp_frame k1 + of_nat offset) (take realsize src)\<rparr>))"
  by pat_completeness auto
termination
  by (relation "measure (\<lambda>(pdst, src, k). length src)") (use page_offset in \<open>auto simp: min_def not_le\<close>)

function phyzero :: "u64 \<Rightarrow> nat \<Rightarrow> kmem \<Rightarrow> kmem option" where
  "phyzero pdst sz k =
     (if sz = 0 then Some k
      else let pdst_page = page_mask pdst in
        case tmpmap pdst_page k of None \<Rightarrow> None
        | Some k1 \<Rightarrow>
            let offset = unat (pdst - pdst_page);
                realsize = min sz (4096 - offset)
            in phyzero (pdst + of_nat realsize) (sz - realsize)
                 (k1\<lparr>phys := memzero (phys k1) (tmp_frame k1 + of_nat offset) realsize\<rparr>))"
  by pat_completeness auto
termination
  by (relation "measure (\<lambda>(pdst, sz, k). sz)") (use page_offset in \<open>auto simp: min_def not_le\<close>)

declare phyread.simps [simp del] phywrite.simps [simp del] phyzero.simps [simp del]

text \<open>The 8-byte accesses to page-table entries.\<close>

definition phyread64 :: "u64 \<Rightarrow> kmem \<Rightarrow> (u64 \<times> kmem) option" where
  "phyread64 psrc k = do { (bs, k') \<leftarrow> phyread psrc 8 k; Some (le_word bs, k') }"

definition phywrite64 :: "u64 \<Rightarrow> u64 \<Rightarrow> kmem \<Rightarrow> kmem option" where
  "phywrite64 pdst v k = phywrite pdst (le_bytes 8 v) k"

subsection \<open>Walking and editing the tables\<close>

text \<open>The byte offset of a virtual address's entry in a table whose index starts at bit \<open>sh\<close>.\<close>

definition entry_off :: "nat \<Rightarrow> u64 \<Rightarrow> u64" where
  "entry_off sh vaddr = (drop_bit sh vaddr AND 0x1FF) * 8"

definition mask_7FF :: "u64 \<Rightarrow> u64" where
  "mask_7FF e = e AND NOT 0x7FF"

definition getPAddr :: "u64 \<Rightarrow> kmem \<Rightarrow> (u64 \<times> kmem) option" where
  "getPAddr vaddr k = do {
     (e1, k1) \<leftarrow> phyread64 (PML4_ADDR + entry_off 39 vaddr) k;
     if \<not> present e1 then Some (0, k1) else do {
     (e2, k2) \<leftarrow> phyread64 (mask_7FF e1 + entry_off 30 vaddr) k1;
     if \<not> present e2 then Some (0, k2) else do {
     (e3, k3) \<leftarrow> phyread64 (mask_7FF e2 + entry_off 21 vaddr) k2;
     if \<not> present e3 then Some (0, k3) else do {
     (e4, k4) \<leftarrow> phyread64 (mask_7FF e3 + entry_off 12 vaddr) k3;
     if \<not> present e4 then Some (0, k4) else Some (mask_7FF e4, k4) }}}}"

definition getUnmappedVAddr_PT :: "u64 \<Rightarrow> u64 \<Rightarrow> nat \<Rightarrow> kmem \<Rightarrow> (u64 option \<times> kmem) option" where
  "getUnmappedVAddr_PT PDe base PTi k = do {
     (PTe, k1) \<leftarrow> phyread64 (page_mask PDe + of_nat PTi * 8) k;
     Some (if \<not> present PTe then Some (base + push_bit 12 (of_nat PTi)) else None, k1) }"

definition getUnmappedVAddr_PD :: "u64 \<Rightarrow> u64 \<Rightarrow> nat \<Rightarrow> kmem \<Rightarrow> (u64 option \<times> kmem) option" where
  "getUnmappedVAddr_PD PDPTe base PDi k = do {
     (PDe, k1) \<leftarrow> phyread64 (page_mask PDPTe + of_nat PDi * 8) k;
     (PDe, k2) \<leftarrow>
       (if \<not> present PDe then
          let paddr = getFreePhysPage k1 in
          if paddr = 0 then None else do {
            let paddr = page_mask paddr;
            let k2 = markPhysPageUsed (ucast (paddr div PAGESIZE)) k1;
            k3 \<leftarrow> phyzero paddr 4096 k2;
            let PDe = page_mask paddr OR 3;
            k4 \<leftarrow> phywrite64 (page_mask PDPTe + of_nat PDi * 8) PDe k3;
            Some (PDe, k4) }
        else Some (PDe, k1));
     for_find (getUnmappedVAddr_PT PDe (base + push_bit 21 (of_nat PDi)))
       [(if page_mask PDe = PT0_ADDR then unat (FREE_PAGES_START div PAGESIZE) else 0)..<512] k2 }"

definition getUnmappedVAddr_PDPT :: "u64 \<Rightarrow> u64 \<Rightarrow> nat \<Rightarrow> kmem \<Rightarrow> (u64 option \<times> kmem) option" where
  "getUnmappedVAddr_PDPT PML4e base PDPTi k = do {
     (PDPTe, k1) \<leftarrow> phyread64 (page_mask PML4e + of_nat PDPTi * 8) k;
     if \<not> present PDPTe then None
     else for_find (getUnmappedVAddr_PD PDPTe (base + push_bit 30 (of_nat PDPTi))) [0..<512] k1 }"

definition getUnmappedVAddr_PML4 :: "nat \<Rightarrow> kmem \<Rightarrow> (u64 option \<times> kmem) option" where
  "getUnmappedVAddr_PML4 PML4i k = do {
     (PML4e, k1) \<leftarrow> phyread64 (PML4_ADDR + of_nat PML4i * 8) k;
     if \<not> present PML4e then None
     else for_find (getUnmappedVAddr_PDPT PML4e (push_bit 39 (of_nat PML4i))) [0..<512] k1 }"

definition getUnmappedVAddr :: "kmem \<Rightarrow> (u64 \<times> kmem) option" where
  "getUnmappedVAddr k = do {
     (r, k1) \<leftarrow> for_find getUnmappedVAddr_PML4 [0..<512] k;
     Some (case r of Some vaddr \<Rightarrow> vaddr | None \<Rightarrow> 0, k1) }"

text \<open>
  \<open>mapPage\<close>, cut where the source builds a missing table: \<open>table_entry\<close> is the block of
  lines 144--160 for the page directory and 161--177 for the page table.
\<close>

definition table_entry :: "u64 \<Rightarrow> u64 \<Rightarrow> kmem \<Rightarrow> (u64 \<times> kmem) option" where
  "table_entry slot flags k = do {
     (entry, k1) \<leftarrow> phyread64 slot k;
     if \<not> present entry then
       let paddr = getFreePhysPage k1 in
       if paddr = 0 then None else do {
         let paddr = page_mask paddr;
         let k2 = markPhysPageUsed (ucast (paddr div PAGESIZE)) k1;
         k3 \<leftarrow> phyzero paddr 4096 k2;
         let entry = page_mask paddr OR (PAGE_ATTR_PRESENT OR PAGE_ATTR_WRITE OR flags);
         k4 \<leftarrow> phywrite64 slot entry k3;
         Some (entry, k4) }
     else Some (entry, k1) }"

definition mapPage_at :: "u64 \<Rightarrow> u64 \<Rightarrow> u32 \<Rightarrow> u64 \<Rightarrow> kmem \<Rightarrow> (u64 \<times> kmem) option" where
  "mapPage_at vaddr paddr flags PML4 k = do {
     let flags = ucast (flags AND 0xFFF);
     (PML4entry, k1) \<leftarrow> phyread64 (PML4 + entry_off 39 vaddr) k;
     if \<not> present PML4entry then None else do {
     (PDPTentry, k2) \<leftarrow> table_entry (page_mask PML4entry + entry_off 30 vaddr) flags k1;
     (PDentry, k3) \<leftarrow> table_entry (page_mask PDPTentry + entry_off 21 vaddr) flags k2;
     (PTentry, k4) \<leftarrow> phyread64 (page_mask PDentry + entry_off 12 vaddr) k3;
     if present PTentry then Some (0, k4) else do {
     let paddr = (if paddr = 0 then getFreePhysPage k4 else paddr);
     if paddr = 0 then Some (0, k4) else do {
     let paddr = page_mask paddr;
     k5 \<leftarrow> phywrite64 (page_mask PDentry + entry_off 12 vaddr)
             (paddr OR (PAGE_ATTR_PRESENT OR PAGE_ATTR_WRITE OR flags)) k4;
     Some (vaddr, markPhysPageUsed (ucast (paddr div PAGESIZE)) k5) }}}}"

definition mapPage :: "u64 \<Rightarrow> u64 \<Rightarrow> u32 \<Rightarrow> u64 \<Rightarrow> kmem \<Rightarrow> (u64 \<times> kmem) option" where
  "mapPage vaddr paddr flags PML4 k = do {
     (vaddr, k) \<leftarrow> (if vaddr = 0 then getUnmappedVAddr k else Some (vaddr, k));
     if vaddr = 0 then Some (0, k) else mapPage_at vaddr paddr flags PML4 k }"

definition unmapPage :: "u64 \<Rightarrow> kmem \<Rightarrow> kmem option" where
  "unmapPage vaddr k = do {
     (e1, k1) \<leftarrow> phyread64 (PML4_ADDR + entry_off 39 vaddr) k;
     if \<not> present e1 then Some k1 else do {
     (e2, k2) \<leftarrow> phyread64 (page_mask e1 + entry_off 30 vaddr) k1;
     if \<not> present e2 then Some k2 else do {
     (PDentry, k3) \<leftarrow> phyread64 (page_mask e2 + entry_off 21 vaddr) k2;
     if \<not> present PDentry then Some k3 else do {
     (e4, k4) \<leftarrow> phyread64 (page_mask PDentry + entry_off 12 vaddr) k3;
     if \<not> present e4 then Some k4
     else phyzero (page_mask PDentry + entry_off 12 vaddr) 8
            (markPhysPageFree_paddr (page_mask e4) k4) }}}}"

text \<open>
  \<open>createPageDir\<close> writes through the temporary page itself.  \<open>tmp_page_store\<close> is
  \<open>memzero((u8*)TMPMAP_PAGE_VADDR, PAGESIZE)\<close> followed by the store of the first entry.
\<close>

definition tmp_page_store :: "u64 \<Rightarrow> kmem \<Rightarrow> kmem" where
  "tmp_page_store v k =
     k\<lparr>phys := wr64 (memzero (phys k) (tmp_frame k) 4096) (tmp_frame k) v\<rparr>"

definition createPageDir :: "kmem \<Rightarrow> (u64 \<times> kmem) option" where
  "createPageDir k =
     (let PML4 = getFreePhysPage k in
      if PML4 = 0 then Some (0, k) else
      let k1 = markPhysPageUsed_paddr PML4 k; PDPT0 = getFreePhysPage k1 in
      if PDPT0 = 0 then Some (0, markPhysPageFree_paddr PML4 k1) else
      let k2 = markPhysPageUsed_paddr PDPT0 k1 in do {
        k3 \<leftarrow> tmpmap PML4 k2;
        let k4 = tmp_page_store (PDPT0 OR 7) k3;
        k5 \<leftarrow> tmpmap PDPT0 k4;
        Some (PML4, tmp_page_store (PD0_ADDR OR 7) k5) })"

definition destroyPageDir_PT :: "u64 \<Rightarrow> nat \<Rightarrow> kmem \<Rightarrow> kmem option" where
  "destroyPageDir_PT PDe PTi k = do {
     (PTe, k1) \<leftarrow> phyread64 (page_mask PDe + of_nat PTi * 8) k;
     Some (if present PTe then markPhysPageFree_paddr (page_mask PTe) k1 else k1) }"

definition destroyPageDir_PD :: "u64 \<Rightarrow> nat \<Rightarrow> kmem \<Rightarrow> kmem option" where
  "destroyPageDir_PD PDPTe PDi k = do {
     (PDe, k1) \<leftarrow> phyread64 (page_mask PDPTe + of_nat PDi * 8) k;
     if \<not> present PDe then Some k1 else do {
       k2 \<leftarrow> for_each (destroyPageDir_PT PDe) [0..<512] k1;
       Some (markPhysPageFree_paddr (page_mask PDe) k2) } }"

definition destroyPageDir_PDPT :: "u64 \<Rightarrow> nat \<Rightarrow> kmem \<Rightarrow> kmem option" where
  "destroyPageDir_PDPT PML4e PDPTi k = do {
     (PDPTe, k1) \<leftarrow> phyread64 (page_mask PML4e + of_nat PDPTi * 8) k;
     if \<not> present PDPTe then Some k1
     else if page_mask PDPTe = PD0_ADDR then Some k1 else do {
       k2 \<leftarrow> for_each (destroyPageDir_PD PDPTe) [0..<512] k1;
       Some (markPhysPageFree_paddr (page_mask PDPTe) k2) } }"

definition destroyPageDir_PML4 :: "u64 \<Rightarrow> nat \<Rightarrow> kmem \<Rightarrow> kmem option" where
  "destroyPageDir_PML4 pml4 PML4i k = do {
     (PML4e, k1) \<leftarrow> phyread64 (pml4 + of_nat PML4i * 8) k;
     if \<not> present PML4e then Some k1 else do {
       k2 \<leftarrow> for_each (destroyPageDir_PDPT PML4e) [0..<512] k1;
       Some (markPhysPageFree_paddr (page_mask PML4e) k2) } }"

definition destroyPageDir :: "u64 \<Rightarrow> kmem \<Rightarrow> kmem option" where
  "destroyPageDir pml4 k = do {
     k1 \<leftarrow> for_each (destroyPageDir_PML4 pml4) [0..<512] k;
     Some (markPhysPageFree_paddr pml4 k1) }"

subsection \<open>\<open>init\<close>\<close>

definition pages_of :: "int \<Rightarrow> u32" where
  "pages_of availableMem = of_int (availableMem sdiv 0x1000 + of_bool (availableMem smod 0x1000 \<noteq> 0))"

definition paging_init :: "int \<Rightarrow> mem \<Rightarrow> kmem option" where
  "paging_init availableMem m =
     (let k0 = \<lparr>phys = m, physPageBitmap = FREE_PAGES_START, maxPhysPages = pages_of availableMem\<rparr>;
          bitmapSize = maxPhysPages k0 div 8 + of_bool (maxPhysPages k0 mod 8 \<noteq> 0);
          bitmapPagesize = bitmapSize div 0x1000 + of_bool (bitmapSize mod 0x1000 \<noteq> 0);
          firstPage = unat (physPageBitmap k0 div PAGESIZE)
      in do {
        k1 \<leftarrow> for_each
               (\<lambda>i k. Some (k\<lparr>phys := wr64 (phys k)
                  (PT0_ADDR + (physPageBitmap k div PAGESIZE + of_nat i) * 8)
                  ((physPageBitmap k + ucast (of_nat i * 0x1000 :: u32)) OR 3)\<rparr>))
               [0..<unat bitmapPagesize] k0;
        let k2 = k1\<lparr>phys := memzero (phys k1) (physPageBitmap k1) (unat bitmapSize)\<rparr>;
        k3 \<leftarrow> for_each (\<lambda>i k. Some (markPhysPageUsed (ucast (physPageBitmap k div PAGESIZE + of_nat i)) k))
               [0..<unat bitmapPagesize] k2;
        for_each (\<lambda>i k. Some (markPhysPageUsed (of_nat i) k)) [0..<firstPage] k3 })"

subsection \<open>\<open>printStats\<close>: counting the mapped pages\<close>

text \<open>
  The walk stops (\<open>goto done\<close>) at the first absent table; the value is the counter that is
  printed.  A return value of the loops below is the jump.
\<close>

definition count_PT :: "u64 \<Rightarrow> nat \<Rightarrow> u64 \<times> kmem \<Rightarrow> (unit option \<times> u64 \<times> kmem) option" where
  "count_PT PDe PTi = (\<lambda>(n, k). do {
     (PTe, k1) \<leftarrow> phyread64 (page_mask PDe + of_nat PTi * 8) k;
     Some (None, if present PTe then n + 1 else n, k1) })"

definition count_PD :: "u64 \<Rightarrow> nat \<Rightarrow> u64 \<times> kmem \<Rightarrow> (unit option \<times> u64 \<times> kmem) option" where
  "count_PD PDPTe PDi = (\<lambda>(n, k). do {
     (PDe, k1) \<leftarrow> phyread64 (page_mask PDPTe + of_nat PDi * 8) k;
     if \<not> present PDe then Some (Some (), n, k1) else for_find (count_PT PDe) [0..<512] (n, k1) })"

definition count_PDPT :: "u64 \<Rightarrow> nat \<Rightarrow> u64 \<times> kmem \<Rightarrow> (unit option \<times> u64 \<times> kmem) option" where
  "count_PDPT PML4e PDPTi = (\<lambda>(n, k). do {
     (PDPTe, k1) \<leftarrow> phyread64 (page_mask PML4e + of_nat PDPTi * 8) k;
     if \<not> present PDPTe then Some (Some (), n, k1) else for_find (count_PD PDPTe) [0..<512] (n, k1) })"

definition count_PML4 :: "nat \<Rightarrow> u64 \<times> kmem \<Rightarrow> (unit option \<times> u64 \<times> kmem) option" where
  "count_PML4 PML4i = (\<lambda>(n, k). do {
     (PML4e, k1) \<leftarrow> phyread64 (PML4_ADDR + of_nat PML4i * 8) k;
     if \<not> present PML4e then Some (Some (), n, k1) else for_find (count_PDPT PML4e) [0..<512] (n, k1) })"

definition nMappedPages :: "kmem \<Rightarrow> (u64 \<times> kmem) option" where
  "nMappedPages k = map_option snd (for_find count_PML4 [0..<512] (0, k))"

end
