(* ===== verification/PageWalk.thy ===== *)
theory PageWalk
  imports PageTables
begin

section \<open>What the page-table operations achieve\<close>

text \<open>
  \<open>pt_lookup\<close> is the processor's walk: a pure function of the memory.  The lemmas first
  strip the temporary mapping off the physical accesses (each changes the one entry of virtual
  page \<open>0x7000\<close> and nothing else), then follow the tables.  \<open>owned\<close> pages are the ones
  in use outside the bitmap; \<open>keeps\<close> says that an operation leaves the owned pages alone except
  for the given bytes and never releases one.
\<close>

definition tmp_slot :: "u64 \<Rightarrow> bool" where
  "tmp_slot x \<longleftrightarrow> unat (x - TMP_PTE) < 8"

definition tmapped :: "u64 \<Rightarrow> kmem \<Rightarrow> kmem" where
  "tmapped a k = k\<lparr>phys := wr64 (phys k) TMP_PTE (page_mask a OR 3)\<rparr>"

lemma TMP_PTE_eq: "TMP_PTE = 0x4038"
  by (simp add: TMP_PTE_def memmap_defs)

lemma tmapped_simps [simp]:
  "physPageBitmap (tmapped a k) = physPageBitmap k" "maxPhysPages (tmapped a k) = maxPhysPages k"
  by (simp_all add: tmapped_def)

lemma tmapped_phys: "\<not> tmp_slot x \<Longrightarrow> phys (tmapped a k) x = phys k x"
  by (simp add: tmapped_def wr64_def wr_def tmp_slot_def)

lemma tmpmap_page: "tmpmap (page_mask a) k = Some (tmapped a k)"
proof -
  have m: "(0x1FF :: u64) = mask 9" by (simp add: mask_eq_exp_minus_1)
  have "page_mask a AND NOT 0x1FF = page_mask a"
    unfolding m by (rule bit_eqI) (auto simp: bit_and_iff bit_not_iff bit_mask_iff bit_page_mask)
  then show ?thesis by (simp only: tmpmap_def tmapped_def Let_def) simp
qed

lemma less_exp_bit:
  fixes a :: u64
  assumes "a < 2 ^ m" "bit a n"
  shows "n < m"
proof -
  have "unat a < 2 ^ m"
  proof (cases "m < 64")
    case True
    then have "(2 :: nat) ^ m < 2 ^ 64" by (intro power_strict_increasing) auto
    then have "unat (of_nat (2 ^ m) :: u64) = 2 ^ m" by (subst unat_of_nat) simp
    then show ?thesis using assms(1) by (simp add: word_less_nat_alt)
  next
    case False
    then have "(2 ^ 64 :: nat) \<le> 2 ^ m" by (intro power_increasing) auto
    then show ?thesis using unsigned_less [of a, where 'a = nat] by simp
  qed
  then have "take_bit m (unat a) = unat a" by (simp add: take_bit_nat_eq_self)
  moreover have "bit (unat a) n" using assms(2) by (simp add: bit_unsigned_iff)
  ultimately show ?thesis by (metis bit_take_bit_iff)
qed

lemma tmp_frame_tmapped:
  assumes "a < 2 ^ 52"
  shows "tmp_frame (tmapped a k) = page_mask a"
proof -
  have m: "(0x000FFFFFFFFFF000 :: u64) = push_bit 12 (mask 40)" "(3 :: u64) = mask 2"
    by (simp_all add: mask_eq_exp_minus_1)
  have b: "bit a n \<Longrightarrow> n - 12 < 40" for n using less_exp_bit [OF assms, of n] by linarith
  have "frame_of (page_mask a OR 3) = page_mask a"
    unfolding frame_of_def m
    by (rule bit_eqI)
       (use b in \<open>auto simp: bit_and_iff bit_or_iff bit_push_bit_iff bit_mask_iff bit_page_mask\<close>)
  then show ?thesis by (simp add: tmp_frame_def tmapped_def rd64_wr64_same)
qed

lemma aligned_room:
  assumes "a AND 7 = 0"
  shows "unat (a - page_mask a) + 8 \<le> 4096"
proof -
  have "(7 :: u64) = mask 3" by (simp add: mask_eq_exp_minus_1)
  then have "take_bit 3 a = 0" using assms by (simp add: take_bit_eq_mask)
  then have "take_bit 3 (unat a) = 0" by (metis unsigned_take_bit_eq unsigned_0)
  then have "unat a mod 8 = 0" by (simp add: take_bit_eq_mod)
  then have "unat a mod 4096 mod 8 = 0" by (simp add: mod_mod_cancel)
  then obtain q where q: "unat a mod 4096 = 8 * q" by (auto simp: mod_eq_0_iff_dvd)
  moreover have "unat a mod 4096 < 4096" by simp
  ultimately have "q < 512" by linarith
  then have "unat a mod 4096 + 8 \<le> 4096" unfolding q by linarith
  moreover have "unat (a - page_mask a) = unat a mod 4096"
    by (simp add: page_offset_take unsigned_take_bit_eq take_bit_eq_mod unat_mod)
  ultimately show ?thesis by simp
qed

lemma phyread64_tmapped:
  assumes "a AND 7 = 0" "a < 2 ^ 52"
  shows "phyread64 a k = Some (rd64 (phys (tmapped a k)) a, tmapped a k)"
proof -
  have r: "min 8 (4096 - unat (a - page_mask a)) = 8" using aligned_room [OF assms(1)] by simp
  show ?thesis
    using tmp_frame_tmapped [OF assms(2), of k]
    by (simp add: phyread64_def phyread.simps [of "a + 8" 0 "tmapped a k"] phyread.simps [of a 8 k] tmpmap_page Let_def r rd64_def)
qed

lemma phywrite64_tmapped:
  assumes "a AND 7 = 0" "a < 2 ^ 52"
  shows "phywrite64 a v k = Some ((tmapped a k)\<lparr>phys := wr64 (phys (tmapped a k)) a v\<rparr>)"
proof -
  have r: "min 8 (4096 - unat (a - page_mask a)) = 8" using aligned_room [OF assms(1)] by simp
  show ?thesis
    using tmp_frame_tmapped [OF assms(2), of k]
    by (simp add: phywrite64_def phywrite.simps [of a "le_bytes 8 v" k] phywrite.simps [of _ "[]"]
        tmpmap_page Let_def r wr64_def)
qed

subsection \<open>What an operation keeps\<close>

definition npages :: "kmem \<Rightarrow> nat" where
  "npages k = unat (maxPhysPages k)"

definition in_bitmap :: "kmem \<Rightarrow> u64 \<Rightarrow> bool" where
  "in_bitmap k x \<longleftrightarrow> unat (x - physPageBitmap k) < bitmap_size k"

definition paging_ok :: "kmem \<Rightarrow> bool" where
  "paging_ok k \<longleftrightarrow> 4 < npages k \<and> page_used k 0 \<and> page_used k 4 \<and>
     (\<forall>x. in_bitmap k x \<longrightarrow> \<not> tmp_slot x \<and>
          (unat x div 4096 < npages k \<longrightarrow> page_used k (unat x div 4096)))"

definition kept :: "kmem \<Rightarrow> u64 \<Rightarrow> bool" where
  "kept k x \<longleftrightarrow> \<not> tmp_slot x \<and> \<not> in_bitmap k x \<and>
     unat x div 4096 < npages k \<and> page_used k (unat x div 4096)"

definition bytes_at :: "u64 \<Rightarrow> nat \<Rightarrow> u64 set" where
  "bytes_at a n = {x. unat (x - a) < n}"

definition keeps :: "u64 set \<Rightarrow> nat set \<Rightarrow> kmem \<Rightarrow> kmem \<Rightarrow> bool" where
  "keeps W A k k' \<longleftrightarrow> physPageBitmap k' = physPageBitmap k \<and> maxPhysPages k' = maxPhysPages k \<and>
     (\<forall>p < npages k. page_used k' p \<longleftrightarrow> page_used k p \<or> p \<in> A) \<and>
     (\<forall>x. kept k x \<longrightarrow> x \<notin> W \<longrightarrow> phys k' x = phys k x)"

definition owned_slot :: "kmem \<Rightarrow> u64 \<Rightarrow> bool" where
  "owned_slot k s \<longleftrightarrow> s AND 7 = 0 \<and> (\<forall>i < 8. kept k (s + of_nat i))"

lemma keeps_params:
  assumes "keeps W A k k'"
  shows "npages k' = npages k" "in_bitmap k' x = in_bitmap k x"
  using assms by (simp_all add: keeps_def npages_def in_bitmap_def bitmap_size_def)

lemma keeps_used: "keeps W A k k' \<Longrightarrow> p < npages k \<Longrightarrow> page_used k' p = (page_used k p \<or> p \<in> A)"
  by (simp add: keeps_def)

lemma keeps_kept: "keeps W A k k' \<Longrightarrow> kept k x \<Longrightarrow> kept k' x"
  using keeps_params [of W A k k'] keeps_used [of W A k k'] by (simp add: kept_def)

lemma keeps_trans:
  assumes "keeps W A k k1" "keeps W' A' k1 k2"
  shows "keeps (W \<union> W') (A \<union> A') k k2"
  using assms keeps_kept [OF assms(1)] keeps_params(1) [OF assms(1)] by (auto simp: keeps_def)

lemma keeps_weaken:
  assumes "keeps W A k k'" "\<And>x. x \<in> W \<Longrightarrow> kept k x \<Longrightarrow> x \<in> W'"
  shows "keeps W' A k k'"
  using assms by (auto simp: keeps_def)

lemma paging_ok_keeps: "paging_ok k \<Longrightarrow> keeps W A k k' \<Longrightarrow> paging_ok k'"
  using keeps_params [of W A k k'] keeps_used [of W A k k'] by (auto simp: paging_ok_def)

lemma owned_slot_keeps: "owned_slot k s \<Longrightarrow> keeps W A k k' \<Longrightarrow> owned_slot k' s"
  using keeps_kept [of W A k k'] by (auto simp: owned_slot_def)

lemma rd64_keeps:
  assumes "keeps W A k k'" "owned_slot k s" "W \<inter> bytes_at s 8 = {}"
  shows "rd64 (phys k') s = rd64 (phys k) s"
proof -
  have "phys k (s + of_nat i) = phys k' (s + of_nat i)" if "i < 8" for i
  proof -
    have "kept k (s + of_nat i)" using assms(2) that by (simp add: owned_slot_def)
    moreover have "s + of_nat i \<notin> W"
      using assms(3) that by (auto simp: bytes_at_def disjoint_iff unat_of_nat)
    ultimately show ?thesis using assms(1) by (simp add: keeps_def)
  qed
  then show ?thesis by (simp add: rd64_def rd_cong [of 8 "phys k'" s "phys k"])
qed

lemma page_used_cong:
  assumes "maxPhysPages k' = maxPhysPages k" "physPageBitmap k' = physPageBitmap k"
    "\<And>x. in_bitmap k x \<Longrightarrow> phys k' x = phys k x" "p < npages k"
  shows "page_used k' p = page_used k p"
proof -
  have lt: "p div 8 < bitmap_size k" using assms(4) by (auto simp: bitmap_size_def npages_def)
  moreover have "p div 8 < 2 ^ 64"
    using assms(4) unsigned_less [of "maxPhysPages k", where 'a = nat] by (simp add: npages_def)
  ultimately have "in_bitmap k (physPageBitmap k + of_nat (p div 8))"
    by (simp add: in_bitmap_def unat_of_nat)
  then show ?thesis using assms by (simp add: page_used_def bitmap_byte_def)
qed

lemma keeps_write:
  assumes "\<And>x. x \<in> bytes_at a (length bs) \<Longrightarrow> \<not> in_bitmap k x"
  shows "keeps (bytes_at a (length bs)) {} k (k\<lparr>phys := wr (phys k) a bs\<rparr>)"
proof -
  have "page_used (k\<lparr>phys := wr (phys k) a bs\<rparr>) p = page_used k p" if "p < npages k" for p
    by (rule page_used_cong [OF _ _ _ that]) (use assms in \<open>auto simp: wr_def bytes_at_def\<close>)
  then show ?thesis by (auto simp: keeps_def bytes_at_def wr_def)
qed

lemma keeps_tmapped:
  assumes "paging_ok k"
  shows "keeps {} {} k (tmapped a k)"
proof -
  have "keeps (bytes_at TMP_PTE (length (le_bytes 8 (page_mask a OR 3)))) {} k (tmapped a k)"
    unfolding tmapped_def wr64_def
    by (rule keeps_write) (use assms in \<open>auto simp: paging_ok_def tmp_slot_def bytes_at_def\<close>)
  then show ?thesis
    by (rule keeps_weaken) (simp add: kept_def tmp_slot_def bytes_at_def)
qed

lemma phys_set_page_outside:
  assumes "p < npages k" "\<not> in_bitmap k x"
  shows "phys (set_page p v k) x = phys k x"
proof -
  have "p div 8 < bitmap_size k" using assms by (auto simp: bitmap_size_def npages_def)
  moreover have "p div 8 < 2 ^ 64"
    using assms(1) unsigned_less [of "maxPhysPages k", where 'a = nat] by (simp add: npages_def)
  ultimately have "in_bitmap k (physPageBitmap k + of_nat (p div 8))"
    by (simp add: in_bitmap_def unat_of_nat)
  then have "x \<noteq> physPageBitmap k + of_nat (p div 8)" using assms(2) by auto
  then show ?thesis by (simp add: set_page_def set_bitmap_byte_def)
qed

lemma keeps_set_page:
  assumes "p < npages k"
  shows "keeps {} {p} k (set_page p True k)"
proof -
  have lt: "q < 2 ^ 32" if "q < npages k" for q
    using that unsigned_less [of "maxPhysPages k", where 'a = nat] by (simp add: npages_def)
  have "phys (set_page p True k) x = phys k x" if "kept k x" for x
    using phys_set_page_outside [OF assms] that by (simp add: kept_def)
  then show ?thesis using assms lt by (auto simp: keeps_def page_used_set_page)
qed

subsection \<open>Physical accesses, without the temporary mapping\<close>

lemma npages_bound: "npages k < 2 ^ 32"
  using unsigned_less [of "maxPhysPages k", where 'a = nat] by (simp add: npages_def)

lemma kept_low: "kept k x \<Longrightarrow> x < 2 ^ 52"
  using npages_bound [of k] by (auto simp: kept_def word_less_nat_alt div_less_iff_less_mult)

lemma owned_slot_low: "owned_slot k s \<Longrightarrow> s AND 7 = 0 \<and> s < 2 ^ 52"
  using kept_low [of k s] by (force simp: owned_slot_def dest: spec [of _ 0])

lemma phyread64_owned:
  "owned_slot k s \<Longrightarrow> phyread64 s k = Some (rd64 (phys (tmapped s k)) s, tmapped s k)"
  using owned_slot_low by (simp add: phyread64_tmapped)

lemma rd64_tmapped: "paging_ok k \<Longrightarrow> owned_slot k s \<Longrightarrow> rd64 (phys (tmapped a k)) s = rd64 (phys k) s"
  by (rule rd64_keeps [OF keeps_tmapped]) auto

definition stored :: "u64 \<Rightarrow> u64 \<Rightarrow> kmem \<Rightarrow> kmem" where
  "stored s v k = (tmapped s k)\<lparr>phys := wr64 (phys (tmapped s k)) s v\<rparr>"

lemma phywrite64_owned: "owned_slot k s \<Longrightarrow> phywrite64 s v k = Some (stored s v k)"
  using owned_slot_low by (simp add: phywrite64_tmapped stored_def)

lemma bytes_atE:
  assumes "x \<in> bytes_at a n" "n \<le> 2 ^ 64"
  obtains i where "x = a + of_nat i" "i < n"
proof
  show "x = a + of_nat (unat (x - a))" by simp
  show "unat (x - a) < n" using assms(1) by (simp add: bytes_at_def)
qed

lemma keeps_stored:
  assumes "paging_ok k" "owned_slot k s"
  shows "keeps (bytes_at s 8) {} k (stored s v k)" "rd64 (phys (stored s v k)) s = v"
proof -
  have k1: "keeps {} {} k (tmapped s k)" using keeps_tmapped [OF assms(1)] .
  have "owned_slot (tmapped s k) s" using owned_slot_keeps [OF assms(2) k1] .
  then have "\<not> in_bitmap (tmapped s k) x" if "x \<in> bytes_at s (length (le_bytes 8 v))" for x
    using that by (auto simp: owned_slot_def kept_def elim!: bytes_atE)
  then have "keeps (bytes_at s (length (le_bytes 8 v))) {} (tmapped s k) (stored s v k)"
    unfolding stored_def wr64_def by (rule keeps_write)
  from keeps_trans [OF k1 this] show "keeps (bytes_at s 8) {} k (stored s v k)" by simp
  show "rd64 (phys (stored s v k)) s = v" by (simp add: stored_def rd64_wr64_same)
qed

text \<open>A page that has just been taken off the free list, and zeroed.\<close>

definition zeroed :: "u64 \<Rightarrow> kmem \<Rightarrow> kmem" where
  "zeroed a k = (tmapped a k)\<lparr>phys := wr (phys (tmapped a k)) a (replicate 4096 0)\<rparr>"

lemma page_mask_of_page: "page_mask (of_nat p * 0x1000) = of_nat p * 0x1000"
proof (rule bit_eqI)
  fix n
  have "(of_nat p * 0x1000 :: u64) = push_bit 12 (of_nat p)" by (simp add: push_bit_eq_mult mult.commute)
  then show "bit (page_mask (of_nat p * 0x1000)) n = bit (of_nat p * 0x1000 :: u64) n"
    by (auto simp: bit_page_mask bit_push_bit_iff)
qed

lemma page_mask_shift: "page_mask va = push_bit 12 (drop_bit 12 va)"
  by (rule bit_eqI) (auto simp: bit_page_mask bit_push_bit_iff bit_drop_bit_eq)

lemma page_mask_idem [simp]: "page_mask (page_mask va) = page_mask va"
  by (rule bit_eqI) (auto simp: bit_page_mask)

lemma unat_page_mask: "unat (page_mask va) = unat va div 4096 * 4096"
proof -
  have "page_mask va = (va div 4096) * 4096"
    by (simp add: page_mask_shift push_bit_eq_mult drop_bit_eq_div)
  then have "unat (page_mask va) = unat (va div 4096) * 4096 mod 2 ^ 64"
    by (simp add: unat_word_ariths)
  moreover have "unat va div 4096 * 4096 < 2 ^ 64"
    using unsigned_less [of va, where 'a = nat] by (simp add: le_less_trans [OF div_times_less_eq_dividend])
  ultimately show ?thesis by (simp add: unat_div)
qed

lemma page_mask_bounds:
  "unat (page_mask va) + 4096 \<le> 2 ^ 64" "USER_OFFSET \<le> va \<Longrightarrow> USER_OFFSET \<le> page_mask va"
proof -
  have "unat va < 2 ^ 64" using unsigned_less [of va, where 'a = nat] by simp
  then have "unat va div 4096 < 2 ^ 52" by (simp add: less_mult_imp_div_less)
  then show "unat (page_mask va) + 4096 \<le> 2 ^ 64" unfolding unat_page_mask by simp
  show "USER_OFFSET \<le> va \<Longrightarrow> USER_OFFSET \<le> page_mask va"
    unfolding word_le_nat_alt unat_page_mask by (simp add: USER_OFFSET_def)
qed

lemma page_addr:
  assumes "p < 2 ^ 32"
  shows "unat (of_nat p * 0x1000 :: u64) = p * 4096" "(of_nat p * 0x1000 :: u64) < 2 ^ 52"
proof -
  show u: "unat (of_nat p * 0x1000 :: u64) = p * 4096"
    using assms by (simp add: unat_word_ariths unat_of_nat)
  show "(of_nat p * 0x1000 :: u64) < 2 ^ 52" using assms by (simp add: word_less_nat_alt u)
qed

lemma phyzero_page:
  assumes "p < 2 ^ 32"
  shows "phyzero (of_nat p * 0x1000) 4096 k = Some (zeroed (of_nat p * 0x1000) k)"
  using tmp_frame_tmapped [OF page_addr(2) [OF assms], of k]
    tmpmap_page [of "of_nat p * 0x1000" k]
  by (simp add: phyzero.simps [of "of_nat p * 0x1000" 4096 k] phyzero.simps [of _ 0] Let_def
      page_mask_of_page zeroed_def memzero_wr)

lemma bytes_of_page:
  assumes "p < 2 ^ 32"
  shows "bytes_at (of_nat p * 0x1000) 4096 = {x. unat x div 4096 = p}"
proof -
  have "unat (x - of_nat p * 0x1000) < 4096 \<longleftrightarrow> unat x div 4096 = p" for x :: u64
  proof (cases "p * 4096 \<le> unat x")
    case True
    then have "unat (x - of_nat p * 0x1000) = unat x - p * 4096"
      using page_addr(1) [OF assms] by (simp add: unat_sub_if')
    then show ?thesis using True by (auto simp: minus_div_mult_eq_mod intro!: div_nat_eqI)
  next
    case False
    then have "unat (x - of_nat p * 0x1000) = 2 ^ 64 + unat x - p * 4096"
      using page_addr(1) [OF assms] by (simp add: unat_sub_if')
    moreover have "p * 4096 \<le> 2 ^ 32 * 4096" using assms by simp
    ultimately have "4096 \<le> unat (x - of_nat p * 0x1000)" by simp
    moreover have "unat x div 4096 < p" using False by (simp add: div_less_iff_less_mult)
    ultimately show ?thesis by simp
  qed
  then show ?thesis by (auto simp: bytes_at_def)
qed

lemma keeps_zeroed:
  assumes "paging_ok k" "p < npages k" "\<And>x. in_bitmap k x \<Longrightarrow> unat x div 4096 \<noteq> p"
  shows "keeps {x. unat x div 4096 = p} {} k (zeroed (of_nat p * 0x1000) k)"
    "unat x div 4096 = p \<Longrightarrow> phys (zeroed (of_nat p * 0x1000) k) x = 0"
proof -
  let ?a = "of_nat p * 0x1000 :: u64"
  have p: "p < 2 ^ 32" using assms(2) npages_bound [of k] by simp
  have b: "bytes_at ?a (length (replicate 4096 (0 :: u8))) = {x. unat x div 4096 = p}"
    using bytes_of_page [OF p] by simp
  have k1: "keeps {} {} k (tmapped ?a k)" using keeps_tmapped [OF assms(1)] .
  have "keeps {x. unat x div 4096 = p} {} (tmapped ?a k) (zeroed ?a k)"
    using keeps_write [of ?a "replicate 4096 0" "tmapped ?a k"] assms(3)
    unfolding b zeroed_def by (auto simp: keeps_params [OF k1])
  from keeps_trans [OF k1 this] show "keeps {x. unat x div 4096 = p} {} k (zeroed ?a k)" by simp
  show "phys (zeroed ?a k) x = 0" if "unat x div 4096 = p"
  proof -
    have "x \<in> bytes_at ?a 4096" using that bytes_of_page [OF p] by simp
    then show ?thesis by (auto simp: zeroed_def wr_def bytes_at_def)
  qed
qed

subsection \<open>Taking a page\<close>

lemma take_bit_page_div: "page_mask a div 0x1000 = of_nat (unat a div 4096)"
proof -
  have "page_mask a div 0x1000 = drop_bit 12 (page_mask a)" by (simp add: drop_bit_eq_div)
  also have "\<dots> = drop_bit 12 a"
    by (rule bit_eqI) (auto simp: bit_drop_bit_eq bit_page_mask)
  also have "\<dots> = of_nat (unat (drop_bit 12 a))" by simp
  also have "unat (drop_bit 12 a) = unat a div 4096" by (simp add: drop_bit_eq_div unat_div)
  finally show ?thesis .
qed

lemma mark_page_of:
  assumes "unat a div 4096 < 2 ^ 32"
  shows "markPhysPageUsed (ucast (page_mask a div PAGESIZE)) k =
    (if unat a div 4096 < npages k then set_page (unat a div 4096) True k else k)"
proof -
  have t: "take_bit 64 (unat a div 4096) = unat a div 4096"
    by (rule take_bit_nat_eq_self) (use assms in simp)
  have "(ucast (page_mask a div PAGESIZE) :: u32) = of_nat (unat a div 4096)"
    by (simp only: PAGESIZE_def take_bit_page_div)
      (simp add: unsigned_of_nat unsigned_ucast_eq t)
  moreover have "unat (of_nat (unat a div 4096) :: u32) = unat a div 4096"
    using assms by (simp add: unat_of_nat)
  ultimately show ?thesis by (auto simp: mark_set_page npages_def word_le_nat_alt)
qed

lemma keeps_mark_page_of:
  assumes "unat a div 4096 < 2 ^ 32"
  shows "keeps {} {unat a div 4096} k (markPhysPageUsed (ucast (page_mask a div PAGESIZE)) k)"
  using keeps_set_page [of "unat a div 4096" k] mark_page_of [OF assms, of k]
  by (auto simp: keeps_def)

definition free_page :: "kmem \<Rightarrow> nat \<Rightarrow> bool" where
  "free_page k p \<longleftrightarrow> 0 < p \<and> p < npages k \<and> \<not> page_used k p"

lemma getFreePhysPage_free:
  assumes "paging_ok k" "getFreePhysPage k = a" "a \<noteq> 0"
  obtains p where "a = of_nat p * 0x1000" "free_page k p" "unat a = p * 4096"
proof -
  have "bitmap_first_free k = Some (unat a div 4096)" using assms by (simp add: bitmap_first_free_def)
  then have *: "0 < unat a div 4096" "unat a div 4096 < bitmap_limit k" "\<not> page_used k (unat a div 4096)"
      "a = of_nat (unat a div 4096) * 0x1000"
    using bitmap_first_free_Some [of k "unat a div 4096"] assms by (auto simp: paging_ok_def)
  have lim: "unat a div 4096 < npages k" using * (2) by (simp add: bitmap_limit_def npages_def)
  then have "unat a div 4096 < 2 ^ 32" using npages_bound [of k] by simp
  from page_addr(1) [OF this] * (4) have "unat a = unat a div 4096 * 4096" by metis
  then show ?thesis using that * lim by (auto simp: free_page_def)
qed

lemma free_page_kept:
  assumes "paging_ok k" "free_page k p" "unat x div 4096 = p"
  shows "\<not> in_bitmap k x" "\<not> tmp_slot x"
proof -
  show "\<not> in_bitmap k x" using assms by (auto simp: paging_ok_def free_page_def)
  have "p \<noteq> 4" using assms by (auto simp: paging_ok_def free_page_def)
  then show "\<not> tmp_slot x"
    using assms(3) by (auto simp: tmp_slot_def TMP_PTE_eq unat_sub_if' split: if_splits)
qed

lemma fresh_kept:
  assumes "paging_ok k" "free_page k p" "unat x div 4096 = p" "keeps W A k k'" "p \<in> A"
  shows "kept k' x"
  using free_page_kept [OF assms(1-3)] assms keeps_params [OF assms(4)] keeps_used [OF assms(4), of p]
  by (simp add: kept_def free_page_def)

lemma take_page:
  assumes "paging_ok k" "free_page k p"
  shows "\<exists>k'. phyzero (of_nat p * 0x1000) 4096
                 (markPhysPageUsed (ucast ((of_nat p * 0x1000 :: u64) div PAGESIZE)) k) = Some k' \<and>
               keeps {} {p} k k' \<and> (\<forall>x. unat x div 4096 = p \<longrightarrow> phys k' x = 0)"
proof -
  let ?a = "of_nat p * 0x1000 :: u64" and ?k1 = "set_page p True k"
  have pn: "p < npages k" using assms(2) by (simp add: free_page_def)
  then have p: "p < 2 ^ 32" using npages_bound [of k] by simp
  have k1: "keeps {} {p} k ?k1" using keeps_set_page [OF pn] .
  have ok1: "paging_ok ?k1" using paging_ok_keeps [OF assms(1) k1] .
  have nb: "unat x div 4096 \<noteq> p" if "in_bitmap ?k1 x" for x
    using free_page_kept(1) [OF assms] that keeps_params(2) [OF k1] by auto
  have pn1: "p < npages ?k1" using pn keeps_params(1) [OF k1] by simp
  have "unat ?a div 4096 = p" using page_addr(1) [OF p] by simp
  then have "markPhysPageUsed (ucast (?a div PAGESIZE)) k = ?k1"
    using mark_page_of [of ?a k] p pn by (simp add: page_mask_of_page)
  then have "phyzero ?a 4096 (markPhysPageUsed (ucast (?a div PAGESIZE)) k) = Some (zeroed ?a ?k1)"
    using phyzero_page [OF p] by simp
  moreover have "keeps {} {p} k (zeroed ?a ?k1)"
    using keeps_trans [OF k1 keeps_zeroed(1) [OF ok1 pn1 nb]] assms(2)
    by (auto simp: kept_def free_page_def elim!: keeps_weaken)
  ultimately show ?thesis using keeps_zeroed(2) [OF ok1 pn1 nb] by blast
qed

subsection \<open>The processor's walk\<close>

fun pt_walk :: "nat list \<Rightarrow> mem \<Rightarrow> u64 \<Rightarrow> u64 \<Rightarrow> u64 option" where
  "pt_walk [] m t va = None"
| "pt_walk [sh] m t va =
     (let e = rd64 m (t + entry_off sh va) in if present e then Some e else None)"
| "pt_walk (sh # shs) m t va =
     (let e = rd64 m (t + entry_off sh va) in if present e then pt_walk shs m (frame_of e) va else None)"

definition pt_lookup :: "mem \<Rightarrow> u64 \<Rightarrow> u64 \<Rightarrow> u64 option" where
  "pt_lookup m pml4 va = pt_walk [39, 30, 21, 12] m pml4 va"

text \<open>Every entry the walk reads is one the kernel owns.\<close>

fun walk_owned :: "nat list \<Rightarrow> kmem \<Rightarrow> u64 \<Rightarrow> u64 \<Rightarrow> bool" where
  "walk_owned [] k t va = True"
| "walk_owned (sh # shs) k t va =
     (let s = t + entry_off sh va; e = rd64 (phys k) s
      in owned_slot k s \<and> (present e \<longrightarrow> walk_owned shs k (page_mask e) va))"

definition owned_walk :: "kmem \<Rightarrow> u64 \<Rightarrow> u64 \<Rightarrow> bool" where
  "owned_walk k pml4 va = walk_owned [39, 30, 21, 12] k pml4 va"

lemma entry_off_lt: "entry_off sh va < 0x1000" "entry_off sh va AND 7 = 0"
proof -
  let ?i = "drop_bit sh va AND 0x1FF"
  have "(0x1FF :: u64) = mask 9" by (simp add: mask_eq_exp_minus_1)
  then have i: "?i = take_bit 9 (drop_bit sh va)" by (simp add: take_bit_eq_mask)
  have "unat ?i < 2 ^ 9" unfolding i by (simp only: unsigned_take_bit_eq take_bit_nat_less_exp)
  then have u: "unat (?i * 8) = unat ?i * 8" by (simp add: unat_word_ariths)
  with \<open>unat ?i < 2 ^ 9\<close> show "entry_off sh va < 0x1000"
    by (simp add: entry_off_def word_less_nat_alt)
  have "(7 :: u64) = mask 3" by (simp add: mask_eq_exp_minus_1)
  then have "?i * 8 AND 7 = take_bit 3 (push_bit 3 ?i)"
    by (simp only: take_bit_eq_mask push_bit_eq_mult) simp
  also have "\<dots> = 0" by (rule bit_eqI) (auto simp: bit_take_bit_iff bit_push_bit_iff)
  finally show "entry_off sh va AND 7 = 0" by (simp add: entry_off_def)
qed

lemma frame_of_owned:
  assumes "page_mask e + entry_off sh va < 2 ^ 52"
  shows "frame_of e = page_mask e"
proof -
  let ?o = "entry_off sh va"
  have o: "bit ?o n \<Longrightarrow> n < 12" for n using less_exp_bit [of ?o 12 n] entry_off_lt(1) by simp
  have "page_mask e + ?o = page_mask e OR ?o"
    by (rule disjunctive_add) (use o in \<open>force simp: bit_page_mask\<close>)
  then have lt: "bit (page_mask e) n \<Longrightarrow> n < 52" for n
    using less_exp_bit [OF assms, of n] by (simp add: bit_or_iff)
  have m: "(0x000FFFFFFFFFF000 :: u64) = push_bit 12 (mask 40)" by (simp add: mask_eq_exp_minus_1)
  have b: "bit e n \<and> 12 \<le> n \<Longrightarrow> n - 12 < 40" for n using lt [of n] by (simp add: bit_page_mask) 
  show ?thesis unfolding frame_of_def m
    by (rule bit_eqI) (use b in \<open>auto simp: bit_and_iff bit_push_bit_iff bit_mask_iff bit_page_mask\<close>)
qed

lemma frame_of_walk:
  assumes "walk_owned (sh # shs) k (page_mask e) va"
  shows "frame_of e = page_mask e"
proof -
  have "owned_slot k (page_mask e + entry_off sh va)" using assms by (simp add: Let_def)
  then show ?thesis using frame_of_owned owned_slot_low by blast
qed

lemma page_of_slot:
  assumes "p < 2 ^ 32" "i < 8"
  shows "unat (of_nat p * 0x1000 + entry_off sh va + of_nat i) div 4096 = p"
proof -
  let ?o = "entry_off sh va"
  have "unat ?o mod 8 = 0"
  proof -
    have "(7 :: u64) = mask 3" by (simp add: mask_eq_exp_minus_1)
    then have "take_bit 3 ?o = 0" using entry_off_lt(2) [of sh va] by (simp add: take_bit_eq_mask)
    then have "take_bit 3 (unat ?o) = 0" by (metis unsigned_take_bit_eq unsigned_0)
    then show ?thesis by (simp add: take_bit_eq_mod)
  qed
  then obtain q where q: "unat ?o = 8 * q" by (auto simp: mod_eq_0_iff_dvd)
  moreover have "unat ?o < 4096" using entry_off_lt(1) [of sh va] by (simp add: word_less_nat_alt)
  ultimately have "q < 512" by linarith
  with q assms(2) have "unat ?o + i < 4096" by linarith
  moreover have "p * 4096 + 4096 \<le> 2 ^ 64" using assms(1) by simp
  moreover have "unat (?o + of_nat i) = unat ?o + i"
    using \<open>unat ?o + i < 4096\<close> assms(2) by (simp add: unat_word_ariths(1) unat_of_nat)
  ultimately have "unat (of_nat p * 0x1000 + (?o + of_nat i)) = p * 4096 + (unat ?o + i)"
    using page_addr(1) [OF assms(1)] by (subst unat_word_ariths(1)) simp
  then have "unat (of_nat p * 0x1000 + ?o + of_nat i) = p * 4096 + (unat ?o + i)"
    by (simp add: add.assoc)
  then show ?thesis using \<open>unat ?o + i < 4096\<close> by simp
qed

lemma owned_slot_page:
  assumes "\<And>x. unat x div 4096 = p \<Longrightarrow> kept k x" "p < 2 ^ 32"
  shows "owned_slot k (of_nat p * 0x1000 + entry_off sh va)"
proof -
  let ?o = "entry_off sh va"
  note u = page_of_slot [OF assms(2)]
  have "(of_nat p * 0x1000 + ?o) AND 7 = 0"
  proof -
    have m: "(7 :: u64) = mask 3" by (simp add: mask_eq_exp_minus_1)
    have p12: "bit (of_nat p * 0x1000 :: u64) n \<Longrightarrow> 12 \<le> n" for n by (metis bit_page_mask page_mask_of_page)
    have o12: "bit ?o n \<Longrightarrow> n < 12" for n using less_exp_bit [of ?o 12 n] entry_off_lt(1) by simp
    have o3: "take_bit 3 ?o = 0" using entry_off_lt(2) [of sh va] by (simp add: m take_bit_eq_mask)
    have "of_nat p * 0x1000 + ?o = of_nat p * 0x1000 OR ?o"
      by (rule disjunctive_add) (use p12 o12 in \<open>force\<close>)
    moreover have "take_bit 3 (of_nat p * 0x1000 :: u64) = 0"
      by (rule bit_eqI) (use p12 in \<open>force simp: bit_take_bit_iff\<close>)
    ultimately have "take_bit 3 (of_nat p * 0x1000 + ?o) = 0" using o3 by simp
    then show ?thesis by (simp add: m take_bit_eq_mask)
  qed
  then show ?thesis using assms(1) u by (simp add: owned_slot_def)
qed

lemma page_mask_flags:
  assumes "page_mask a = a" "fl < 0x1000"
  shows "page_mask (a OR (PAGE_ATTR_PRESENT OR PAGE_ATTR_WRITE OR fl)) = a"
proof (rule bit_eqI)
  fix n
  have "bit fl n \<Longrightarrow> n < 12" using less_exp_bit [of fl 12 n] assms(2) by simp
  moreover have "bit a n \<Longrightarrow> 12 \<le> n" by (metis assms(1) bit_page_mask)
  moreover have "bit (2 :: u64) n \<Longrightarrow> n < 12" using less_exp_bit [of 2 12 n] by simp
  moreover have "bit (1 :: u64) n \<Longrightarrow> n < 12" using less_exp_bit [of 1 12 n] by simp
  ultimately show "bit (page_mask (a OR (PAGE_ATTR_PRESENT OR PAGE_ATTR_WRITE OR fl))) n = bit a n"
    by (auto simp: bit_page_mask bit_or_iff page_attr_defs not_less)
qed

lemma table_entry_spec:
  assumes te: "table_entry s fl k = Some (e, k')" and ok: "paging_ok k" and own: "owned_slot k s"
    and fl: "fl < 0x1000"
  shows "rd64 (phys k') s = e \<and> present e \<and>
    (if present (rd64 (phys k) s) then e = rd64 (phys k) s \<and> keeps {} {} k k'
     else \<exists>p. free_page k p \<and> page_mask e = of_nat p * 0x1000 \<and> keeps (bytes_at s 8) {p} k k' \<and>
            (\<forall>x. unat x div 4096 = p \<longrightarrow> phys k' x = 0))"
proof -
  let ?k1 = "tmapped s k"
  have k1: "keeps {} {} k ?k1" using keeps_tmapped [OF ok] .
  have r: "phyread64 s k = Some (rd64 (phys k) s, ?k1)"
    using phyread64_owned [OF own] rd64_tmapped [OF ok own] by simp
  have s1: "rd64 (phys ?k1) s = rd64 (phys k) s" using rd64_tmapped [OF ok own] .
  show ?thesis
  proof (cases "present (rd64 (phys k) s)")
    case True
    then show ?thesis using te r k1 s1 by (simp add: table_entry_def)
  next
    case False
    let ?a = "getFreePhysPage ?k1"
    have ne: "?a \<noteq> 0" using te r False by (auto simp: table_entry_def Let_def)
    obtain p where p: "?a = of_nat p * 0x1000" "free_page ?k1 p" "unat ?a = p * 4096"
      using getFreePhysPage_free [OF paging_ok_keeps [OF ok k1] refl ne] .
    have pm: "page_mask ?a = ?a" by (simp add: p(1) page_mask_of_page)
    let ?e = "?a OR (PAGE_ATTR_PRESENT OR PAGE_ATTR_WRITE OR fl)"
    obtain k3 where k3: "phyzero ?a 4096 (markPhysPageUsed (ucast (?a div PAGESIZE)) ?k1) = Some k3"
        "keeps {} {p} ?k1 k3" "\<And>x. unat x div 4096 = p \<Longrightarrow> phys k3 x = 0"
      using take_page [OF paging_ok_keeps [OF ok k1] p(2)] unfolding p(1) by blast
    have kk3: "keeps {} {p} k k3" using keeps_trans [OF k1 k3(2)] by simp
    have ok3: "paging_ok k3" and own3: "owned_slot k3 s"
      using paging_ok_keeps [OF ok kk3] owned_slot_keeps [OF own kk3] .
    have te': "e = ?e" "k' = stored s ?e k3"
      using te r False ne k3(1) phywrite64_owned [OF own3]
      by (auto simp: table_entry_def Let_def pm)
    have kk': "keeps (bytes_at s 8) {p} k k'"
      using keeps_trans [OF kk3 keeps_stored(1) [OF ok3 own3]] by (simp add: te'(2))
    have rd: "rd64 (phys k') s = e" using keeps_stored(2) [OF ok3 own3] te' by simp
    have fp: "free_page k p" using p(2) keeps_params(1) [OF k1] keeps_used [OF k1, of p]
      by (simp add: free_page_def)
    have mask: "page_mask e = ?a" unfolding te'(1) by (rule page_mask_flags [OF pm fl])
    have z: "phys k' x = 0" if "unat x div 4096 = p" for x
    proof -
      have "kept k3 x" using fresh_kept [OF ok fp that kk3] by simp
      moreover have "\<not> kept k x" using fp that by (simp add: kept_def free_page_def)
      then have "x \<notin> bytes_at s 8" using own by (auto simp: owned_slot_def elim!: bytes_atE)
      ultimately show ?thesis
        using keeps_stored(1) [OF ok3 own3] k3(3) [OF that] by (simp add: te'(2) keeps_def)
    qed
    have "present e" by (simp add: te'(1) present_bit bit_or_iff page_attr_defs)
    then show ?thesis using False rd fp mask kk' z p(1) by auto
  qed
qed

lemma aligned_slot:
  assumes "s AND 7 = 0" "x \<in> bytes_at s 8"
  shows "unat x div 8 = unat s div 8" "unat s = unat s div 8 * 8"
proof -
  have "(7 :: u64) = mask 3" by (simp add: mask_eq_exp_minus_1)
  then have "take_bit 3 s = 0" using assms(1) by (simp add: take_bit_eq_mask)
  then have "take_bit 3 (unat s) = 0" by (metis unsigned_take_bit_eq unsigned_0)
  then have q: "unat s mod 8 = 0" by (simp add: take_bit_eq_mod)
  then show s: "unat s = unat s div 8 * 8" by auto
  obtain i where i: "x = s + of_nat i" "i < 8" using assms(2) by (auto elim: bytes_atE)
  obtain q where q: "unat s = 8 * q" using q by (auto simp: mod_eq_0_iff_dvd)
  moreover have "unat s < 2 ^ 64" using unsigned_less [of s, where 'a = nat] by simp
  ultimately have "q < 2 ^ 61" by simp
  with q i have "unat s + i < 2 ^ 64" by simp
  then have "unat x = unat s + i" using i by (simp add: unat_word_ariths(1) unat_of_nat)
  then show "unat x div 8 = unat s div 8" using q i by simp
qed

lemma slots_disjoint:
  assumes "s AND 7 = 0" "s' AND 7 = 0" "s \<noteq> s'"
  shows "bytes_at s 8 \<inter> bytes_at s' 8 = {}"
  using aligned_slot [OF assms(1)] aligned_slot [OF assms(2)] assms(3)
  by (metis disjoint_iff word_unat_eq_iff)

lemma owned_disjoint:
  assumes "owned_slot k s" "owned_slot k s'" "rd64 (phys k) s \<noteq> rd64 (phys k) s'"
  shows "bytes_at s 8 \<inter> bytes_at s' 8 = {}"
  using slots_disjoint [of s s'] owned_slot_low [of k] assms by auto

lemma table_entry_keeps:
  assumes "table_entry s fl k = Some (e, k')" "paging_ok k" "owned_slot k s" "fl < 0x1000"
  shows "\<exists>A. keeps (bytes_at s 8) A k k'"
    "owned_slot k s' \<Longrightarrow> present (rd64 (phys k) s') \<Longrightarrow> rd64 (phys k') s' = rd64 (phys k) s'"
proof -
  note spec = table_entry_spec [OF assms]
  from spec show "\<exists>A. keeps (bytes_at s 8) A k k'"
    by (metis empty_iff keeps_weaken)
  then obtain A where A: "keeps (bytes_at s 8) A k k'" ..
  assume s': "owned_slot k s'" "present (rd64 (phys k) s')"
  show "rd64 (phys k') s' = rd64 (phys k) s'"
  proof (cases "present (rd64 (phys k) s)")
    case True
    with spec have "keeps {} {} k k'" by simp
    then show ?thesis by (rule rd64_keeps) (use s' in auto)
  next
    case False
    then show ?thesis using rd64_keeps [OF A s'(1)] owned_disjoint [OF assms(3) s'(1)] s'(2) by metis
  qed
qed

lemma walk_owned_keeps:
  "keeps {} A k k' \<Longrightarrow> walk_owned shs k t va \<Longrightarrow>
     walk_owned shs k' t va \<and> pt_walk shs (phys k') t va = pt_walk shs (phys k) t va"
proof (induction shs arbitrary: t)
  case (Cons sh shs)
  let ?s = "t + entry_off sh va"
  have own: "owned_slot k ?s" using Cons.prems(2) by (simp add: Let_def)
  have r: "rd64 (phys k') ?s = rd64 (phys k) ?s" by (rule rd64_keeps [OF Cons.prems(1) own]) auto
  have own': "owned_slot k' ?s" using owned_slot_keeps [OF own Cons.prems(1)] .
  show ?case
  proof (cases "present (rd64 (phys k) ?s) \<and> shs \<noteq> []")
    case True
    then have w: "walk_owned shs k (page_mask (rd64 (phys k) ?s)) va"
      using Cons.prems(2) by (simp add: Let_def)
    obtain sh' shs' where shs: "shs = sh' # shs'" using True by (cases shs) auto
    have "frame_of (rd64 (phys k) ?s) = page_mask (rd64 (phys k) ?s)"
      using frame_of_walk w shs by metis
    then show ?thesis using Cons.IH [OF Cons.prems(1) w] own' r True shs by (simp add: Let_def)
  next
    case False
    then show ?thesis using own' r by (cases shs) (auto simp: Let_def)
  qed
qed simp

text \<open>One level of \<open>mapPage\<close>: the entry it returns leads to a table the kernel owns.\<close>

lemma table_step:
  assumes te: "table_entry (t + entry_off sh va) fl k = Some (e, k')" and ok: "paging_ok k"
    and w: "walk_owned (sh # sh' # shs) k t va" and fl: "fl < 0x1000"
  shows "paging_ok k'" "walk_owned (sh' # shs) k' (page_mask e) va"
    "rd64 (phys k') (t + entry_off sh va) = e" "present e" "owned_slot k' (t + entry_off sh va)"
    "pt_walk (sh' # shs) (phys k') (page_mask e) va = pt_walk (sh # sh' # shs) (phys k) t va"
proof -
  let ?s = "t + entry_off sh va"
  have own: "owned_slot k ?s" using w by (simp add: Let_def)
  note spec = table_entry_spec [OF te ok own fl]
  from table_entry_keeps(1) [OF te ok own fl] obtain A where A: "keeps (bytes_at ?s 8) A k k'" ..
  show ok': "paging_ok k'" using paging_ok_keeps [OF ok A] .
  show "owned_slot k' ?s" using owned_slot_keeps [OF own A] .
  show "rd64 (phys k') ?s = e" "present e" using spec by simp_all
  have "walk_owned (sh' # shs) k' (page_mask e) va \<and>
    pt_walk (sh' # shs) (phys k') (page_mask e) va = pt_walk (sh # sh' # shs) (phys k) t va"
  proof (cases "present (rd64 (phys k) ?s)")
    case True
    with spec have e: "e = rd64 (phys k) ?s" "keeps {} {} k k'" by simp_all
    have w': "walk_owned (sh' # shs) k (page_mask e) va" using w True e(1) by (simp add: Let_def)
    have "frame_of e = page_mask e" using frame_of_walk [OF w'] .
    then show ?thesis using walk_owned_keeps [OF e(2) w'] True by (simp add: e(1) Let_def)
  next
    case False
    with spec obtain p where p: "free_page k p" "page_mask e = of_nat p * 0x1000"
        "keeps (bytes_at ?s 8) {p} k k'" "\<And>x. unat x div 4096 = p \<Longrightarrow> phys k' x = 0" by auto
    let ?s' = "page_mask e + entry_off sh' va"
    have p32: "p < 2 ^ 32" using p(1) npages_bound [of k] by (simp add: free_page_def)
    have own': "owned_slot k' ?s'" unfolding p(2)
      by (rule owned_slot_page [OF fresh_kept [OF ok p(1) _ p(3)] p32]) auto
    have "phys k' (?s' + of_nat i) = 0" if "i < 8" for i
      by (rule p(4)) (use page_of_slot [OF p32 that] p(2) in simp)
    then have "rd (phys k') ?s' 8 = rd (\<lambda>_. 0) ?s' 8" by (intro rd_cong) auto
    moreover have "rd64 (\<lambda>_. 0) ?s' = 0" by (simp add: rd64_def rd_def numeral_eq_Suc)
    ultimately have z: "rd64 (phys k') ?s' = 0" by (simp add: rd64_def)
    have "pt_walk (sh' # shs) (phys k') (page_mask e) va = None"
      using z by (cases shs) (simp_all add: Let_def present_def)
    then show ?thesis using own' z False by (simp add: Let_def present_def)
  qed
  then show "walk_owned (sh' # shs) k' (page_mask e) va"
    "pt_walk (sh' # shs) (phys k') (page_mask e) va = pt_walk (sh # sh' # shs) (phys k) t va" by auto
qed

lemma flags_lt: "(ucast (f AND 0xFFF :: u32) :: u64) < 0x1000"
proof -
  have m: "(0xFFF :: u32) = mask 12" by (simp add: mask_eq_exp_minus_1)
  have "unat (f AND 0xFFF) < 2 ^ 12"
    unfolding m by (simp only: flip: take_bit_eq_mask) (simp only: unsigned_take_bit_eq take_bit_nat_less_exp)
  then show ?thesis by (simp add: word_less_nat_alt unsigned_ucast_eq take_bit_nat_eq_self)
qed

lemma slot_byte:
  assumes "s AND 7 = 0" "x \<in> bytes_at s 8"
  shows "unat x div 4096 = unat s div 4096"
proof -
  have "unat x div 8 div 512 = unat s div 8 div 512" using aligned_slot(1) [OF assms] by simp
  then show ?thesis by (simp add: div_mult2_eq [symmetric] flip: div_mult2_eq)
qed

lemma owned_slotI:
  assumes "s AND 7 = 0" "s \<noteq> TMP_PTE" "unat s div 4096 < npages k" "page_used k (unat s div 4096)"
    and "\<And>x. in_bitmap k x \<Longrightarrow> unat x div 4096 \<noteq> unat s div 4096"
  shows "owned_slot k s"
proof -
  have t: "TMP_PTE AND 7 = 0" by (simp add: TMP_PTE_eq)
  have "kept k (s + of_nat i)" if "i < 8" for i
  proof -
    have x: "s + of_nat i \<in> bytes_at s 8" using that by (simp add: bytes_at_def unat_of_nat)
    then have "s + of_nat i \<notin> bytes_at TMP_PTE 8" using slots_disjoint [OF assms(1) t assms(2)] by blast
    then have "\<not> tmp_slot (s + of_nat i)" by (simp add: tmp_slot_def bytes_at_def)
    then show ?thesis using slot_byte [OF assms(1) x] assms(3-5) by (auto simp: kept_def)
  qed
  then show ?thesis using assms(1) by (simp add: owned_slot_def)
qed

lemma pt_lookup_entries:
  assumes "present e1" "present e2" "present e3"
    and "rd64 m (pml4 + entry_off 39 va) = e1" "rd64 m (frame_of e1 + entry_off 30 va) = e2"
    and "rd64 m (frame_of e2 + entry_off 21 va) = e3" "rd64 m (frame_of e3 + entry_off 12 va) = e4"
  shows "pt_lookup m pml4 va = (if present e4 then Some e4 else None)"
  using assms by (simp add: pt_lookup_def Let_def)

text \<open>What a successful \<open>mapPage_at\<close> did, level by level.\<close>

lemma mapPage_at_levels:
  assumes ok: "paging_ok k" and w: "owned_walk k pml4 va"
    and run: "mapPage_at va pa flags pml4 k = Some (r, k')"
  shows "\<exists>e1 e2 e3 k4. let s4 = page_mask e3 + entry_off 12 va in
     paging_ok k4 \<and> present e1 \<and> present e2 \<and> present e3 \<and> owned_slot k4 s4 \<and>
     owned_slot k4 (pml4 + entry_off 39 va) \<and> rd64 (phys k4) (pml4 + entry_off 39 va) = e1 \<and>
     owned_slot k4 (page_mask e1 + entry_off 30 va) \<and> rd64 (phys k4) (page_mask e1 + entry_off 30 va) = e2 \<and>
     owned_slot k4 (page_mask e2 + entry_off 21 va) \<and> rd64 (phys k4) (page_mask e2 + entry_off 21 va) = e3 \<and>
     frame_of e1 = page_mask e1 \<and> frame_of e2 = page_mask e2 \<and> frame_of e3 = page_mask e3 \<and>
     pt_lookup (phys k) pml4 va = (if present (rd64 (phys k4) s4) then Some (rd64 (phys k4) s4) else None) \<and>
     (\<exists>W A. keeps W A k k4) \<and>
     (if present (rd64 (phys k4) s4) then r = 0 \<and> k' = tmapped s4 k4 else
      let a = (if pa = 0 then getFreePhysPage (tmapped s4 k4) else pa) in
      if a = 0 then r = 0 \<and> k' = tmapped s4 k4
      else r = va \<and> k' = markPhysPageUsed (ucast (page_mask a div PAGESIZE))
             (stored s4 (page_mask a OR (PAGE_ATTR_PRESENT OR PAGE_ATTR_WRITE OR ucast (flags AND 0xFFF)))
               (tmapped s4 k4)))"
proof -
  let ?fl = "ucast (flags AND 0xFFF) :: u64"
  note fl = flags_lt [of flags]
  let ?s1 = "pml4 + entry_off 39 va"
  define e1 where "e1 = rd64 (phys k) ?s1"
  let ?k1 = "tmapped ?s1 k"
  have own1: "owned_slot k ?s1" using w by (simp add: owned_walk_def Let_def)
  have k1: "keeps {} {} k ?k1" using keeps_tmapped [OF ok] .
  have ok1: "paging_ok ?k1" using paging_ok_keeps [OF ok k1] .
  have r1: "phyread64 ?s1 k = Some (e1, ?k1)"
    using phyread64_owned [OF own1] rd64_tmapped [OF ok own1] by (simp add: e1_def)
  have p1: "present e1" using run r1 by (cases "present e1") (auto simp: mapPage_at_def Let_def)
  have w2k: "walk_owned [30, 21, 12] k (page_mask e1) va"
    using w p1 by (simp add: owned_walk_def e1_def Let_def)
  note w2 = conjunct1 [OF walk_owned_keeps [OF k1 w2k]]
  obtain e2 k2 where te2: "table_entry (page_mask e1 + entry_off 30 va) ?fl ?k1 = Some (e2, k2)"
    using run r1 p1 by (auto simp: mapPage_at_def Let_def split: Option.bind_splits)
  note step2 = table_step [OF te2 ok1 w2 fl]
  obtain e3 k3 where te3: "table_entry (page_mask e2 + entry_off 21 va) ?fl k2 = Some (e3, k3)"
    using run r1 p1 te2 by (auto simp: mapPage_at_def Let_def split: Option.bind_splits)
  note step3 = table_step [OF te3 step2(1,2) fl]
  let ?s4 = "page_mask e3 + entry_off 12 va"
  have own4: "owned_slot k3 ?s4" using step3(2) by (simp add: Let_def)
  have r4: "phyread64 ?s4 k3 = Some (rd64 (phys k3) ?s4, tmapped ?s4 k3)"
    using phyread64_owned [OF own4] rd64_tmapped [OF step3(1) own4] by simp
  have own4': "owned_slot (tmapped ?s4 k3) ?s4" using owned_slot_keeps [OF own4 keeps_tmapped [OF step3(1)]] .
  have frames: "frame_of e1 = page_mask e1" "frame_of e2 = page_mask e2" "frame_of e3 = page_mask e3"
    using frame_of_walk [OF w2] frame_of_walk [OF step2(2)] frame_of_walk [OF step3(2)] by auto
  have own_s1: "owned_slot ?k1 ?s1" using owned_slot_keeps [OF own1 k1] .
  have rd1: "rd64 (phys ?k1) ?s1 = e1" using rd64_tmapped [OF ok own1] by (simp add: e1_def)
  have own2: "owned_slot ?k1 (page_mask e1 + entry_off 30 va)" using w2 by (simp add: Let_def)
  have own3: "owned_slot k2 (page_mask e2 + entry_off 21 va)" using step2(2) by (simp add: Let_def)
  note keep2 = table_entry_keeps [OF te2 ok1 own2 fl]
  note keep3 = table_entry_keeps [OF te3 step2(1) own3 fl]
  obtain A2 where A2: "keeps (bytes_at (page_mask e1 + entry_off 30 va) 8) A2 ?k1 k2" using keep2(1) ..
  obtain A3 where A3: "keeps (bytes_at (page_mask e2 + entry_off 21 va) 8) A3 k2 k3" using keep3(1) ..
  have rd1': "rd64 (phys k2) ?s1 = e1" using keep2(2) [OF own_s1] rd1 p1 by simp
  have s1': "owned_slot k2 ?s1" using owned_slot_keeps [OF own_s1 A2] .
  have rd1'': "rd64 (phys k3) ?s1 = e1" using keep3(2) [OF s1'] rd1' p1 by simp
  have rd2': "rd64 (phys k3) (page_mask e1 + entry_off 30 va) = e2"
    using keep3(2) [OF step2(5)] step2(3,4) by simp
  have lk: "pt_lookup (phys k) pml4 va =
      (if present (rd64 (phys k3) ?s4) then Some (rd64 (phys k3) ?s4) else None)"
  proof -
    have "pt_lookup (phys k) pml4 va = pt_walk [30, 21, 12] (phys k) (page_mask e1) va"
      using p1 frames(1) by (simp add: pt_lookup_def e1_def Let_def)
    also have "\<dots> = pt_walk [30, 21, 12] (phys ?k1) (page_mask e1) va"
      using walk_owned_keeps [OF k1 w2k] by simp
    also have "\<dots> = pt_walk [12] (phys k3) (page_mask e3) va" using step2(6) step3(6) by (simp only:)
    finally show ?thesis by (simp add: Let_def)
  qed
  have kk: "\<exists>W A. keeps W A k k3" using keeps_trans [OF keeps_trans [OF k1 A2] A3] by blast
  have res: "if present (rd64 (phys k3) ?s4) then r = 0 \<and> k' = tmapped ?s4 k3 else
      let a = (if pa = 0 then getFreePhysPage (tmapped ?s4 k3) else pa) in
      if a = 0 then r = 0 \<and> k' = tmapped ?s4 k3
      else r = va \<and> k' = markPhysPageUsed (ucast (page_mask a div PAGESIZE))
             (stored ?s4 (page_mask a OR (PAGE_ATTR_PRESENT OR PAGE_ATTR_WRITE OR ?fl)) (tmapped ?s4 k3))"
    using run r1 p1 te2 te3 r4 phywrite64_owned [OF own4']
    by (auto simp: mapPage_at_def Let_def split: if_splits)
  show ?thesis
    unfolding Let_def
    using step3(1) p1 step2(4) step3(4) own4 owned_slot_keeps [OF s1' A3] rd1''
      owned_slot_keeps [OF step2(5) A3] rd2' step3(5,3) frames lk kk res [unfolded Let_def]
    by - (rule exI [of _ e1], rule exI [of _ e2], rule exI [of _ e3], rule exI [of _ k3],
        intro conjI, assumption+)
qed

lemma mapPage_at_succeeds:
  assumes ok: "paging_ok k" and w: "owned_walk k pml4 va" and pa: "pa \<noteq> 0"
    and tables: "pt_walk [39, 30, 21] (phys k) pml4 va \<noteq> None" and new: "pt_lookup (phys k) pml4 va = None"
  shows "\<exists>k'. mapPage_at va pa flags pml4 k = Some (va, k')"
proof -
  have te: "table_entry s fl q = Some (rd64 (phys q) s, tmapped s q)"
    if "paging_ok q" "owned_slot q s" "present (rd64 (phys q) s)" for s fl q
    using phyread64_owned [OF that(2)] rd64_tmapped [OF that(1,2)] that(3) by (simp add: table_entry_def)
  let ?s1 = "pml4 + entry_off 39 va"
  define e1 where "e1 = rd64 (phys k) ?s1"
  let ?s2 = "page_mask e1 + entry_off 30 va"
  define e2 where "e2 = rd64 (phys k) ?s2"
  let ?s3 = "page_mask e2 + entry_off 21 va"
  define e3 where "e3 = rd64 (phys k) ?s3"
  let ?s4 = "page_mask e3 + entry_off 12 va"
  have p1: "present e1" using tables by (auto simp: e1_def Let_def split: if_splits)
  have w2: "walk_owned [30, 21, 12] k (page_mask e1) va"
    using w p1 by (simp add: owned_walk_def e1_def Let_def)
  have p2: "present e2" using tables p1 frame_of_walk [OF w2]
    by (auto simp: e1_def e2_def Let_def split: if_splits)
  have w3: "walk_owned [21, 12] k (page_mask e2) va" using w2 p2 by (simp add: e2_def Let_def)
  have p3: "present e3" using tables p1 p2 frame_of_walk [OF w2] frame_of_walk [OF w3]
    by (auto simp: e1_def e2_def e3_def Let_def split: if_splits)
  have w4: "walk_owned [12] k (page_mask e3) va" using w3 p3 by (simp add: e3_def Let_def)
  have p4: "\<not> present (rd64 (phys k) ?s4)"
    using new pt_lookup_entries [OF p1 p2 p3, of "phys k" pml4 va "rd64 (phys k) ?s4"]
      frame_of_walk [OF w2] frame_of_walk [OF w3] frame_of_walk [OF w4]
    by (simp add: e1_def e2_def e3_def split: if_splits)
  have own: "owned_slot k ?s1" "owned_slot k ?s2" "owned_slot k ?s3" "owned_slot k ?s4"
    using w w2 w3 w4 by (simp_all add: owned_walk_def Let_def)
  have t: "paging_ok (tmapped s q)" "owned_slot q s' \<Longrightarrow> owned_slot (tmapped s q) s'"
      "owned_slot q s' \<Longrightarrow> rd64 (phys (tmapped s q)) s' = rd64 (phys q) s'" if "paging_ok q" for s s' q
    using paging_ok_keeps [OF that keeps_tmapped [OF that]] owned_slot_keeps [OF _ keeps_tmapped [OF that]]
      rd64_tmapped [OF that] by auto
  note stepq = t te phyread64_owned phywrite64_owned
  show ?thesis
    using p1 p2 p3 p4 own ok pa
    by (simp add: mapPage_at_def Let_def stepq flip: e1_def)
       (simp add: Let_def stepq flip: e2_def e3_def)
qed

text \<open>
  A small machine for the witnesses: 2 MiB of memory, the four boot tables, page 9 mapped at
  \<open>0x9000\<close>, and the bitmap in page 256.
\<close>

definition boot_kmem :: kmem where
  "boot_kmem = \<lparr>phys = (\<lambda>_. 0)(0x1000 := 0x03, 0x1001 := 0x20, 0x2000 := 3, 0x2001 := 0x30, 0x3000 := 3,
      0x3001 := 0x40, 0x4048 := 3, 0x4049 := 0x90, 0x100000 := 0x1F, 0x100001 := 2, 0x100020 := 1),
      physPageBitmap = 0x100000, maxPhysPages = 512\<rparr>"

lemma boot_used: "page_used boot_kmem 0" "page_used boot_kmem 1" "page_used boot_kmem 2" "page_used boot_kmem 3" "page_used boot_kmem 4" "page_used boot_kmem 256"
  by (simp_all add: boot_kmem_def page_used_def bitmap_byte_def bit_iff_odd_drop_bit)
lemma boot_bitmap: "in_bitmap boot_kmem x \<longleftrightarrow> 0x100000 \<le> unat x \<and> unat x < 0x100040"
  by (auto simp: in_bitmap_def boot_kmem_def bitmap_size_def unat_sub_if' split: if_splits)
lemma boot_ok: "paging_ok boot_kmem"
proof -
  have "unat x div 4096 = 256" if "in_bitmap boot_kmem x" for x
    using that unfolding boot_bitmap by (intro div_nat_eqI) auto
  moreover have "\<not> tmp_slot x" if "in_bitmap boot_kmem x" for x
    using that unfolding boot_bitmap tmp_slot_def TMP_PTE_eq by (auto simp: unat_sub_if')
  ultimately show ?thesis
    using boot_used by (auto simp: paging_ok_def npages_def) (simp_all add: boot_kmem_def)
qed
lemma boot_slot: 
  assumes "s AND 7 = 0" "unat s div 4096 \<in> {1, 2, 3, 4}" "s \<noteq> TMP_PTE" 
  shows "owned_slot boot_kmem s"
proof (rule owned_slotI [OF assms(1,3)])
  show "unat s div 4096 < npages boot_kmem" using assms(2) by (auto simp: npages_def boot_kmem_def)
  show "page_used boot_kmem (unat s div 4096)" using assms(2) boot_used by auto
  show "unat x div 4096 \<noteq> unat s div 4096" if "in_bitmap boot_kmem x" for x
  proof -
    have "unat x div 4096 = 256" using that unfolding boot_bitmap by (intro div_nat_eqI) auto
    then show ?thesis using assms(2) by auto
  qed
qed
lemma boot_reads: "rd64 (phys boot_kmem) 0x1000 = 0x2003" "rd64 (phys boot_kmem) 0x2000 = 0x3003"
 "rd64 (phys boot_kmem) 0x3000 = 0x4003" "rd64 (phys boot_kmem) 0x4040 = 0"
  "rd64 (phys boot_kmem) 0x4048 = 0x9003"
  by code_simp+
lemma boot_offs: "entry_off 39 0x8000 = 0" "entry_off 30 0x8000 = 0" "entry_off 21 0x8000 = 0"
  "entry_off 12 0x8000 = 0x40" "entry_off 39 0x9000 = 0" "entry_off 30 0x9000 = 0"
  "entry_off 21 0x9000 = 0" "entry_off 12 0x9000 = 0x48"
  by code_simp+

lemma boot_masks: "page_mask 0x2003 = 0x2000" "page_mask 0x3003 = 0x3000" "page_mask 0x4003 = 0x4000"
  "frame_of 0x2003 = 0x2000" "frame_of 0x3003 = 0x3000" "frame_of 0x4003 = 0x4000"
  by code_simp+

lemma boot_walk: "owned_walk boot_kmem 0x1000 0x8000" "owned_walk boot_kmem 0x1000 0x9000"
  using boot_slot [of "0x1000"] boot_slot [of "0x2000"] boot_slot [of "0x3000"] boot_slot [of "0x4040"]
    boot_slot [of "0x4048"]
  by (simp_all add: owned_walk_def Let_def boot_offs boot_masks boot_reads present_bit TMP_PTE_eq)

lemma boot_lookup: "pt_lookup (phys boot_kmem) 0x1000 0x9000 = Some 0x9003"
  "pt_lookup (phys boot_kmem) 0x1000 0x8000 = None"
  by (simp_all add: pt_lookup_def Let_def boot_offs boot_masks boot_reads present_bit)

text \<open>
  C1: A successful \<open>mapPage\<close> of a given address maps an address that was not mapped: afterwards
  the processor's walk ends at a present, writable entry with the requested flags whose frame is the
  requested one, or a page that was free when none was requested; that frame is marked used and
  the tables stay owned by the kernel.
\<close>

theorem mapPage_maps:
  assumes "paging_ok k" "owned_walk k pml4 va" "va \<noteq> 0" "unat pa div 4096 < 2 ^ 32"
    and "mapPage va pa flags pml4 k = Some (r, k')" "r \<noteq> 0"
  shows "\<exists>a. r = va \<and> pt_lookup (phys k) pml4 va = None \<and>
    pt_lookup (phys k') pml4 va = Some (page_mask a OR (3 OR ucast (flags AND 0xFFF))) \<and>
    (if pa = 0 then free_page k (unat a div 4096) else a = pa) \<and>
    (unat a div 4096 < npages k \<longrightarrow> page_used k' (unat a div 4096)) \<and> paging_ok k'"
proof -
  have "mapPage_at va pa flags pml4 k = Some (r, k')" using assms(3,5) by (simp add: mapPage_def)
  from mapPage_at_levels [OF assms(1,2) this] obtain e1 e2 e3 k4 where
    lv: "paging_ok k4" "present e1" "present e2" "present e3"
      "owned_slot k4 (page_mask e3 + entry_off 12 va)"
      "owned_slot k4 (pml4 + entry_off 39 va)" "rd64 (phys k4) (pml4 + entry_off 39 va) = e1"
      "owned_slot k4 (page_mask e1 + entry_off 30 va)" "rd64 (phys k4) (page_mask e1 + entry_off 30 va) = e2"
      "owned_slot k4 (page_mask e2 + entry_off 21 va)" "rd64 (phys k4) (page_mask e2 + entry_off 21 va) = e3"
      "frame_of e1 = page_mask e1" "frame_of e2 = page_mask e2" "frame_of e3 = page_mask e3"
      "pt_lookup (phys k) pml4 va = (if present (rd64 (phys k4) (page_mask e3 + entry_off 12 va))
         then Some (rd64 (phys k4) (page_mask e3 + entry_off 12 va)) else None)"
      "\<exists>W A. keeps W A k k4"
    and res: "if present (rd64 (phys k4) (page_mask e3 + entry_off 12 va))
       then r = 0 \<and> k' = tmapped (page_mask e3 + entry_off 12 va) k4 else
      let a = (if pa = 0 then getFreePhysPage (tmapped (page_mask e3 + entry_off 12 va) k4) else pa) in
      if a = 0 then r = 0 \<and> k' = tmapped (page_mask e3 + entry_off 12 va) k4
      else r = va \<and> k' = markPhysPageUsed (ucast (page_mask a div PAGESIZE))
             (stored (page_mask e3 + entry_off 12 va)
               (page_mask a OR (PAGE_ATTR_PRESENT OR PAGE_ATTR_WRITE OR ucast (flags AND 0xFFF)))
               (tmapped (page_mask e3 + entry_off 12 va) k4))"
    unfolding Let_def by blast
  let ?s4 = "page_mask e3 + entry_off 12 va" and ?fl = "ucast (flags AND 0xFFF) :: u64"
  let ?k5 = "tmapped ?s4 k4"
  have np: "\<not> present (rd64 (phys k4) ?s4)" using res assms(6) by (auto split: if_splits)
  define a where "a = (if pa = 0 then getFreePhysPage ?k5 else pa)"
  let ?e = "page_mask a OR (PAGE_ATTR_PRESENT OR PAGE_ATTR_WRITE OR ?fl)"
  let ?k6 = "stored ?s4 ?e ?k5"
  have a0: "a \<noteq> 0" and r: "r = va" and k': "k' = markPhysPageUsed (ucast (page_mask a div PAGESIZE)) ?k6"
    using res np assms(6) unfolding a_def by (simp_all add: Let_def split: if_splits)
  obtain W A where WA: "keeps W A k k4" using lv(16) by blast
  have k5: "keeps {} {} k4 ?k5" using keeps_tmapped [OF lv(1)] .
  have ok5: "paging_ok ?k5" using paging_ok_keeps [OF lv(1) k5] .
  have k6: "keeps (bytes_at ?s4 8) {} ?k5 ?k6" "rd64 (phys ?k6) ?s4 = ?e"
    using keeps_stored [OF ok5 owned_slot_keeps [OF lv(5) k5]] by auto
  have free: "free_page k (unat a div 4096)" if "pa = 0"
  proof -
    have "getFreePhysPage ?k5 = a" using that by (simp add: a_def)
    then obtain p where p: "a = of_nat p * 0x1000" "free_page ?k5 p" "unat a = p * 4096"
      using getFreePhysPage_free [OF ok5 _ a0] by blast
    have kk5: "keeps (W \<union> {}) (A \<union> {}) k ?k5" using keeps_trans [OF WA k5] .
    show ?thesis using p keeps_params(1) [OF kk5] keeps_used [OF kk5, of p]
      by (simp add: free_page_def)
  qed
  have a32: "unat a div 4096 < 2 ^ 32"
    using free npages_bound [of k] assms(4) by (cases "pa = 0") (auto simp: a_def free_page_def)
  have k7: "keeps {} {unat a div 4096} ?k6 k'" unfolding k' by (rule keeps_mark_page_of [OF a32])
  have k47: "keeps (bytes_at ?s4 8) {unat a div 4096} k4 k'"
    using keeps_trans [OF keeps_trans [OF k5 k6(1)] k7] by simp
  have still: "rd64 (phys k') s = rd64 (phys k4) s" if "owned_slot k4 s" "present (rd64 (phys k4) s)" for s
    using rd64_keeps [OF k47 that(1)] owned_disjoint [OF lv(5) that(1)] that(2) np by metis
  have leaf: "rd64 (phys k') ?s4 = ?e"
    using rd64_keeps [OF k7 owned_slot_keeps [OF owned_slot_keeps [OF lv(5) k5] k6(1)]] k6(2) by simp
  have pe: "present ?e" by (simp add: present_bit bit_or_iff page_attr_defs)
  have "pt_lookup (phys k') pml4 va = Some ?e"
    using pt_lookup_entries [OF lv(2-4), of "phys k'" pml4 va ?e] lv still leaf pe by simp
  moreover have "(3 :: u64) OR ?fl = PAGE_ATTR_PRESENT OR (PAGE_ATTR_WRITE OR ?fl)"
    by (simp add: page_attr_defs flip: or.assoc)
  moreover have "paging_ok k'" using paging_ok_keeps [OF lv(1) k47] .
  moreover have "page_used k' (unat a div 4096)" if "unat a div 4096 < npages k"
    using keeps_used [OF k7] keeps_params(1) [OF WA] keeps_params(1) [OF k5] keeps_params(1) [OF k6(1)] that
    by simp
  ultimately show ?thesis using r lv(15) np free a_def by (intro exI [of _ a]) auto
qed

theorem mapPage_maps_witness:
  "\<exists>k'. mapPage 0x8000 0xA000 4 0x1000 boot_kmem = Some (0x8000, k') \<and>
        pt_lookup (phys k') 0x1000 0x8000 = Some 0xA007 \<and> page_used k' 10"
proof -
  have "pt_walk [39, 30, 21] (phys boot_kmem) 0x1000 0x8000 \<noteq> None"
    by (simp add: Let_def boot_offs boot_masks boot_reads present_bit)
  then obtain k' where k': "mapPage 0x8000 0xA000 4 0x1000 boot_kmem = Some (0x8000, k')"
    using mapPage_at_succeeds [OF boot_ok boot_walk(1), of "0xA000" 4] boot_lookup(2)
    by (auto simp: mapPage_def)
  have "page_mask 0xA000 OR (3 OR ucast ((4 :: u32) AND 0xFFF)) = 0xA007" by code_simp
  moreover have "10 < npages boot_kmem" by (simp add: npages_def boot_kmem_def)
  ultimately show ?thesis using mapPage_maps [OF boot_ok boot_walk(1) _ _ k'] k' by auto
qed

end
