(* ===== verification/PageSpace.thy ===== *)
theory PageSpace
  imports PageWalk
begin

section \<open>Unmapping, address translation and page directories\<close>

text \<open>
  The operations of \<open>src/kernel/mm/paging.cpp\<close> that release pages or build directories,
  against the processor's walk \<open>pt_lookup\<close>: \<open>unmapPage\<close>, \<open>getPAddr\<close>,
  \<open>createPageDir\<close> and \<open>destroyPageDir\<close>.
\<close>

lemma tables_walk:
  assumes "owned_walk k pml4 va" "pt_walk [39, 30, 21] (phys k) pml4 va \<noteq> None"
  obtains e1 e2 e3 where "rd64 (phys k) (pml4 + entry_off 39 va) = e1" "present e1"
    "rd64 (phys k) (page_mask e1 + entry_off 30 va) = e2" "present e2"
    "rd64 (phys k) (page_mask e2 + entry_off 21 va) = e3" "present e3"
    "owned_slot k (pml4 + entry_off 39 va)" "owned_slot k (page_mask e1 + entry_off 30 va)"
    "owned_slot k (page_mask e2 + entry_off 21 va)" "owned_slot k (page_mask e3 + entry_off 12 va)"
    "frame_of e1 = page_mask e1" "frame_of e2 = page_mask e2" "frame_of e3 = page_mask e3"
proof -
  let ?s1 = "pml4 + entry_off 39 va"
  define e1 where "e1 = rd64 (phys k) ?s1"
  let ?s2 = "page_mask e1 + entry_off 30 va"
  define e2 where "e2 = rd64 (phys k) ?s2"
  let ?s3 = "page_mask e2 + entry_off 21 va"
  define e3 where "e3 = rd64 (phys k) ?s3"
  have p1: "present e1" using assms(2) by (auto simp: e1_def Let_def split: if_splits)
  have w2: "walk_owned [30, 21, 12] k (page_mask e1) va"
    using assms(1) p1 by (simp add: owned_walk_def e1_def Let_def)
  have p2: "present e2" using assms(2) p1 frame_of_walk [OF w2]
    by (auto simp: e1_def e2_def Let_def split: if_splits)
  have w3: "walk_owned [21, 12] k (page_mask e2) va" using w2 p2 by (simp add: e2_def Let_def)
  have p3: "present e3" using assms(2) p1 p2 frame_of_walk [OF w2] frame_of_walk [OF w3]
    by (auto simp: e1_def e2_def e3_def Let_def split: if_splits)
  have w4: "walk_owned [12] k (page_mask e3) va" using w3 p3 by (simp add: e3_def Let_def)
  show thesis
    using that [of e1 e2 e3] p1 p2 p3 w2 w3 w4 assms(1)
      frame_of_walk [OF w2] frame_of_walk [OF w3] frame_of_walk [OF w4]
    by (simp add: owned_walk_def Let_def flip: e1_def e2_def e3_def)
qed

lemma pt_lookup_tables: "pt_lookup m pml4 va = Some e \<Longrightarrow> pt_walk [39, 30, 21] m pml4 va \<noteq> None"
  by (auto simp: pt_lookup_def Let_def split: if_splits)

subsection \<open>Releasing a page\<close>

definition released :: "nat \<Rightarrow> u64 set \<Rightarrow> kmem \<Rightarrow> kmem \<Rightarrow> bool" where
  "released p W k k' \<longleftrightarrow> physPageBitmap k' = physPageBitmap k \<and> maxPhysPages k' = maxPhysPages k \<and>
     (\<forall>q < npages k. page_used k' q \<longleftrightarrow> page_used k q \<and> q \<noteq> p) \<and>
     (\<forall>x. \<not> tmp_slot x \<longrightarrow> \<not> in_bitmap k x \<longrightarrow> x \<notin> W \<longrightarrow> phys k' x = phys k x)"

lemma paddr_page: "unat (page_mask a) div 4096 = unat a div 4096"
proof -
  have "unat (page_mask a div 0x1000) = unat a div 4096"
    using unsigned_less [of a, where 'a = nat] by (simp add: take_bit_page_div unat_of_nat)
  then show ?thesis by (simp add: unat_div)
qed

lemma released_mark:
  assumes "unat a div 4096 = p"
  shows "released p {} k (markPhysPageFree_paddr a k)"
proof (cases "p < npages k")
  case True
  have lt: "q < 2 ^ 32" if "q < npages k" for q using that npages_bound [of k] by simp
  have "markPhysPageFree_paddr a k = set_page p False k"
    using assms True by (simp add: mark_paddr_set_page npages_def)
  then show ?thesis
    using phys_set_page_outside [OF True, of _ False] lt [OF True] lt
    by (auto simp: released_def page_used_set_page)
qed (auto simp: released_def mark_paddr_set_page assms npages_def)

lemma phyzero_slot:
  assumes "s AND 7 = 0" "s < 2 ^ 52"
  shows "phyzero s 8 k = Some (stored s 0 k)"
proof -
  have r: "min 8 (4096 - unat (s - page_mask s)) = 8" using aligned_room [OF assms(1)] by simp
  have z: "le_bytes 8 (0 :: u64) = replicate 8 0" by code_simp
  show ?thesis
    using tmp_frame_tmapped [OF assms(2), of k]
    by (simp add: phyzero.simps [of s 8 k] phyzero.simps [of "s + 8" 0] tmpmap_page Let_def r stored_def
        wr64_def memzero_wr z)
qed

text \<open>A store into an owned slot after a release: the slot may lie in the page just released.\<close>

lemma released_stored:
  assumes ok: "paging_ok k" and own: "owned_slot k s" and r: "released p {} k k1"
  shows "released p (bytes_at s 8) k (stored s v k1)" "rd64 (phys (stored s v k1)) s = v"
proof -
  have par: "npages k1 = npages k" "\<And>x. in_bitmap k1 x = in_bitmap k x"
    using r by (simp_all add: released_def npages_def in_bitmap_def bitmap_size_def)
  have nb: "\<not> in_bitmap k x" if "tmp_slot x \<or> x \<in> bytes_at s 8" for x
    using that ok own by (auto simp: paging_ok_def owned_slot_def kept_def elim!: bytes_atE)
  have out: "phys (stored s v k1) x = phys k1 x" if "\<not> tmp_slot x" "x \<notin> bytes_at s 8" for x
    using that by (simp add: stored_def wr64_def wr_def bytes_at_def tmapped_def tmp_slot_def)
  have "page_used (stored s v k1) q = page_used k1 q" if "q < npages k" for q
    by (rule page_used_cong) (use that par nb out in \<open>auto simp: stored_def\<close>)
  then show "released p (bytes_at s 8) k (stored s v k1)"
    using r out by (auto simp: released_def) (auto simp: stored_def)
  show "rd64 (phys (stored s v k1)) s = v" by (simp add: stored_def rd64_wr64_same)
qed

lemma rd64_released:
  assumes "released p W k k'" "owned_slot k s" "W \<inter> bytes_at s 8 = {}"
  shows "rd64 (phys k') s = rd64 (phys k) s"
proof -
  have "phys k' (s + of_nat i) = phys k (s + of_nat i)" if "i < 8" for i
  proof -
    have "s + of_nat i \<in> bytes_at s 8" using that by (simp add: bytes_at_def unat_of_nat)
    then have "s + of_nat i \<notin> W" using assms(3) by blast
    then show ?thesis using assms(1,2) that by (simp add: released_def owned_slot_def kept_def)
  qed
  then show ?thesis by (simp add: rd64_def rd_cong [of 8 "phys k'" s "phys k"])
qed

lemma pt_lookup_cut:
  assumes "rd64 m (page_mask e3 + entry_off 12 va) = 0"
    and "pml4 + entry_off 39 va \<noteq> page_mask e3 + entry_off 12 va \<Longrightarrow> rd64 m (pml4 + entry_off 39 va) = e1"
    and "page_mask e1 + entry_off 30 va \<noteq> page_mask e3 + entry_off 12 va \<Longrightarrow>
           rd64 m (page_mask e1 + entry_off 30 va) = e2"
    and "page_mask e2 + entry_off 21 va \<noteq> page_mask e3 + entry_off 12 va \<Longrightarrow>
           rd64 m (page_mask e2 + entry_off 21 va) = e3"
    and "frame_of e1 = page_mask e1" "frame_of e2 = page_mask e2" "frame_of e3 = page_mask e3"
  shows "pt_lookup m pml4 va = None"
proof -
  have z: "rd64 m s = 0" if "s = page_mask e3 + entry_off 12 va" for s using assms(1) that by simp
  have np: "\<not> present 0" by (simp add: present_def)
  consider "rd64 m (pml4 + entry_off 39 va) = 0" | "rd64 m (pml4 + entry_off 39 va) = e1"
    using assms(2) z by blast
  then show ?thesis
  proof cases
    case 2
    consider "rd64 m (page_mask e1 + entry_off 30 va) = 0" | "rd64 m (page_mask e1 + entry_off 30 va) = e2"
      using assms(3) z by blast
    then show ?thesis
    proof cases
      case e2: 2
      consider "rd64 m (page_mask e2 + entry_off 21 va) = 0" | "rd64 m (page_mask e2 + entry_off 21 va) = e3"
        using assms(4) z by blast
      then show ?thesis
        by cases (simp_all add: pt_lookup_def Let_def 2 e2 assms(1,5-) np)
    qed (simp add: pt_lookup_def Let_def 2 assms(5) np)
  qed (simp add: pt_lookup_def np)
qed

text \<open>
  C2: Unmapping a mapped page always returns, leaves the address unmapped for the processor and
  releases exactly the page the entry pointed to: no other page changes state and no other
  byte outside the bitmap and the temporary entry changes than the eight of the leaf entry.
\<close>

theorem unmapPage_unmaps:
  assumes ok: "paging_ok k" and w: "owned_walk k PML4_ADDR va"
    and lk: "pt_lookup (phys k) PML4_ADDR va = Some e"
  shows "\<exists>k' s. unmapPage va k = Some k' \<and> pt_lookup (phys k') PML4_ADDR va = None \<and>
     rd64 (phys k) s = e \<and> released (unat e div 4096) (bytes_at s 8) k k'"
proof -
  obtain e1 e2 e3 where t: "rd64 (phys k) (PML4_ADDR + entry_off 39 va) = e1" "present e1"
    "rd64 (phys k) (page_mask e1 + entry_off 30 va) = e2" "present e2"
    "rd64 (phys k) (page_mask e2 + entry_off 21 va) = e3" "present e3"
    "owned_slot k (PML4_ADDR + entry_off 39 va)" "owned_slot k (page_mask e1 + entry_off 30 va)"
    "owned_slot k (page_mask e2 + entry_off 21 va)" "owned_slot k (page_mask e3 + entry_off 12 va)"
    "frame_of e1 = page_mask e1" "frame_of e2 = page_mask e2" "frame_of e3 = page_mask e3"
    using tables_walk [OF w pt_lookup_tables [OF lk]] by blast
  let ?s4 = "page_mask e3 + entry_off 12 va"
  have "pt_lookup (phys k) PML4_ADDR va = (if present (rd64 (phys k) ?s4) then Some (rd64 (phys k) ?s4) else None)"
    by (rule pt_lookup_entries [OF t(2,4,6)]) (simp_all add: t)
  then have e4: "rd64 (phys k) ?s4 = e" "present e" using lk by (auto split: if_splits)
  have q: "paging_ok (tmapped s q)" "owned_slot q s' \<Longrightarrow> owned_slot (tmapped s q) s'"
      "owned_slot q s' \<Longrightarrow> rd64 (phys (tmapped s q)) s' = rd64 (phys q) s'" if "paging_ok q" for s s' q
    using paging_ok_keeps [OF that keeps_tmapped [OF that]] owned_slot_keeps [OF _ keeps_tmapped [OF that]]
      rd64_tmapped [OF that] by auto
  let ?k4 = "tmapped ?s4 (tmapped (page_mask e2 + entry_off 21 va) (tmapped (page_mask e1 + entry_off 30 va)
     (tmapped (PML4_ADDR + entry_off 39 va) k)))"
  have k4: "keeps {} {} k ?k4"
    using keeps_trans [OF keeps_trans [OF keeps_trans [OF keeps_tmapped keeps_tmapped] keeps_tmapped] keeps_tmapped]
      ok q(1) by simp
  let ?k5 = "markPhysPageFree_paddr (page_mask e) ?k4"
  have run: "unmapPage va k = Some (stored ?s4 0 ?k5)"
    using t e4 ok owned_slot_low [OF t(10)]
    by (simp add: unmapPage_def phyread64_owned q phyzero_slot)
  have own4: "owned_slot ?k4 s" if "owned_slot k s" for s using owned_slot_keeps [OF that k4] .
  have rel: "released (unat e div 4096) {} ?k4 ?k5" by (rule released_mark) (simp add: paddr_page)
  note st = released_stored [OF paging_ok_keeps [OF ok k4] own4 [OF t(10)] rel, of 0]
  let ?k' = "stored ?s4 0 ?k5"
  have still: "rd64 (phys ?k') s = rd64 (phys k) s" if "owned_slot k s" "s \<noteq> ?s4" for s
    using rd64_released [OF st(1) own4 [OF that(1)]] rd64_keeps [OF k4 that(1)]
      slots_disjoint [of ?s4 s] owned_slot_low [OF t(10)] owned_slot_low [OF that(1)] that(2) by auto
  have zero: "rd64 (phys ?k') ?s4 = 0" using st(2) .
  have none: "pt_lookup (phys ?k') PML4_ADDR va = None"
    by (rule pt_lookup_cut [OF zero _ _ _ t(11-13)])
       (metis still t(1,7), metis still t(3,8), metis still t(5,9))
  have "released (unat e div 4096) (bytes_at ?s4 8) k ?k'"
    using st(1) keeps_used [OF k4] keeps_params [OF k4]
    by (auto simp: released_def tmapped_phys)
  then show ?thesis using run none e4(1) by blast
qed

theorem unmapPage_unmaps_witness:
  "\<exists>k'. unmapPage 0x9000 boot_kmem = Some k' \<and> pt_lookup (phys k') PML4_ADDR 0x9000 = None \<and>
        \<not> page_used k' 9 \<and> page_used k' 4"
proof -
  have "9 < npages boot_kmem" by (simp add: npages_def boot_kmem_def)
  then show ?thesis
    using unmapPage_unmaps [of boot_kmem "0x9000" "0x9003"] boot_ok boot_walk(2) boot_lookup(1) boot_used
    by (force simp: PML4_ADDR_def released_def)
qed

subsection \<open>Translating an address\<close>

text \<open>
  \<open>getPAddr\<close> masks 11 bits of an entry where the processor masks 12 (and the top 12): the two
  agree on entries whose bit 11 is clear, and \<open>getPAddr\<close> keeps bit 11 of the leaf.
\<close>

fun walk_plain :: "nat list \<Rightarrow> mem \<Rightarrow> u64 \<Rightarrow> u64 \<Rightarrow> bool" where
  "walk_plain [] m t va = True"
| "walk_plain (sh # shs) m t va =
     (let e = rd64 m (t + entry_off sh va)
      in present e \<longrightarrow> \<not> bit e 11 \<and> walk_plain shs m (page_mask e) va)"

lemma mask_7FF_page:
  assumes "\<not> bit e 11"
  shows "mask_7FF e = page_mask e"
proof -
  have m: "(0x7FF :: u64) = mask 11" by (simp add: mask_eq_exp_minus_1)
  show ?thesis unfolding mask_7FF_def m
  proof (rule bit_eqI)
    fix n :: nat
    have "11 \<le> n \<Longrightarrow> n \<noteq> 11 \<Longrightarrow> 12 \<le> n" by simp
    then show "bit (e AND NOT (mask 11)) n = bit (page_mask e) n"
      using assms by (cases "n = 11")
        (auto simp: bit_and_iff bit_not_iff bit_mask_iff bit_page_mask not_less dest: bit_imp_le_length)
  qed
qed

lemma getPAddr_walk:
  assumes ok: "paging_ok k" and w: "owned_walk k PML4_ADDR va"
    and plain: "walk_plain [39, 30, 21, 12] (phys k) PML4_ADDR va"
  shows "\<exists>k'. getPAddr va k =
      Some (case pt_lookup (phys k) PML4_ADDR va of None \<Rightarrow> 0 | Some e \<Rightarrow> page_mask e, k') \<and> keeps {} {} k k'"
proof -
  have q: "paging_ok (tmapped s q)" "owned_slot q s' \<Longrightarrow> owned_slot (tmapped s q) s'"
      "owned_slot q s' \<Longrightarrow> rd64 (phys (tmapped s q)) s' = rd64 (phys q) s'" if "paging_ok q" for s s' q
    using paging_ok_keeps [OF that keeps_tmapped [OF that]] owned_slot_keeps [OF _ keeps_tmapped [OF that]]
      rd64_tmapped [OF that] by auto
  have kt: "keeps {} {} k (tmapped s q)" if "keeps {} {} k q" for s q
    using keeps_trans [OF that keeps_tmapped [OF paging_ok_keeps [OF ok that]]] by simp
  have k0: "keeps {} {} k k" by (simp add: keeps_def)
  let ?s1 = "PML4_ADDR + entry_off 39 va"
  define e1 where "e1 = rd64 (phys k) ?s1"
  let ?s2 = "page_mask e1 + entry_off 30 va"
  define e2 where "e2 = rd64 (phys k) ?s2"
  let ?s3 = "page_mask e2 + entry_off 21 va"
  define e3 where "e3 = rd64 (phys k) ?s3"
  let ?s4 = "page_mask e3 + entry_off 12 va"
  define e4 where "e4 = rd64 (phys k) ?s4"
  let ?k1 = "tmapped ?s1 k" and ?k2 = "tmapped ?s2 (tmapped ?s1 k)"
  let ?k3 = "tmapped ?s3 ?k2"
  note ks = kt [OF k0] kt [OF kt [OF k0]] kt [OF kt [OF kt [OF k0]]] kt [OF kt [OF kt [OF kt [OF k0]]]]
  have own1: "owned_slot k ?s1" using w by (simp add: owned_walk_def Let_def)
  have r: "phyread64 s q = Some (rd64 (phys k) s, tmapped s q)" if "owned_slot k s" "keeps {} {} k q" for s q
    using phyread64_owned [OF owned_slot_keeps [OF that]] rd64_tmapped [OF paging_ok_keeps [OF ok that(2)]
      owned_slot_keeps [OF that]] rd64_keeps [OF that(2,1)] by simp
  show ?thesis
  proof (cases "present e1")
    case False
    then show ?thesis using r [OF own1 k0] ks(1)
      by (simp add: getPAddr_def pt_lookup_def Let_def flip: e1_def)
  next
    case p1: True
    have w2: "walk_owned [30, 21, 12] k (page_mask e1) va" and pl1: "\<not> bit e1 11"
      and pl2: "walk_plain [30, 21, 12] (phys k) (page_mask e1) va"
      using w plain p1 by (simp_all add: owned_walk_def e1_def Let_def)
    note f1 = frame_of_walk [OF w2] mask_7FF_page [OF pl1]
    have own2: "owned_slot k ?s2" using w2 by (simp add: Let_def)
    show ?thesis
    proof (cases "present e2")
      case False
      then show ?thesis using r [OF own1 k0] r [OF own2 ks(1)] ks(2) p1
        by (simp add: getPAddr_def pt_lookup_def Let_def f1 flip: e1_def e2_def)
    next
      case p2: True
      have w3: "walk_owned [21, 12] k (page_mask e2) va" and pl3: "\<not> bit e2 11"
        and pl4: "walk_plain [21, 12] (phys k) (page_mask e2) va"
        using w2 pl2 p2 by (simp_all add: e2_def Let_def)
      note f2 = frame_of_walk [OF w3] mask_7FF_page [OF pl3]
      have own3: "owned_slot k ?s3" using w3 by (simp add: Let_def)
      show ?thesis
      proof (cases "present e3")
        case False
        then show ?thesis using r [OF own1 k0] r [OF own2 ks(1)] r [OF own3 ks(2)] ks(3) p1 p2
          by (simp add: getPAddr_def pt_lookup_def Let_def f1 f2 flip: e1_def e2_def e3_def)
      next
        case p3: True
        have w4: "walk_owned [12] k (page_mask e3) va" and pl5: "\<not> bit e3 11"
          and pl6: "present e4 \<Longrightarrow> \<not> bit e4 11"
          using w3 pl4 p3 by (simp_all add: e3_def e4_def Let_def)
        note f3 = frame_of_walk [OF w4] mask_7FF_page [OF pl5]
        have own4: "owned_slot k ?s4" using w4 by (simp add: Let_def)
        then show ?thesis
          using r [OF own1 k0] r [OF own2 ks(1)] r [OF own3 ks(2)] r [OF own4 ks(3)] ks(4) p1 p2 p3
            mask_7FF_page [OF pl6]
          by (simp add: getPAddr_def pt_lookup_def Let_def f1 f2 f3 flip: e1_def e2_def e3_def e4_def)
      qed
    qed
  qed
qed

text \<open>
  C28: \<open>getPAddr\<close> agrees with the processor: on tables whose entries leave bit 11 clear it
  always returns, gives the physical page the kernel's tables map the address to, and 0 exactly when
  the address is not mapped (or is mapped to page 0); it leaves every owned byte and the
  allocation state as they were.
\<close>

theorem getPAddr_translates:
  assumes ok: "paging_ok k" and w: "owned_walk k PML4_ADDR va"
    and plain: "walk_plain [39, 30, 21, 12] (phys k) PML4_ADDR va"
  shows "\<exists>k'. getPAddr va k =
      Some (case pt_lookup (phys k) PML4_ADDR va of None \<Rightarrow> 0 | Some e \<Rightarrow> page_mask e, k') \<and> keeps {} {} k k'"
  by (rule getPAddr_walk [OF assms])

theorem getPAddr_translates_witness:
  "\<exists>k'. getPAddr 0x9000 boot_kmem = Some (0x9000, k')"
proof -
  have b: "\<not> bit (0x2003 :: u64) 11" "\<not> bit (0x3003 :: u64) 11" "\<not> bit (0x4003 :: u64) 11"
      "\<not> bit (0x9003 :: u64) 11" by code_simp+
  have "walk_plain [39, 30, 21, 12] (phys boot_kmem) PML4_ADDR 0x9000"
    by (simp add: PML4_ADDR_def Let_def boot_offs boot_masks boot_reads b)
  moreover have "page_mask 0x9003 = 0x9000" by code_simp
  ultimately show ?thesis
    using getPAddr_translates [of boot_kmem "0x9000"] boot_ok boot_walk(2) boot_lookup(1)
    by (auto simp: PML4_ADDR_def)
qed

subsection \<open>Page directories\<close>

definition entry_addr :: "nat \<Rightarrow> nat \<Rightarrow> u64" where
  "entry_addr p i = of_nat p * 0x1000 + of_nat i * 8"

text \<open>Page \<open>p\<close> is a table whose only entry is \<open>e\<close>, its first.\<close>

definition one_entry :: "kmem \<Rightarrow> nat \<Rightarrow> u64 \<Rightarrow> bool" where
  "one_entry k p e \<longleftrightarrow> (\<forall>i < 512. rd64 (phys k) (entry_addr p i) = (if i = 0 then e else 0))"

lemma entry_addr_unat:
  assumes "p < 2 ^ 32" "i < 512" "j < 8"
  shows "unat (entry_addr p i + of_nat j) = p * 4096 + i * 8 + j"
proof -
  have "unat (of_nat i * 8 + of_nat j :: u64) = i * 8 + j"
    using assms(2,3) by (simp add: unat_word_ariths unat_of_nat)
  then have "unat (of_nat p * 0x1000 + (of_nat i * 8 + of_nat j) :: u64) = p * 4096 + (i * 8 + j)"
    using page_addr(1) [OF assms(1)] assms by (subst unat_word_ariths(1)) simp
  then show ?thesis by (simp add: entry_addr_def add.assoc)
qed

lemma entry_addr_page:
  assumes "p < 2 ^ 32" "i < 512" "j < 8"
  shows "unat (entry_addr p i + of_nat j) div 4096 = p"
proof -
  have "i * 8 + j < 4096" using assms(2,3) by linarith
  then show ?thesis using entry_addr_unat [OF assms] by simp
qed

lemma entry_addr_aligned: "entry_addr p i AND 7 = 0"
proof -
  have m: "(7 :: u64) = mask 3" by (simp add: mask_eq_exp_minus_1)
  have "entry_addr p i = push_bit 3 (of_nat p * 512 + of_nat i)"
    by (simp add: entry_addr_def push_bit_eq_mult algebra_simps)
  then have "take_bit 3 (entry_addr p i) = 0"
    by (auto intro!: bit_eqI simp: bit_take_bit_iff bit_push_bit_iff)
  then show ?thesis by (simp add: m take_bit_eq_mask)
qed

lemma owned_entry:
  assumes "\<And>x. unat x div 4096 = p \<Longrightarrow> kept k x" "p < 2 ^ 32" "i < 512"
  shows "owned_slot k (entry_addr p i)"
  using assms entry_addr_page [OF assms(2,3)] by (simp add: owned_slot_def entry_addr_aligned)

lemma one_entry_keeps:
  assumes "one_entry k p e" "keeps W A k k'" "\<And>i. i < 512 \<Longrightarrow> owned_slot k (entry_addr p i)"
    and "p < 2 ^ 32" "\<And>x. x \<in> W \<Longrightarrow> unat x div 4096 \<noteq> p"
  shows "one_entry k' p e"
proof -
  have "W \<inter> bytes_at (entry_addr p i) 8 = {}" if "i < 512" for i
    using assms(5) entry_addr_page [OF assms(4) that] by (auto elim!: bytes_atE)
  then show ?thesis
    using rd64_keeps [OF assms(2) assms(3)] assms(1) by (simp add: one_entry_def)
qed

lemma tmpmap_of_page: "tmpmap (of_nat p * 0x1000) k = Some (tmapped (of_nat p * 0x1000) k)"
  using tmpmap_page [of "of_nat p * 0x1000" k] by (simp add: page_mask_of_page)

lemma tmp_page_store_page:
  assumes ok: "paging_ok k" and p: "p < npages k" and nb: "\<And>x. in_bitmap k x \<Longrightarrow> unat x div 4096 \<noteq> p"
  shows "keeps {x. unat x div 4096 = p} {} k (tmp_page_store v (tmapped (of_nat p * 0x1000) k))"
    "one_entry (tmp_page_store v (tmapped (of_nat p * 0x1000) k)) p v"
proof -
  let ?a = "of_nat p * 0x1000 :: u64"
  let ?z = "zeroed ?a k"
  have p32: "p < 2 ^ 32" using p npages_bound [of k] by simp
  have st: "tmp_page_store v (tmapped ?a k) = ?z\<lparr>phys := wr64 (phys ?z) ?a v\<rparr>"
    using tmp_frame_tmapped [OF page_addr(2) [OF p32], of k]
    by (simp add: tmp_page_store_def zeroed_def memzero_wr page_mask_of_page)
  note z = keeps_zeroed [OF ok p nb]
  have sub: "bytes_at ?a 8 \<subseteq> {x. unat x div 4096 = p}"
    unfolding bytes_of_page [OF p32, symmetric] by (auto simp: bytes_at_def)
  have "keeps (bytes_at ?a (length (le_bytes 8 v))) {} ?z (?z\<lparr>phys := wr (phys ?z) ?a (le_bytes 8 v)\<rparr>)"
    by (rule keeps_write) (use sub nb keeps_params(2) [OF z(1)] in auto)
  from keeps_trans [OF z(1) this] sub
  show "keeps {x. unat x div 4096 = p} {} k (tmp_page_store v (tmapped ?a k))"
    by (simp add: st wr64_def Un_absorb2)
  show "one_entry (tmp_page_store v (tmapped ?a k)) p v"
    unfolding one_entry_def
  proof (intro allI impI)
    fix i :: nat assume i: "i < 512"
    show "rd64 (phys (tmp_page_store v (tmapped ?a k))) (entry_addr p i) = (if i = 0 then v else 0)"
    proof (cases "i = 0")
      case True
      then show ?thesis by (simp add: st entry_addr_def rd64_wr64_same)
    next
      case False
      have "apart ?a 8 (entry_addr p i) 8"
        by (rule apart_nat) (use entry_addr_unat [OF p32 i, of 0] page_addr(1) [OF p32] p32 i False in auto)
      then have "rd64 (phys (tmp_page_store v (tmapped ?a k))) (entry_addr p i) = rd64 (phys ?z) (entry_addr p i)"
        by (simp add: st rd64_wr64_apart)
      also have "\<dots> = rd64 (\<lambda>_. 0) (entry_addr p i)"
        unfolding rd64_def by (intro arg_cong [where f = le_word] rd_cong)
          (use z(2) entry_addr_page [OF p32 i] in auto)
      also have "\<dots> = 0" by (simp add: rd64_def rd_def numeral_eq_Suc)
      finally show ?thesis using False by simp
    qed
  qed
qed

lemma mark_used_paddr_page:
  assumes "p < npages k"
  shows "markPhysPageUsed_paddr (of_nat p * 0x1000) k = set_page p True k"
    "markPhysPageFree_paddr (of_nat p * 0x1000) k = set_page p False k"
  using page_addr(1) [of p] npages_bound [of k] assms
  by (simp_all add: mark_paddr_set_page npages_def)

lemma createPageDir_cases:
  assumes ok: "paging_ok k"
  shows "\<exists>r k'. createPageDir k = Some (r, k') \<and>
    (if r = 0 then (\<forall>q < npages k. page_used k' q = page_used k q)
     else \<exists>p q. r = of_nat p * 0x1000 \<and> p \<noteq> q \<and> free_page k p \<and> free_page k q \<and> keeps {} {p, q} k k' \<and>
       one_entry k' p ((of_nat q * 0x1000) OR 7) \<and> one_entry k' q (PD0_ADDR OR 7))"
proof (cases "getFreePhysPage k = 0")
  case True
  then show ?thesis by (simp add: createPageDir_def Let_def)
next
  case False
  let ?a = "getFreePhysPage k"
  obtain p where p: "?a = of_nat p * 0x1000" "free_page k p" "unat ?a = p * 4096"
    using getFreePhysPage_free [OF ok refl False] .
  have pn: "p < npages k" using p(2) by (simp add: free_page_def)
  let ?k1 = "set_page p True k"
  have k1: "keeps {} {p} k ?k1" using keeps_set_page [OF pn] .
  have m1: "markPhysPageUsed_paddr ?a k = ?k1" using mark_used_paddr_page [OF pn] by (simp add: p(1))
  have ok1: "paging_ok ?k1" using paging_ok_keeps [OF ok k1] .
  show ?thesis
  proof (cases "getFreePhysPage ?k1 = 0")
    case True
    have "p < npages ?k1" using pn keeps_params(1) [OF k1] by simp
    then have "markPhysPageFree_paddr ?a ?k1 = set_page p False ?k1"
      using mark_used_paddr_page(2) by (simp add: p(1))
    moreover have "page_used (set_page p False ?k1) q = page_used k q" if "q < npages k" for q
      using that pn p(2) npages_bound [of k] by (auto simp: page_used_set_page free_page_def)
    ultimately show ?thesis using False True by (simp add: createPageDir_def Let_def m1)
  next
    case b: False
    let ?b = "getFreePhysPage ?k1"
    obtain q where q: "?b = of_nat q * 0x1000" "free_page ?k1 q" "unat ?b = q * 4096"
      using getFreePhysPage_free [OF ok1 refl b] .
    have qn1: "q < npages ?k1" using q(2) by (simp add: free_page_def)
    have pq: "p \<noteq> q" and fq: "free_page k q"
      using q(2) keeps_used [OF k1, of q] keeps_params(1) [OF k1] by (auto simp: free_page_def)
    have qn: "q < npages k" using fq by (simp add: free_page_def)
    have p32: "p < 2 ^ 32" "q < 2 ^ 32" using pn qn npages_bound [of k] by simp_all
    let ?k2 = "set_page q True ?k1"
    have m2: "markPhysPageUsed_paddr ?b ?k1 = ?k2" using mark_used_paddr_page [OF qn1] by (simp add: q(1))
    have k2: "keeps {} {p, q} k ?k2" using keeps_trans [OF k1 keeps_set_page [OF qn1]] by (simp add: insert_commute)
    have ok2: "paging_ok ?k2" using paging_ok_keeps [OF ok k2] .
    have nb: "unat x div 4096 \<notin> {p, q}" if "in_bitmap k x" for x
      using that free_page_kept(1) [OF ok p(2)] free_page_kept(1) [OF ok fq] by auto
    have nb2: "in_bitmap ?k2 x \<Longrightarrow> unat x div 4096 \<noteq> p" for x using nb [of x] keeps_params(2) [OF k2] by auto
    have pn2: "p < npages ?k2" using pn keeps_params(1) [OF k2] by simp
    let ?k4 = "tmp_page_store (?b OR 7) (tmapped ?a ?k2)"
    note s4 = tmp_page_store_page [OF ok2 pn2 nb2, of "?b OR 7", folded p(1)]
    have k4: "keeps {x. unat x div 4096 = p} {p, q} k ?k4" using keeps_trans [OF k2 s4(1)] by simp
    have ok4: "paging_ok ?k4" using paging_ok_keeps [OF ok k4] .
    have nb4: "in_bitmap ?k4 x \<Longrightarrow> unat x div 4096 \<noteq> q" for x using nb [of x] keeps_params(2) [OF k4] by auto
    have qn4: "q < npages ?k4" using qn keeps_params(1) [OF k4] by simp
    let ?k6 = "tmp_page_store (PD0_ADDR OR 7) (tmapped ?b ?k4)"
    note s6 = tmp_page_store_page [OF ok4 qn4 nb4, of "PD0_ADDR OR 7", folded q(1)]
    have kept4: "kept ?k4 x" if "unat x div 4096 = p" for x
      using fresh_kept [OF ok p(2) that k4] by simp
    have "keeps ({x. unat x div 4096 = p} \<union> {x. unat x div 4096 = q}) {p, q} k ?k6"
      using keeps_trans [OF k4 s6(1)] by simp
    then have k6: "keeps {} {p, q} k ?k6"
      by (rule keeps_weaken) (use p(2) fq in \<open>auto simp: kept_def free_page_def\<close>)
    have "one_entry ?k6 p (?b OR 7)"
      by (rule one_entry_keeps [OF s4(2) s6(1) owned_entry [OF kept4 p32(1)] p32(1)]) (use pq in auto)
    moreover have "createPageDir k = Some (?a, ?k6)"
      using False b tmpmap_of_page [of p, folded p(1)] tmpmap_of_page [of q, folded q(1)]
      by (simp add: createPageDir_def Let_def m1 m2)
    ultimately show ?thesis using False p q pq fq k6 s6(2) by auto
  qed
qed

text \<open>
  C26: \<open>createPageDir\<close> always returns.  Either it reports failure and no page has changed
  state, or it has taken exactly two free pages: the directory, whose only entry leads to the
  second page, whose only entry leads to the kernel's page directory, all three accessible
  from user mode; nothing else that is in use was touched.
\<close>

theorem createPageDir_builds:
  assumes ok: "paging_ok k"
  shows "\<exists>r k'. createPageDir k = Some (r, k') \<and>
    (if r = 0 then (\<forall>q < npages k. page_used k' q = page_used k q)
     else \<exists>p q. r = of_nat p * 0x1000 \<and> p \<noteq> q \<and> free_page k p \<and> free_page k q \<and> keeps {} {p, q} k k' \<and>
       one_entry k' p ((of_nat q * 0x1000) OR 7) \<and> one_entry k' q (PD0_ADDR OR 7))"
  by (rule createPageDir_cases [OF ok])

lemma boot_free: "getFreePhysPage boot_kmem = 0x5000"
  "getFreePhysPage (set_page 5 True boot_kmem) = 0x6000"
proof -
  have u: "\<not> page_used boot_kmem 5" "\<not> page_used boot_kmem 6"
    by (simp_all add: boot_kmem_def page_used_def bitmap_byte_def bit_iff_odd_drop_bit)
  have lt5: "q < 5 \<Longrightarrow> page_used boot_kmem q" for q :: nat
    using boot_used by (auto simp: numeral_eq_Suc less_Suc_eq)
  have n: "unat (maxPhysPages boot_kmem) = 512" by (simp add: boot_kmem_def)
  show "getFreePhysPage boot_kmem = 0x5000"
    using getFreePhysPage_lowest [of 5 boot_kmem] lt5 u n by simp
  have "page_used (set_page 5 True boot_kmem) q" if "q < 6" for q
    using that lt5 [of q] by (cases "q = 5") (auto simp: page_used_set_page)
  then show "getFreePhysPage (set_page 5 True boot_kmem) = 0x6000"
    using getFreePhysPage_lowest [of 6 "set_page 5 True boot_kmem"] u n
    by (simp add: page_used_set_page)
qed

lemma createPageDir_eq:
  assumes "getFreePhysPage k = a" "a \<noteq> 0" "markPhysPageUsed_paddr a k = k1"
    and "getFreePhysPage k1 = b" "b \<noteq> 0" "page_mask a = a" "page_mask b = b"
  shows "\<exists>k'. createPageDir k = Some (a, k')"
  using assms tmpmap_page [of a] tmpmap_page [of b]
  by (simp add: createPageDir_def Let_def)

lemma boot_create: "\<exists>k'. createPageDir boot_kmem = Some (0x5000, k')"
proof -
  have "5 < npages boot_kmem" by (simp add: npages_def boot_kmem_def)
  then have "markPhysPageUsed_paddr 0x5000 boot_kmem = set_page 5 True boot_kmem"
    using mark_used_paddr_page(1) [of 5] by simp
  moreover have "page_mask 0x5000 = 0x5000" "page_mask 0x6000 = 0x6000" by code_simp+
  ultimately show ?thesis using createPageDir_eq [OF boot_free(1) _ _ boot_free(2)] by simp
qed

theorem createPageDir_builds_witness:
  "\<exists>k' q. createPageDir boot_kmem = Some (0x5000, k') \<and> page_used k' 5 \<and>
     one_entry k' 5 ((of_nat q * 0x1000) OR 7) \<and> one_entry k' q (PD0_ADDR OR 7)"
proof -
  obtain k' where k': "createPageDir boot_kmem = Some (0x5000, k')" using boot_create ..
  obtain r k'' where rk: "createPageDir boot_kmem = Some (r, k'')"
    and c: "if r = 0 then (\<forall>q < npages boot_kmem. page_used k'' q = page_used boot_kmem q)
     else \<exists>p q. r = of_nat p * 0x1000 \<and> p \<noteq> q \<and> free_page boot_kmem p \<and> free_page boot_kmem q \<and>
       keeps {} {p, q} boot_kmem k'' \<and> one_entry k'' p ((of_nat q * 0x1000) OR 7) \<and> one_entry k'' q (PD0_ADDR OR 7)"
    using createPageDir_builds [OF boot_ok] by blast
  have r: "r = 0x5000" "k'' = k'" using rk k' by auto
  then have "r \<noteq> 0" by simp
  then obtain p q where pq: "of_nat p * 0x1000 = r" "free_page boot_kmem p" "keeps {} {p, q} boot_kmem k'"
      "one_entry k' p ((of_nat q * 0x1000) OR 7)" "one_entry k' q (PD0_ADDR OR 7)"
    using c unfolding r(2) by metis
  have "p < 2 ^ 32" using pq(2) npages_bound [of boot_kmem] by (simp add: free_page_def)
  from page_addr(1) [OF this] have "p * 4096 = unat r" by (simp only: pq(1))
  then have "p = 5" by (simp add: r)
  then show ?thesis using k' pq(2-) keeps_used [OF pq(3), of 5] by (auto simp: free_page_def)
qed

subsection \<open>Destroying a directory\<close>

lemma phyread64_keeps:
  assumes "owned_slot k s" "paging_ok k"
  shows "\<exists>k'. phyread64 s k = Some (rd64 (phys k) s, k') \<and> keeps {} {} k k'"
  using phyread64_owned [OF assms(1)] rd64_tmapped [OF assms(2,1)] keeps_tmapped [OF assms(2)] by auto

text \<open>What stays true while the loops run over the two tables of a fresh directory.\<close>

definition visiting :: "kmem \<Rightarrow> nat \<Rightarrow> u64 \<Rightarrow> kmem \<Rightarrow> bool" where
  "visiting k p e k' \<longleftrightarrow> paging_ok k' \<and> p < npages k' \<and> keeps {} {} k k' \<and>
     (\<forall>x. unat x div 4096 = p \<longrightarrow> kept k' x) \<and> one_entry k' p e"

lemma visiting_keeps:
  assumes "visiting k p e k'" "keeps {} {} k' k''"
  shows "visiting k p e k''"
proof -
  have p: "p < 2 ^ 32" using assms(1) npages_bound [of k'] by (simp add: visiting_def)
  have own: "owned_slot k' (entry_addr p j)" if "j < 512" for j
    by (rule owned_entry) (use assms(1) p that in \<open>auto simp: visiting_def\<close>)
  have one: "one_entry k' p e" and ok: "paging_ok k'" using assms(1) by (simp_all add: visiting_def)
  show ?thesis
    using assms(1) paging_ok_keeps [OF ok assms(2)] keeps_params(1) [OF assms(2)]
      keeps_trans [of "{}" "{}" k k' "{}" "{}" k''] assms(2) keeps_kept [OF assms(2)]
      one_entry_keeps [OF one assms(2) own p] by (auto simp: visiting_def)
qed

lemma visiting_read:
  assumes "visiting k p e k'" "i < 512"
  shows "\<exists>k''. phyread64 (of_nat p * 0x1000 + of_nat i * 8) k' = Some (if i = 0 then e else 0, k'') \<and>
     visiting k p e k''"
proof -
  have p: "p < 2 ^ 32" using assms(1) npages_bound [of k'] by (simp add: visiting_def)
  have own: "owned_slot k' (entry_addr p j)" if "j < 512" for j
    by (rule owned_entry) (use assms(1) p that in \<open>auto simp: visiting_def\<close>)
  have ok: "paging_ok k'" using assms(1) by (simp add: visiting_def)
  obtain k'' where k'': "phyread64 (entry_addr p i) k' = Some (rd64 (phys k') (entry_addr p i), k'')"
      "keeps {} {} k' k''"
    using phyread64_keeps [OF own [OF assms(2)] ok] by blast
  have one: "one_entry k' p e" using assms(1) by (simp add: visiting_def)
  have "visiting k p e k''" by (rule visiting_keeps [OF assms(1) k''(2)])
  then show ?thesis using k''(1) one assms(2) by (auto simp: one_entry_def entry_addr_def)
qed

lemma upt_512: "[0..<512] = 0 # [1..<512]"
  using upt_conv_Cons [of 0 512] by (simp only: One_nat_def zero_less_numeral)

lemma for_each_0_rest:
  assumes "P s" "\<And>s. P s \<Longrightarrow> \<exists>s'. body 0 s = Some s' \<and> Q s'"
    "\<And>i s. 0 < i \<Longrightarrow> i < 512 \<Longrightarrow> Q s \<Longrightarrow> \<exists>s'. body i s = Some s' \<and> Q s'"
  shows "\<exists>t. for_each body [0..<512] s = Some t \<and> Q t"
proof -
  obtain s' where s': "body 0 s = Some s'" "Q s'" using assms(1,2) by blast
  have "\<exists>t. for_each body [1..<512] s' = Some t \<and> Q t"
    by (rule for_each_total [of Q]) (use s'(2) assms(3) in auto)
  then show ?thesis by (simp only: upt_512 for_each.simps s'(1) bind.bind_lunit)
qed

lemma page_mask_7:
  assumes "page_mask a = a"
  shows "page_mask (a OR 7) = a" "present (a OR 7)"
proof -
  have "(7 :: u64) = PAGE_ATTR_PRESENT OR (PAGE_ATTR_WRITE OR 4)" by (simp add: page_attr_defs)
  then show "page_mask (a OR 7) = a" using page_mask_flags [OF assms, of 4] by simp
  show "present (a OR 7)" by (simp add: present_bit bit_or_iff)
qed

lemma destroy_inner:
  assumes v: "visiting k q (PD0_ADDR OR 7) k0"
  shows "\<exists>t. for_each (destroyPageDir_PDPT ((of_nat q * 0x1000) OR 7)) [0..<512] k0 = Some t \<and>
     visiting k q (PD0_ADDR OR 7) t"
proof (rule for_each_total [of "visiting k q (PD0_ADDR OR 7)", OF v])
  fix i and s assume i: "i \<in> set [0..<512]" and s: "visiting k q (PD0_ADDR OR 7) s"
  have "page_mask PD0_ADDR = PD0_ADDR" by code_simp
  note pd = page_mask_7 [OF this]
  note m = page_mask_7 [OF page_mask_of_page [of q]]
  have np: "\<not> present 0" by (simp add: present_def)
  obtain s' where "phyread64 (of_nat q * 0x1000 + of_nat i * 8) s =
      Some (if i = 0 then PD0_ADDR OR 7 else 0, s')" "visiting k q (PD0_ADDR OR 7) s'"
    using visiting_read [OF s, of i] i by auto
  then show "\<exists>s'. destroyPageDir_PDPT ((of_nat q * 0x1000) OR 7) i s = Some s' \<and> visiting k q (PD0_ADDR OR 7) s'"
    by (cases "i = 0") (simp_all add: destroyPageDir_PDPT_def m pd np)
qed

lemma release_page:
  assumes ok: "paging_ok k" and q: "q < npages k" "q \<noteq> 0" "q \<noteq> 4" "\<And>x. in_bitmap k x \<Longrightarrow> unat x div 4096 \<noteq> q"
    and v: "visiting k0 p e k" and pq: "p \<noteq> q"
  shows "visiting (markPhysPageFree_paddr (of_nat q * 0x1000) k) p e (markPhysPageFree_paddr (of_nat q * 0x1000) k)"
    "r < npages k \<Longrightarrow> page_used (markPhysPageFree_paddr (of_nat q * 0x1000) k) r \<longleftrightarrow> page_used k r \<and> r \<noteq> q"
    "npages (markPhysPageFree_paddr (of_nat q * 0x1000) k) = npages k"
proof -
  let ?u = "markPhysPageFree_paddr (of_nat q * 0x1000) k"
  have u: "?u = set_page q False k" using mark_used_paddr_page(2) [OF q(1)] .
  have lt: "r < 2 ^ 32" if "r < npages k" for r using that npages_bound [of k] by simp
  have used: "page_used ?u r \<longleftrightarrow> page_used k r \<and> r \<noteq> q" if "r < npages k" for r
    using lt [OF q(1)] lt [OF that] by (simp add: u page_used_set_page)
  have par: "npages ?u = npages k" "in_bitmap ?u x = in_bitmap k x" for x
    by (simp_all add: u npages_def in_bitmap_def bitmap_size_def)
  have ph: "phys ?u x = phys k x" if "\<not> in_bitmap k x" for x
    using phys_set_page_outside [OF q(1) that] by (simp add: u)
  have ok': "paging_ok ?u" using ok q(2-4) by (auto simp: paging_ok_def par used)
  have p: "p < npages k" "\<And>x. unat x div 4096 = p \<Longrightarrow> kept k x" "one_entry k p e"
    using v by (auto simp: visiting_def)
  have kept: "kept ?u x" if "unat x div 4096 = p" for x
    using p(2) [OF that] pq that used [of p] p(1) by (simp add: kept_def par)
  have "rd64 (phys ?u) (entry_addr p i) = rd64 (phys k) (entry_addr p i)" if "i < 512" for i
    unfolding rd64_def
    by (intro arg_cong [where f = le_word] rd_cong ph)
       (use p(2) entry_addr_page [OF lt [OF p(1)] that] in \<open>simp add: kept_def\<close>)
  then have "one_entry ?u p e" using p(3) by (simp add: one_entry_def)
  then show "visiting ?u p e ?u" using ok' kept p(1) by (simp add: visiting_def par keeps_def)
  show "npages ?u = npages k" by (rule par(1))
  show "r < npages k \<Longrightarrow> page_used ?u r \<longleftrightarrow> page_used k r \<and> r \<noteq> q" by (rule used)
qed

lemma create_destroy:
  assumes ok: "paging_ok k" and create: "createPageDir k = Some (r, k1)" "r \<noteq> 0"
  shows "\<exists>k2. destroyPageDir r k1 = Some k2 \<and> (\<forall>q < npages k. page_used k2 q = page_used k q)"
proof -
  obtain p q where c: "r = of_nat p * 0x1000" "p \<noteq> q" "free_page k p" "free_page k q" "keeps {} {p, q} k k1"
      "one_entry k1 p ((of_nat q * 0x1000) OR 7)" "one_entry k1 q (PD0_ADDR OR 7)"
    using createPageDir_cases [OF ok] create by (auto split: if_splits)
  let ?ep = "(of_nat q * 0x1000) OR 7 :: u64" and ?eq = "PD0_ADDR OR 7"
  have ok1: "paging_ok k1" using paging_ok_keeps [OF ok c(5)] .
  have kept: "kept k1 x" if "unat x div 4096 \<in> {p, q}" for x
    using that fresh_kept [OF ok c(3) _ c(5)] fresh_kept [OF ok c(4) _ c(5)] by auto
  have v: "visiting k1 p ?ep k1" "visiting k1 q ?eq k1"
    using ok1 c kept keeps_params(1) [OF c(5)] by (auto simp: visiting_def keeps_def free_page_def)
  obtain ka where ka: "phyread64 (r + of_nat 0 * 8) k1 = Some (?ep, ka)" "visiting k1 p ?ep ka"
    using visiting_read [OF v(1), of 0] by (auto simp: c(1))
  have kka: "keeps {} {} k1 ka" using ka(2) by (simp add: visiting_def)
  obtain t where t: "for_each (destroyPageDir_PDPT ?ep) [0..<512] ka = Some t" "visiting k1 q ?eq t"
    using destroy_inner [OF visiting_keeps [OF v(2) kka]] by blast
  have kt: "keeps {} {} k1 t" using t(2) by (simp add: visiting_def)
  have vt: "visiting k1 p ?ep t" by (rule visiting_keeps [OF v(1) kt])
  have kkt: "keeps {} {p, q} k t" using keeps_trans [OF c(5) kt] by simp
  have okt: "paging_ok t" using vt by (simp add: visiting_def)
  have qn: "q < npages t" "q \<noteq> 0" "q \<noteq> 4" "\<And>x. in_bitmap t x \<Longrightarrow> unat x div 4096 \<noteq> q"
    using c(4) ok free_page_kept(1) [OF ok c(4)] keeps_params [OF kkt]
    by (auto simp: free_page_def paging_ok_def)
  let ?u = "markPhysPageFree_paddr (of_nat q * 0x1000) t"
  note u = release_page [OF okt qn vt c(2)]
  note m = page_mask_7 [OF page_mask_of_page [of q]]
  have np: "\<not> present 0" by (simp add: present_def)
  have s0: "destroyPageDir_PML4 r 0 k1 = Some ?u"
    using ka(1) t(1) by (simp add: destroyPageDir_PML4_def m)
  obtain w where w: "for_each (destroyPageDir_PML4 r) [0..<512] k1 = Some w" "visiting ?u p ?ep w"
  proof -
    have "\<exists>w. for_each (destroyPageDir_PML4 r) [0..<512] k1 = Some w \<and> visiting ?u p ?ep w"
    proof (rule for_each_0_rest [of "\<lambda>s. s = k1"])
      show "\<exists>s'. destroyPageDir_PML4 r 0 s = Some s' \<and> visiting ?u p ?ep s'" if "s = k1" for s
        using s0 u(1) that by blast
      show "\<exists>s'. destroyPageDir_PML4 r i s = Some s' \<and> visiting ?u p ?ep s'"
        if "0 < i" "i < 512" "visiting ?u p ?ep s" for i s
        using visiting_read [OF that(3,2)] that(1) by (auto simp: destroyPageDir_PML4_def c(1) np)
    qed simp
    then show ?thesis using that by blast
  qed
  have kw: "keeps {} {} ?u w" using w(2) by (simp add: visiting_def)
  have npw: "npages w = npages k" using keeps_params(1) [OF kw] u(3) keeps_params(1) [OF kkt] by simp
  have "page_used (markPhysPageFree_paddr r w) a = page_used k a" if "a < npages k" for a
  proof -
    have pn: "p < npages w" using c(3) npw by (simp add: free_page_def)
    have "page_used (markPhysPageFree_paddr r w) a \<longleftrightarrow> page_used w a \<and> a \<noteq> p"
      using that pn npw npages_bound [of w] by (simp add: c(1) mark_used_paddr_page page_used_set_page)
    also have "page_used w a \<longleftrightarrow> page_used t a \<and> a \<noteq> q"
      using keeps_used [OF kw, of a] u(2,3) that keeps_params(1) [OF kkt] by simp
    also have "page_used t a \<longleftrightarrow> page_used k a \<or> a \<in> {p, q}" using keeps_used [OF kkt that] .
    finally show ?thesis using c(3,4) by (auto simp: free_page_def)
  qed
  then show ?thesis using w(1) by (simp add: destroyPageDir_def)
qed

text \<open>
  C21: \<open>destroyPageDir\<close> undoes \<open>createPageDir\<close>: on a directory that was just created it
  always returns, and every page is in use exactly when it was before the directory existed; the
  kernel's own tables, which the directory shares, are not released.
\<close>

theorem create_destroy_roundtrip:
  assumes "paging_ok k" "createPageDir k = Some (r, k1)" "r \<noteq> 0"
  shows "\<exists>k2. destroyPageDir r k1 = Some k2 \<and> (\<forall>q < npages k. page_used k2 q = page_used k q)"
  by (rule create_destroy [OF assms])

theorem create_destroy_roundtrip_witness:
  "\<exists>k1 k2. createPageDir boot_kmem = Some (0x5000, k1) \<and> destroyPageDir 0x5000 k1 = Some k2 \<and>
     page_used k2 4 \<and> page_used k2 5 = page_used boot_kmem 5"
proof -
  obtain k1 where k1: "createPageDir boot_kmem = Some (0x5000, k1)"
    using boot_create ..
  show ?thesis using create_destroy_roundtrip [OF boot_ok k1] k1 boot_used
    by (auto simp: npages_def boot_kmem_def)
qed

end
