(* ===== verification/Malloc.thy ===== *)
theory Malloc
  imports PageWalk
begin

section \<open>The kernel heap: \<open>src/kernel/mm/malloc.cpp\<close> and \<open>src/kernel/lib/sizedArray.h\<close>\<close>

text \<open>
  The heap is a list of chunks laid end to end in virtual memory, each led by an 8-byte
  header whose bit fields the model reads and writes inside the 64-bit word, in the order the
  source assigns them.  \<open>hmem\<close> is the kernel's view of its virtual memory.  The paging
  operations the heap calls come as a record, so that the heap's lemmas hold for every provider;
  \<open>kernel_pager\<close> is the kernel's own.
  Mapping a page brings its contents into view.  A walk over a corrupt chunk list may never
  end: the loops are partial functions and \<open>None\<close> is halting, a fatal error or never
  returning.
\<close>

subsection \<open>What the heap asks of paging\<close>

record 'p pager_ops =
  pg_map :: "u64 \<Rightarrow> 'p \<Rightarrow> (u64 \<times> u8 list \<times> 'p) option"
  pg_unmapped :: "'p \<Rightarrow> (u64 \<times> 'p) option"
  pg_unmap :: "u64 \<Rightarrow> 'p \<Rightarrow> 'p option"

definition kernel_map :: "u64 \<Rightarrow> kmem \<Rightarrow> (u64 \<times> u8 list \<times> kmem) option" where
  "kernel_map va k = do {
     (r, k1) \<leftarrow> mapPage va 0 0 PML4_ADDR k;
     Some (r, (case pt_lookup (phys k1) PML4_ADDR r of
                 Some e \<Rightarrow> rd (phys k1) (frame_of e) 4096 | None \<Rightarrow> replicate 4096 0), k1) }"

definition kernel_pager :: "kmem pager_ops" where
  "kernel_pager = \<lparr>pg_map = kernel_map, pg_unmapped = getUnmappedVAddr, pg_unmap = unmapPage\<rparr>"

subsection \<open>Chunk headers\<close>

definition MALLOC_MINSIZE :: u64 where "MALLOC_MINSIZE = 0x20"
definition magic :: u64 where "magic = 0x2B4F"
definition hsize :: u64 where "hsize = 8"

definition put_field :: "nat \<Rightarrow> nat \<Rightarrow> u64 \<Rightarrow> u64 \<Rightarrow> u64" where
  "put_field off len v w = (w AND NOT (push_bit off (mask len))) OR push_bit off (take_bit len v)"

definition get_field :: "nat \<Rightarrow> nat \<Rightarrow> u64 \<Rightarrow> u64" where
  "get_field off len w = take_bit len (drop_bit off w)"

definition c_size :: "mem \<Rightarrow> u64 \<Rightarrow> u64" where "c_size m a = get_field 0 48 (rd64 m a)"
definition c_magic :: "mem \<Rightarrow> u64 \<Rightarrow> u64" where "c_magic m a = get_field 48 14 (rd64 m a)"
definition c_used :: "mem \<Rightarrow> u64 \<Rightarrow> bool" where "c_used m a \<longleftrightarrow> get_field 62 1 (rd64 m a) \<noteq> 0"
definition c_notOurs :: "mem \<Rightarrow> u64 \<Rightarrow> bool" where "c_notOurs m a \<longleftrightarrow> get_field 63 1 (rd64 m a) \<noteq> 0"

definition set_size :: "u64 \<Rightarrow> u64 \<Rightarrow> mem \<Rightarrow> mem" where
  "set_size a v m = wr64 m a (put_field 0 48 v (rd64 m a))"
definition set_magic :: "u64 \<Rightarrow> u64 \<Rightarrow> mem \<Rightarrow> mem" where
  "set_magic a v m = wr64 m a (put_field 48 14 v (rd64 m a))"
definition set_used :: "u64 \<Rightarrow> bool \<Rightarrow> mem \<Rightarrow> mem" where
  "set_used a v m = wr64 m a (put_field 62 1 (of_bool v) (rd64 m a))"
definition set_notOurs :: "u64 \<Rightarrow> bool \<Rightarrow> mem \<Rightarrow> mem" where
  "set_notOurs a v m = wr64 m a (put_field 63 1 (of_bool v) (rd64 m a))"

subsection \<open>The allocator's state\<close>

record 'p heap =
  hmem :: mem
  firstChunk :: u64
  endOfChunks :: u64
  totalMemUsed :: u64
  totalMemAllocated :: u64
  mallocReady :: bool
  allocRecords_size :: u64
  allocRecords_elems :: u64
  noRecordSelf :: bool
  pager :: 'p

definition isMallocReady :: "'p heap \<Rightarrow> bool" where "isMallocReady s = mallocReady s"
definition getMemUsed :: "'p heap \<Rightarrow> u64" where "getMemUsed s = totalMemUsed s"
definition getMemAllocated :: "'p heap \<Rightarrow> u64" where "getMemAllocated s = totalMemAllocated s"

text \<open>Calls into paging: a page that becomes mapped brings its contents.\<close>

definition map_page :: "'p pager_ops \<Rightarrow> u64 \<Rightarrow> 'p heap \<Rightarrow> (u64 \<times> 'p heap) option" where
  "map_page P va s = do {
     (r, contents, p) \<leftarrow> pg_map P va (pager s);
     Some (r, s\<lparr>pager := p, hmem := (if r = 0 then hmem s else wr (hmem s) r contents)\<rparr>) }"

definition unmapped_vaddr :: "'p pager_ops \<Rightarrow> 'p heap \<Rightarrow> (u64 \<times> 'p heap) option" where
  "unmapped_vaddr P s = do { (r, p) \<leftarrow> pg_unmapped P (pager s); Some (r, s\<lparr>pager := p\<rparr>) }"

definition unmap_page :: "'p pager_ops \<Rightarrow> u64 \<Rightarrow> 'p heap \<Rightarrow> 'p heap option" where
  "unmap_page P va s = do { p \<leftarrow> pg_unmap P va (pager s); Some (s\<lparr>pager := p\<rparr>) }"

definition upd :: "(mem \<Rightarrow> mem) \<Rightarrow> 'p heap \<Rightarrow> 'p heap" where
  "upd f s = s\<lparr>hmem := f (hmem s)\<rparr>"

definition malloc_init :: "'p pager_ops \<Rightarrow> 'p heap \<Rightarrow> 'p heap option" where
  "malloc_init P s = do {
     (r, s) \<leftarrow> map_page P 0 s;
     let s = s\<lparr>firstChunk := r, totalMemUsed := totalMemUsed s + PAGESIZE, endOfChunks := r + PAGESIZE - hsize\<rparr>;
     Some ((upd (set_notOurs r False \<circ> set_used r False \<circ> set_magic r magic \<circ> set_size r (PAGESIZE - hsize)) s)
       \<lparr>mallocReady := True, allocRecords_size := 0, allocRecords_elems := 0, noRecordSelf := False\<rparr>) }"

subsection \<open>\<open>malloc\<close>\<close>

text \<open>
  Lines 167--199: the loop that maps pages behind the last chunk.  Its variables are \<open>other\<close>,
  \<open>oldEndOfChunks\<close>, \<open>totalAlloced\<close> and \<open>needToAlloc\<close>.
\<close>

definition wrap_unmappable :: "u64 \<Rightarrow> 'p heap \<Rightarrow> u64 \<times> 'p heap" where
  "wrap_unmappable nextUnmapped s =
     (let e = endOfChunks s;
          diff = nextUnmapped - e - hsize;
          n = diff div PAGESIZE + of_bool (diff mod PAGESIZE \<noteq> 0);
          s = upd (set_used e True \<circ> set_size e (PAGESIZE * n + hsize) \<circ> set_notOurs e True \<circ> set_magic e magic) s
      in (n, s))"

partial_function (option) malloc_fetch ::
  "'p pager_ops \<Rightarrow> u64 \<Rightarrow> u64 \<Rightarrow> u64 \<Rightarrow> u64 \<Rightarrow> u64 \<Rightarrow> 'p heap \<Rightarrow> (u64 \<times> u64 \<times> u64 \<times> 'p heap) option" where
  "malloc_fetch P sz other oldEnd totalAlloced need s =
     (if need = 0 then Some (other, oldEnd, totalAlloced, s) else do {
        (r, s1) \<leftarrow> map_page P (endOfChunks s + hsize) s;
        (other, oldEnd, totalAlloced, need, s2) \<leftarrow>
          (if r \<noteq> endOfChunks s1 + hsize then do {
             (nextUnmapped, s2) \<leftarrow> unmapped_vaddr P s1;
             let (n, s3) = wrap_unmappable nextUnmapped s2;
             let e = endOfChunks s2;
             (r', s4) \<leftarrow> map_page P nextUnmapped s3;
             Some (e, e + c_size (hmem s3) e, - hsize, sz + hsize, s4\<lparr>endOfChunks := e + PAGESIZE * n\<rparr>) }
           else Some (other, oldEnd, totalAlloced, need, s1));
        let s3 = (if \<not> c_used (hmem s2) other
                  then upd (set_size other (c_size (hmem s2) other + PAGESIZE)) s2 else s2);
        malloc_fetch P sz other oldEnd (totalAlloced + PAGESIZE) (need - min need PAGESIZE)
          (s3\<lparr>totalMemUsed := totalMemUsed s3 + PAGESIZE, endOfChunks := endOfChunks s3 + PAGESIZE\<rparr>) })"

text \<open>Lines 161--221: the last chunk was too small; the result is the chunk to use.\<close>

definition malloc_grow :: "'p pager_ops \<Rightarrow> u64 \<Rightarrow> u64 \<Rightarrow> u64 \<Rightarrow> 'p heap \<Rightarrow> (u64 \<times> 'p heap) option" where
  "malloc_grow P sz realsize other s =
     (let need = sz + hsize;
          need = (if \<not> c_used (hmem s) other then need - min need (c_size (hmem s) other) else need)
      in do {
        (other, oldEnd, totalAlloced, s) \<leftarrow> malloc_fetch P sz other (endOfChunks s) 0 need s;
        if endOfChunks s AND 0xFFF \<noteq> 0xFF8 then None
        else if \<not> c_used (hmem s) other then
          (if c_size (hmem s) other < realsize then None else Some (other, s))
        else Some (oldEnd, upd (set_notOurs oldEnd False \<circ> set_used oldEnd False \<circ>
               set_size oldEnd totalAlloced \<circ> set_magic oldEnd magic) s) })"

text \<open>Lines 119--229: the search; \<open>other\<close> is \<open>0\<close> for \<open>nullptr\<close>.\<close>

partial_function (option) malloc_search ::
  "'p pager_ops \<Rightarrow> u64 \<Rightarrow> u64 \<Rightarrow> u64 \<Rightarrow> u64 \<Rightarrow> u64 \<Rightarrow> 'p heap \<Rightarrow> (u64 \<times> 'p heap) option" where
  "malloc_search P sz realsize chunk other nextUnmapped s =
     (if \<not> (c_used (hmem s) chunk \<or> c_size (hmem s) chunk < realsize) then Some (chunk, s)
      else if c_magic (hmem s) chunk \<noteq> magic then None
      else if c_size (hmem s) chunk = 0 then None
      else if other \<noteq> 0 \<and> \<not> c_used (hmem s) other \<and> \<not> c_used (hmem s) chunk \<and> chunk < endOfChunks s then
        malloc_search P sz realsize other 0 nextUnmapped
          (upd (set_size other (c_size (hmem s) other + c_size (hmem s) chunk)) s)
      else do {
        (nextUnmapped, s) \<leftarrow>
          (if c_notOurs (hmem s) chunk \<and> chunk + hsize = nextUnmapped then
             if c_size (hmem s) chunk \<noteq> PAGESIZE + hsize then None else do {
               (r, s1) \<leftarrow> map_page P nextUnmapped s;
               unmapped_vaddr P
                 (if r \<noteq> 0 then upd (set_notOurs chunk False \<circ> set_used chunk False) s1 else s1) }
           else Some (nextUnmapped, s));
        let next = chunk + c_size (hmem s) chunk;
        if next = endOfChunks s then malloc_grow P sz realsize chunk s
        else if next > endOfChunks s then None
        else malloc_search P sz realsize next chunk nextUnmapped s })"

text \<open>Lines 234--257: mark the chunk used and split off what is left.\<close>

definition malloc_take :: "u64 \<Rightarrow> u64 \<Rightarrow> 'p heap \<Rightarrow> (u64 \<times> 'p heap) option" where
  "malloc_take realsize chunk s =
     (let s = upd (set_used chunk True) s in do {
        s \<leftarrow> (if c_size (hmem s) chunk - realsize \<ge> MALLOC_MINSIZE then
               (let other = chunk + realsize;
                    s = upd (set_notOurs other False \<circ> set_used other False \<circ> set_magic other magic \<circ>
                          set_size other (c_size (hmem s) chunk - realsize)) s
                in if c_size (hmem s) other = 0 then None
                   else let s = upd (set_used chunk True \<circ> set_size chunk realsize) s
                        in if c_size (hmem s) chunk = 0 then None else Some s)
             else Some s);
        Some (chunk + hsize,
              s\<lparr>totalMemAllocated := totalMemAllocated s + (c_size (hmem s) chunk - hsize), mallocReady := True\<rparr>) })"

definition real_size :: "u64 \<Rightarrow> u64" where
  "real_size sz = (if hsize + sz < MALLOC_MINSIZE then MALLOC_MINSIZE else hsize + sz)"

definition malloc :: "'p pager_ops \<Rightarrow> u64 \<Rightarrow> 'p heap \<Rightarrow> (u64 \<times> 'p heap) option" where
  "malloc P sz s =
     (if \<not> mallocReady s then Some (0, s)
      else if sz = 0 then Some (0, s\<lparr>mallocReady := True\<rparr>)
      else do {
        (nextUnmapped, s) \<leftarrow> unmapped_vaddr P (s\<lparr>mallocReady := False\<rparr>);
        (chunk, s) \<leftarrow> malloc_search P sz (real_size sz) (firstChunk s) 0 nextUnmapped s;
        malloc_take (real_size sz) chunk s })"

subsection \<open>\<open>free\<close>\<close>

text \<open>Lines 293--316: merge with the free chunks that follow; the result is the chunk behind.\<close>

partial_function (option) free_merge :: "u64 \<Rightarrow> 'p heap \<Rightarrow> (u64 \<times> 'p heap) option" where
  "free_merge chunk s =
     (let other = chunk + c_size (hmem s) chunk in
      if other \<noteq> 0 \<and> other < endOfChunks s \<and> \<not> c_used (hmem s) other then
        if c_magic (hmem s) chunk \<noteq> magic then None
        else
          let s1 = upd (set_size chunk (c_size (hmem s) chunk + c_size (hmem s) other)) s in
          if c_size (hmem s1) chunk = 0 then None
          else if c_size (hmem s1) other = 0 then None
          else free_merge chunk s1
      else Some (other, s))"

text \<open>Lines 319--328, and the same block of \<open>squeeze\<close>: give back whole pages at the end.\<close>

definition trim_end :: "'p pager_ops \<Rightarrow> u64 \<Rightarrow> 'p heap \<Rightarrow> 'p heap option" where
  "trim_end P chunk s =
     (let nPages = c_size (hmem s) chunk div PAGESIZE;
          s = upd (set_size chunk (c_size (hmem s) chunk - PAGESIZE * nPages)) s;
          s = s\<lparr>endOfChunks := endOfChunks s - PAGESIZE * nPages, totalMemUsed := totalMemUsed s - PAGESIZE * nPages\<rparr>
      in for_each (\<lambda>i s. unmap_page P (endOfChunks s + hsize + PAGESIZE * of_nat i) s) [0..<unat nPages] s)"

definition free :: "'p pager_ops \<Rightarrow> u64 \<Rightarrow> 'p heap \<Rightarrow> 'p heap option" where
  "free P vaddr s =
     (if \<not> mallocReady s then Some s
      else if vaddr = 0 then Some s
      else let s = s\<lparr>mallocReady := False\<rparr>; chunk = vaddr - hsize in
        if c_magic (hmem s) chunk \<noteq> magic then None
        else if \<not> c_used (hmem s) chunk then None
        else
          let s = upd (set_used chunk False) s;
              s = s\<lparr>totalMemAllocated := totalMemAllocated s - (c_size (hmem s) chunk - hsize)\<rparr>
          in do {
            (other, s) \<leftarrow> free_merge chunk s;
            s \<leftarrow> (if other = endOfChunks s \<and> c_size (hmem s) chunk \<ge> PAGESIZE then trim_end P chunk s else Some s);
            Some (s\<lparr>mallocReady := True\<rparr>) })"

text \<open>\<open>printChunks\<close>: what is left of it without the text.\<close>

partial_function (option) printChunks_walk :: "u64 \<Rightarrow> 'p heap \<Rightarrow> 'p heap option" where
  "printChunks_walk chunk s =
     (if chunk = endOfChunks s then Some (s\<lparr>mallocReady := True\<rparr>)
      else if chunk > endOfChunks s then Some (s\<lparr>mallocReady := True\<rparr>)
      else if c_magic (hmem s) chunk \<noteq> magic then None
      else if c_size (hmem s) chunk = 0 then Some (s\<lparr>mallocReady := True\<rparr>)
      else printChunks_walk (chunk + c_size (hmem s) chunk) s)"

definition printChunks :: "'p heap \<Rightarrow> 'p heap option" where
  "printChunks s = printChunks_walk (firstChunk s) (s\<lparr>mallocReady := False\<rparr>)"

subsection \<open>\<open>realloc\<close>\<close>

definition realloc_shrink :: "u64 \<Rightarrow> u64 \<Rightarrow> 'p heap \<Rightarrow> 'p heap" where
  "realloc_shrink chunk realsize s =
     (let sizediff = c_size (hmem s) chunk - realsize; next = chunk + c_size (hmem s) chunk in
      if next < endOfChunks s \<and> \<not> c_used (hmem s) next then
        (let newnextsize = c_size (hmem s) next + sizediff; newnext = next - sizediff;
             s = upd (\<lambda>m. memcpy m newnext next 8) s;
             s = upd (set_size newnext newnextsize) s;
             s = upd (\<lambda>m. set_size chunk (c_size m chunk - sizediff) m) s
         in s\<lparr>totalMemAllocated := totalMemAllocated s - sizediff\<rparr>)
      else if sizediff \<ge> MALLOC_MINSIZE then
        (let newnext = chunk + realsize;
             s = upd (set_size chunk realsize \<circ> set_used newnext False \<circ> set_notOurs newnext False \<circ>
                   set_magic newnext magic \<circ> set_size newnext sizediff) s
         in s\<lparr>totalMemAllocated := totalMemAllocated s - sizediff\<rparr>)
      else s)"

definition realloc_into_next :: "u64 \<Rightarrow> u64 \<Rightarrow> u64 \<Rightarrow> 'p heap \<Rightarrow> 'p heap" where
  "realloc_into_next chunk next realsize s =
     (let newnext = chunk + realsize;
          newnextsize = c_size (hmem s) chunk + c_size (hmem s) next - realsize
      in if 0 <s newnextsize then
           (upd (set_size chunk realsize \<circ> set_notOurs newnext False \<circ> set_used newnext False \<circ>
               set_magic newnext magic \<circ> set_size newnext newnextsize) s)
             \<lparr>totalMemAllocated := totalMemAllocated s + (realsize - c_size (hmem s) chunk)\<rparr>
         else
           (upd (\<lambda>m. set_size chunk (c_size m chunk + c_size m next) m) s)
             \<lparr>totalMemAllocated := totalMemAllocated s + c_size (hmem s) next\<rparr>)"

partial_function (option) find_previous :: "u64 \<Rightarrow> mem \<Rightarrow> u64 \<Rightarrow> u64 option" where
  "find_previous vaddr m previous =
     (if previous + c_size m previous + hsize \<noteq> vaddr
      then find_previous vaddr m (previous + c_size m previous) else Some previous)"

definition realloc_into_previous :: "u64 \<Rightarrow> u64 \<Rightarrow> u64 \<Rightarrow> 'p heap \<Rightarrow> 'p heap" where
  "realloc_into_previous chunk previous realsize s =
     (let s = s\<lparr>totalMemAllocated := totalMemAllocated s + (realsize - c_size (hmem s) chunk)\<rparr>;
          newnextsize = c_size (hmem s) previous + c_size (hmem s) chunk - realsize;
          s = upd (\<lambda>m. memcpy m (previous + hsize) (chunk + hsize) (unat (c_size m chunk - hsize))) s;
          newnext = previous + realsize
      in upd (set_used previous True \<circ> set_size previous realsize \<circ> set_notOurs newnext False \<circ>
           set_used newnext False \<circ> set_magic newnext magic \<circ> set_size newnext newnextsize) s)"

definition realloc_move :: "'p pager_ops \<Rightarrow> u64 \<Rightarrow> u64 \<Rightarrow> u64 \<Rightarrow> 'p heap \<Rightarrow> (u64 \<times> 'p heap) option" where
  "realloc_move P vaddr chunk newsize s = do {
     (newvaddr, s) \<leftarrow> malloc P newsize (s\<lparr>mallocReady := True\<rparr>);
     let s = upd (\<lambda>m. memcpy m newvaddr vaddr (unat (c_size m chunk - hsize))) s;
     s \<leftarrow> free P vaddr s;
     Some (newvaddr, s) }"

definition realloc :: "'p pager_ops \<Rightarrow> u64 \<Rightarrow> u64 \<Rightarrow> 'p heap \<Rightarrow> (u64 \<times> 'p heap) option" where
  "realloc P vaddr newsize s =
     (if vaddr = 0 then malloc P newsize s
      else if \<not> mallocReady s then Some (0, s)
      else let s = s\<lparr>mallocReady := False\<rparr>; chunk = vaddr - hsize; realsize = real_size newsize;
               done = (\<lambda>r s. Some (r, s\<lparr>mallocReady := True\<rparr>)) in
        if c_magic (hmem s) chunk \<noteq> magic then None
        else if \<not> c_used (hmem s) chunk then None
        else if c_notOurs (hmem s) chunk then None
        else if c_size (hmem s) chunk = realsize then done vaddr s
        else if c_size (hmem s) chunk > realsize then done vaddr (realloc_shrink chunk realsize s)
        else let next = chunk + c_size (hmem s) chunk in
          if next < endOfChunks s \<and> \<not> c_used (hmem s) next \<and> c_size (hmem s) chunk + c_size (hmem s) next \<ge> realsize
          then done (chunk + hsize) (realloc_into_next chunk next realsize s)
          else if chunk \<noteq> firstChunk s then do {
            previous \<leftarrow> find_previous vaddr (hmem s) (firstChunk s);
            if \<not> c_used (hmem s) previous \<and> c_size (hmem s) chunk + c_size (hmem s) previous \<ge> realsize
            then done (previous + hsize) (realloc_into_previous chunk previous realsize s)
            else realloc_move P vaddr chunk newsize s }
          else realloc_move P vaddr chunk newsize s)"

subsection \<open>\<open>squeeze\<close>\<close>

partial_function (option) squeeze_walk :: "u64 \<Rightarrow> u64 \<Rightarrow> 'p heap \<Rightarrow> (u64 \<times> u64 \<times> 'p heap) option" where
  "squeeze_walk other chunk s =
     (if \<not> chunk < endOfChunks s then Some (other, chunk, s)
      else if c_magic (hmem s) chunk \<noteq> magic then None
      else do {
        s \<leftarrow> (if c_size (hmem s) chunk = 0
             then if chunk = firstChunk s \<or> other = 0 then None
                  else Some (upd (set_size other (c_size (hmem s) other + hsize)) s)
             else Some s);
        if other \<noteq> 0 \<and> \<not> c_used (hmem s) other \<and> \<not> c_used (hmem s) chunk \<and> chunk < endOfChunks s
        then squeeze_walk 0 other (upd (set_size other (c_size (hmem s) other + c_size (hmem s) chunk)) s)
        else squeeze_walk chunk (chunk + c_size (hmem s) chunk) s })"

definition squeeze :: "'p pager_ops \<Rightarrow> 'p heap \<Rightarrow> 'p heap option" where
  "squeeze P s = do {
     (other, chunk, s) \<leftarrow> squeeze_walk 0 (firstChunk s) s;
     if other = endOfChunks s \<and> c_size (hmem s) chunk \<ge> PAGESIZE then trim_end P chunk s else Some s }"

subsection \<open>\<open>operator new\<close> and \<open>operator delete\<close>\<close>

text \<open>
  \<open>allocRecords\<close> is a \<open>SizedArray\<close> of 24-byte records (caller, size, address).
  \<open>caller\<close> stands for \<open>__builtin_return_address(0)\<close>.
\<close>

definition record_addr :: "u64 \<Rightarrow> u64 \<Rightarrow> u64" where
  "record_addr elems i = elems + i * 24"

definition records_append :: "'p pager_ops \<Rightarrow> u64 \<times> u64 \<times> u64 \<Rightarrow> 'p heap \<Rightarrow> 'p heap option" where
  "records_append P r s =
     (case r of (caller, sz, addr) \<Rightarrow>
       let s = s\<lparr>allocRecords_size := allocRecords_size s + 1\<rparr> in do {
         (elems, s) \<leftarrow> realloc P (allocRecords_elems s) (allocRecords_size s * 24) s;
         let s = s\<lparr>allocRecords_elems := elems\<rparr>;
         let a = record_addr elems (allocRecords_size s - 1);
         Some (upd (\<lambda>m. wr64 (wr64 (wr64 m a caller) (a + 8) sz) (a + 16) addr) s) })"

definition records_removeAt :: "'p pager_ops \<Rightarrow> u64 \<Rightarrow> 'p heap \<Rightarrow> 'p heap option" where
  "records_removeAt P pos s =
     (let s = s\<lparr>allocRecords_size := allocRecords_size s - 1\<rparr>; n = allocRecords_size s;
          elems = allocRecords_elems s in do {
        (newElems, s) \<leftarrow> malloc P (n * 24) s;
        let s = upd (\<lambda>m. memcpy m newElems elems (unat (pos * 24))) s;
        let s = upd (\<lambda>m. memcpy m (record_addr newElems pos) (record_addr elems (pos + 1)) (unat ((n - pos) * 24))) s;
        s \<leftarrow> free P elems s;
        Some (s\<lparr>allocRecords_elems := newElems\<rparr>) })"

definition operator_new :: "'p pager_ops \<Rightarrow> u64 \<Rightarrow> u64 \<Rightarrow> 'p heap \<Rightarrow> (u64 \<times> 'p heap) option" where
  "operator_new P caller sz s =
     (if \<not> noRecordSelf s then do {
        (addr, s) \<leftarrow> malloc P sz (s\<lparr>noRecordSelf := True\<rparr>);
        s \<leftarrow> records_append P (caller, sz, addr) s;
        Some (addr, s\<lparr>noRecordSelf := False\<rparr>) }
      else malloc P sz s)"

fun find_record :: "mem \<Rightarrow> u64 \<Rightarrow> u64 \<Rightarrow> nat list \<Rightarrow> nat option" where
  "find_record m elems addr [] = None"
| "find_record m elems addr (i # is) =
     (if rd64 m (record_addr elems (of_nat i) + 16) = addr then Some i else find_record m elems addr is)"

definition operator_delete :: "'p pager_ops \<Rightarrow> u64 \<Rightarrow> 'p heap \<Rightarrow> 'p heap option" where
  "operator_delete P addr s = do {
     s \<leftarrow> free P addr s;
     if noRecordSelf s then Some s else
       let s = s\<lparr>noRecordSelf := True\<rparr> in do {
         s \<leftarrow> (case find_record (hmem s) (allocRecords_elems s) addr [0..<unat (allocRecords_size s)] of
                Some i \<Rightarrow> records_removeAt P (of_nat i) s
              | None \<Rightarrow> Some s);
         Some (s\<lparr>noRecordSelf := False\<rparr>) } }"

text \<open>The array forms repeat the bodies of the others.\<close>

definition operator_new_array :: "'p pager_ops \<Rightarrow> u64 \<Rightarrow> u64 \<Rightarrow> 'p heap \<Rightarrow> (u64 \<times> 'p heap) option" where
  "operator_new_array = operator_new"

definition operator_delete_array :: "'p pager_ops \<Rightarrow> u64 \<Rightarrow> 'p heap \<Rightarrow> 'p heap option" where
  "operator_delete_array = operator_delete"

end
