(* ===== verification/HeapSpec.thy ===== *)
theory HeapSpec
  imports Malloc
begin

section \<open>What the kernel heap guarantees\<close>

text \<open>
  The chunk list as a list of sizes and flags (\<open>heap_ok\<close>), with the live blocks and the free
  addresses it denotes.  The lemmas follow \<open>malloc.cpp\<close>: header fields, one merge, the search,
  taking a chunk, freeing with merge and trim; the theorems at the end say what \<open>init\<close>,
  \<open>malloc\<close> and \<open>free\<close> do to the live blocks.  \<open>malloc\<close> is treated where a free chunk
  fits; \<open>HeapGrow\<close> has the heap that grows.
\<close>

subsection \<open>Reading and writing header fields\<close>

lemma bit_put_field: "bit (put_field off len v w) i \<longleftrightarrow> i < 64 \<and> (if off \<le> i \<and> i < off + len then bit v (i - off) else bit w i)"
  by (auto simp: put_field_def bit_simps)

lemma bit_get_field: "bit (get_field off len w) i \<longleftrightarrow> i < len \<and> bit w (off + i)"
  by (auto simp: get_field_def bit_simps)

lemma get_put_same: "off + len \<le> 64 \<Longrightarrow> get_field off len (put_field off len v w) = take_bit len v"
  by (rule bit_eqI) (auto simp: bit_put_field bit_get_field bit_simps)

lemma get_put_other:
  "off' + len' \<le> 64 \<Longrightarrow> off' + len' \<le> off \<or> off + len \<le> off' \<Longrightarrow> get_field off' len' (put_field off len v w) = get_field off' len' w"
  by (rule bit_eqI) (auto simp: bit_put_field bit_get_field)

lemma take_1_of_bool: "take_bit 1 (of_bool b :: u64) = of_bool b"
  by (cases b) (auto simp: take_bit_Suc)

lemmas header_defs = c_size_def c_magic_def c_used_def c_notOurs_def set_size_def set_magic_def set_used_def set_notOurs_def

lemma header_same [simp]:
  "c_size (set_size a v m) a = take_bit 48 v" "c_magic (set_size a v m) a = c_magic m a"
  "c_used (set_size a v m) a = c_used m a" "c_notOurs (set_size a v m) a = c_notOurs m a"
  "c_size (set_magic a v m) a = c_size m a" "c_magic (set_magic a v m) a = take_bit 14 v"
  "c_used (set_magic a v m) a = c_used m a" "c_notOurs (set_magic a v m) a = c_notOurs m a"
  "c_size (set_used a b m) a = c_size m a" "c_magic (set_used a b m) a = c_magic m a"
  "c_used (set_used a b m) a = b" "c_notOurs (set_used a b m) a = c_notOurs m a"
  "c_size (set_notOurs a b m) a = c_size m a" "c_magic (set_notOurs a b m) a = c_magic m a"
  "c_used (set_notOurs a b m) a = c_used m a" "c_notOurs (set_notOurs a b m) a = b"
  by (simp_all only: header_defs rd64_wr64_same get_put_same get_put_other take_1_of_bool of_bool_eq_0_iff not_not
      arith_simps add_numeral_special rel_simps simp_thms)

text \<open>A header write touches its own eight bytes only.\<close>

lemma wr64_frame: "unat a + 8 \<le> 2 ^ 64 \<Longrightarrow> unat x < unat a \<or> unat a + 8 \<le> unat x \<Longrightarrow> wr64 m a w x = m x"
  by (auto simp: wr64_def wr_def unat_sub_if')

lemma header_frame:
  assumes "unat a + 8 \<le> 2 ^ 64" "unat x < unat a \<or> unat a + 8 \<le> unat x"
  shows "set_size a v m x = m x" "set_magic a v m x = m x" "set_used a b m x = m x" "set_notOurs a b m x = m x"
  using wr64_frame [OF assms] by (simp_all add: header_defs)

subsection \<open>The chunk list\<close>

record blk =
  bsize :: nat
  bused :: bool
  bother :: bool

definition hdr :: "mem \<Rightarrow> nat \<Rightarrow> blk \<Rightarrow> bool" where
  "hdr m a b \<longleftrightarrow> c_size m (of_nat a) = of_nat (bsize b) \<and> c_magic m (of_nat a) = magic \<and>
     c_used m (of_nat a) = bused b \<and> c_notOurs m (of_nat a) = bother b"

fun span :: "blk list \<Rightarrow> nat" where
  "span [] = 0"
| "span (b # bs) = bsize b + span bs"

fun chain :: "mem \<Rightarrow> nat \<Rightarrow> blk list \<Rightarrow> bool" where
  "chain m a [] \<longleftrightarrow> True"
| "chain m a (b # bs) \<longleftrightarrow> hdr m a b \<and> chain m (a + bsize b) bs"

text \<open>The used chunks, by address and size, the addresses inside free chunks, and the wrappers.\<close>

fun live :: "nat \<Rightarrow> blk list \<Rightarrow> (nat \<times> nat) set" where
  "live a [] = {}"
| "live a (b # bs) = (if bused b then {(a, bsize b)} else {}) \<union> live (a + bsize b) bs"

fun gaps :: "nat \<Rightarrow> blk list \<Rightarrow> nat set" where
  "gaps a [] = {}"
| "gaps a (b # bs) = (if bused b then {} else {a ..< a + bsize b}) \<union> gaps (a + bsize b) bs"

fun wrappers :: "nat \<Rightarrow> blk list \<Rightarrow> nat set" where
  "wrappers a [] = {}"
| "wrappers a (b # bs) = (if bother b then {a} else {}) \<union> wrappers (a + bsize b) bs"

definition wf_blk :: "blk \<Rightarrow> bool" where
  "wf_blk b \<longleftrightarrow> 8 \<le> bsize b \<and> (bother b \<longrightarrow> bused b)"

definition heap_ok :: "'p heap \<Rightarrow> blk list \<Rightarrow> bool" where
  "heap_ok s bs \<longleftrightarrow> firstChunk s \<noteq> 0 \<and> chain (hmem s) (unat (firstChunk s)) bs \<and> (\<forall>b \<in> set bs. wf_blk b) \<and>
     unat (firstChunk s) + span bs = unat (endOfChunks s) \<and> span bs < 2 ^ 48"

text \<open>The bytes the allocator's users hold.\<close>

fun payload :: "blk list \<Rightarrow> nat" where
  "payload [] = 0"
| "payload (b # bs) = (if bused b \<and> \<not> bother b then bsize b - 8 else 0) + payload bs"

lemma payload_append [simp]: "payload (xs @ ys) = payload xs + payload ys"
  by (induction xs) auto

lemma heap_ok_cong [simp]:
  "heap_ok (s\<lparr>totalMemAllocated := x\<rparr>) bs = heap_ok s bs" "heap_ok (s\<lparr>mallocReady := r\<rparr>) bs = heap_ok s bs"
  "heap_ok (s\<lparr>pager := p\<rparr>) bs = heap_ok s bs" "heap_ok (s\<lparr>totalMemUsed := x\<rparr>) bs = heap_ok s bs"
  by (simp_all add: heap_ok_def)

lemma span_append [simp]: "span (xs @ ys) = span xs + span ys"
  by (induction xs) auto

lemma chain_append [simp]: "chain m a (xs @ ys) \<longleftrightarrow> chain m a xs \<and> chain m (a + span xs) ys"
  by (induction xs arbitrary: a) (auto simp: add.assoc)

lemma live_append [simp]: "live a (xs @ ys) = live a xs \<union> live (a + span xs) ys"
  by (induction xs arbitrary: a) (auto simp: add.assoc)

lemma gaps_append [simp]: "gaps a (xs @ ys) = gaps a xs \<union> gaps (a + span xs) ys"
  by (induction xs arbitrary: a) (auto simp: add.assoc)

lemma wrappers_append [simp]: "wrappers a (xs @ ys) = wrappers a xs \<union> wrappers (a + span xs) ys"
  by (induction xs arbitrary: a) (auto simp: add.assoc)

lemma hdr_frame:
  assumes "a + 8 \<le> 2 ^ 64" "\<And>x. a \<le> unat x \<Longrightarrow> unat x < a + 8 \<Longrightarrow> m' x = m x"
  shows "hdr m' a b = hdr m a b"
proof -
  have u: "unat (of_nat a :: u64) = a" using assms(1) by (simp add: unat_of_nat take_bit_nat_eq_self)
  have "rd64 m' (of_nat a) = rd64 m (of_nat a)"
  proof (rule rd64_cong)
    fix i :: nat assume "i < 8"
    then have "unat (of_nat a + of_nat i :: u64) = a + i" using assms(1) u unat_add_small [of "of_nat a" i] by simp
    then show "m' (of_nat a + of_nat i) = m (of_nat a + of_nat i)" using \<open>i < 8\<close> by (intro assms(2)) simp_all
  qed
  then show ?thesis by (simp add: hdr_def c_size_def c_magic_def c_used_def c_notOurs_def)
qed

lemma chain_frame:
  assumes "a + span bs \<le> 2 ^ 64" "\<forall>b \<in> set bs. wf_blk b" "\<And>x. a \<le> unat x \<Longrightarrow> unat x < a + span bs \<Longrightarrow> m' x = m x"
  shows "chain m' a bs = chain m a bs"
  using assms
proof (induction bs arbitrary: a)
  case (Cons b bs)
  have 8: "8 \<le> bsize b" using Cons.prems(2) by (simp add: wf_blk_def)
  have "hdr m' a b = hdr m a b" by (rule hdr_frame) (use Cons.prems(1,3) 8 in auto)
  moreover have "chain m' (a + bsize b) bs = chain m (a + bsize b) bs"
    by (rule Cons.IH) (use Cons.prems in auto)
  ultimately show ?case by simp
qed simp


subsection \<open>Merging, growing and splitting chunks\<close>

lemma heap_ok_bounds:
  assumes "heap_ok s (ps @ b # rs)"
  shows "unat (firstChunk s) + span ps + bsize b + span rs = unat (endOfChunks s)" "8 \<le> bsize b"
    "unat (endOfChunks s) < 2 ^ 64" "bsize b < 2 ^ 48" "span ps + bsize b + span rs < 2 ^ 48"
  using assms unsigned_less [of "endOfChunks s", where 'a = nat] by (auto simp: heap_ok_def wf_blk_def)

lemma heap_ok_hdr:
  assumes "heap_ok s (ps @ b # rs)"
  shows "c_size (hmem s) (of_nat (unat (firstChunk s) + span ps)) = of_nat (bsize b)"
    "c_magic (hmem s) (of_nat (unat (firstChunk s) + span ps)) = magic"
    "c_used (hmem s) (of_nat (unat (firstChunk s) + span ps)) = bused b"
    "c_notOurs (hmem s) (of_nat (unat (firstChunk s) + span ps)) = bother b"
  using assms by (auto simp: heap_ok_def hdr_def)

text \<open>
  Replacing the chunks \<open>bs\<close> in the middle by others of the same extent, with a memory that has
  their headers and differs only within them.
\<close>

lemma heap_ok_replace:
  assumes ok: "heap_ok s (ps @ bs @ rs)" and "span cs = span bs" "\<forall>b \<in> set cs. wf_blk b"
    and "chain m (unat (firstChunk s) + span ps) cs"
    and m: "\<And>x. unat x < unat (firstChunk s) + span ps \<or> unat (firstChunk s) + span ps + span bs \<le> unat x \<Longrightarrow> m x = hmem s x"
  shows "heap_ok (s\<lparr>hmem := m\<rparr>) (ps @ cs @ rs)"
proof -
  let ?a = "unat (firstChunk s)"
  have b: "?a + span ps + span bs + span rs < 2 ^ 64" "\<forall>b \<in> set (ps @ rs). wf_blk b"
    using ok unsigned_less [of "endOfChunks s", where 'a = nat] by (auto simp: heap_ok_def add.assoc)
  have "chain m ?a ps" "chain m (?a + span ps + span bs) rs"
    using ok b m by (auto simp: heap_ok_def add.assoc chain_frame [of ?a ps m "hmem s"]
        chain_frame [of "?a + (span ps + span bs)" rs m "hmem s"])
  then show ?thesis using assms by (auto simp: heap_ok_def add.assoc)
qed

lemma take_48: "n < 2 ^ 48 \<Longrightarrow> take_bit 48 (of_nat n :: u64) = of_nat n"
  by (rule word_unat_eq_iff [THEN iffD2]) (simp add: unsigned_take_bit_eq unat_of_nat_small take_bit_nat_eq_self)

text \<open>One header write inside a free chunk's space.\<close>

lemma merge_ok:
  assumes ok: "heap_ok s (ps @ o1 # c # rs)" and free: "\<not> bused o1" "\<not> bused c"
  defines "other \<equiv> of_nat (unat (firstChunk s) + span ps) :: u64"
    and "s' \<equiv> upd (set_size (of_nat (unat (firstChunk s) + span ps)) (of_nat (bsize o1) + of_nat (bsize c))) s"
  shows "heap_ok s' (ps @ \<lparr>bsize = bsize o1 + bsize c, bused = False, bother = False\<rparr> # rs)"
    and "\<And>x. unat x \<notin> {unat (firstChunk s) + span ps ..< unat (firstChunk s) + span ps + bsize o1} \<Longrightarrow> hmem s' x = hmem s x"
proof -
  let ?a = "unat (firstChunk s) + span ps"
  note b = heap_ok_bounds [OF ok] heap_ok_bounds [of s "ps @ [o1]" c rs]
  have sz: "8 \<le> bsize o1" "8 \<le> bsize c" "?a + bsize o1 + bsize c < 2 ^ 64" "bsize o1 + bsize c < 2 ^ 48"
    using b ok by simp_all
  have oth: "\<not> bother o1" using ok free by (auto simp: heap_ok_def wf_blk_def)
  have fr: "hmem s' x = hmem s x" if "unat x < ?a \<or> ?a + bsize o1 \<le> unat x" for x
    using that sz by (auto simp: s'_def upd_def header_frame unat_add_small)
  then show "\<And>x. unat x \<notin> {?a ..< ?a + bsize o1} \<Longrightarrow> hmem s' x = hmem s x" by auto
  have "heap_ok (s\<lparr>hmem := hmem s'\<rparr>) (ps @ [\<lparr>bsize = bsize o1 + bsize c, bused = False, bother = False\<rparr>] @ rs)"
  proof (rule heap_ok_replace [of s ps "[o1, c]"])
    show "chain (hmem s') ?a [\<lparr>bsize = bsize o1 + bsize c, bused = False, bother = False\<rparr>]"
      using heap_ok_hdr [OF ok] sz free oth take_48 [OF sz(4)] by (simp add: s'_def upd_def hdr_def)
  qed (use ok fr sz in \<open>auto simp: wf_blk_def\<close>)
  then show "heap_ok s' (ps @ \<lparr>bsize = bsize o1 + bsize c, bused = False, bother = False\<rparr> # rs)"
    by (simp add: s'_def upd_def)
qed


subsection \<open>The search\<close>

text \<open>What a step of the allocator may change without its users noticing.\<close>

definition unnoticed :: "'p heap \<Rightarrow> blk list \<Rightarrow> 'p heap \<Rightarrow> blk list \<Rightarrow> bool" where
  "unnoticed s bs s' bs' \<longleftrightarrow> (let a = unat (firstChunk s) in
     (\<exists>m. s' = s\<lparr>hmem := m\<rparr>) \<and> live a bs' = live a bs \<and> gaps a bs' = gaps a bs \<and> wrappers a bs' = wrappers a bs \<and> payload bs' = payload bs \<and>
     (\<forall>x. unat x \<notin> gaps a bs \<longrightarrow> hmem s' x = hmem s x))"

lemma unnoticed_refl [simp]: "unnoticed s bs s bs"
  unfolding unnoticed_def Let_def by (auto intro: exI [of _ "hmem s"])

lemma unnoticed_trans: "unnoticed s bs s' bs' \<Longrightarrow> unnoticed s' bs' s'' bs'' \<Longrightarrow> unnoticed s bs s'' bs''"
  by (auto simp: unnoticed_def Let_def)

lemma merge_unnoticed:
  assumes ok: "heap_ok s (ps @ o1 # c # rs)" and free: "\<not> bused o1" "\<not> bused c"
  shows "unnoticed s (ps @ o1 # c # rs)
     (upd (set_size (of_nat (unat (firstChunk s) + span ps)) (of_nat (bsize o1) + of_nat (bsize c))) s)
     (ps @ \<lparr>bsize = bsize o1 + bsize c, bused = False, bother = False\<rparr> # rs)"
proof -
  have "\<not> bother o1" "\<not> bother c" using ok free by (auto simp: heap_ok_def wf_blk_def)
  then show ?thesis
    using merge_ok(2) [OF assms] free unfolding unnoticed_def Let_def
    by (auto simp: add.assoc upd_def)
qed

lemma ptr_facts:
  assumes ok: "heap_ok s (ps @ c # rs)"
  defines "p \<equiv> firstChunk s + of_nat (span ps)"
  shows "unat p = unat (firstChunk s) + span ps" "p \<noteq> 0" "p < endOfChunks s" "c_used (hmem s) p = bused c"
    "c_size (hmem s) p = of_nat (bsize c)" "unat (c_size (hmem s) p) = bsize c" "c_magic (hmem s) p = magic"
    "c_notOurs (hmem s) p = bother c" "p + c_size (hmem s) p = firstChunk s + of_nat (span (ps @ [c]))"
    "firstChunk s + of_nat (span (ps @ [c])) = endOfChunks s \<longleftrightarrow> rs = []"
    "\<not> firstChunk s + of_nat (span (ps @ [c])) > endOfChunks s"
proof -
  note b = heap_ok_bounds [OF ok]
  have lt: "unat (firstChunk s) + span ps < 2 ^ 64" using b by simp
  show u: "unat p = unat (firstChunk s) + span ps" using unat_add_small [OF lt] by (simp add: p_def)
  show "p \<noteq> 0" using u ok by (auto simp: heap_ok_def unat_eq_0)
  show "p < endOfChunks s" using u b by (simp add: word_less_nat_alt)
  show "c_used (hmem s) p = bused c" "c_magic (hmem s) p = magic" "c_notOurs (hmem s) p = bother c"
    and sz: "c_size (hmem s) p = of_nat (bsize c)"
    using heap_ok_hdr [OF ok] by (simp_all add: p_def)
  show "unat (c_size (hmem s) p) = bsize c" using sz b(4) by (simp add: unat_of_nat_small)
  show "p + c_size (hmem s) p = firstChunk s + of_nat (span (ps @ [c]))" using sz by (simp add: p_def add.assoc)
  have n: "unat (firstChunk s + of_nat (span (ps @ [c]))) = unat (firstChunk s) + span ps + bsize c"
    using unat_add_small [of "firstChunk s" "span (ps @ [c])"] b by simp
  have "span rs = 0 \<longleftrightarrow> rs = []" using ok by (cases rs) (auto simp: heap_ok_def wf_blk_def)
  moreover have "unat (firstChunk s) + span ps + bsize c = unat (endOfChunks s) \<longleftrightarrow> span rs = 0" using b(1) by linarith
  ultimately show "firstChunk s + of_nat (span (ps @ [c])) = endOfChunks s \<longleftrightarrow> rs = []"
    unfolding word_unat_eq_iff n by simp
  show "\<not> firstChunk s + of_nat (span (ps @ [c])) > endOfChunks s" using n b by (simp add: word_less_nat_alt)
qed

lemma search_total:
  assumes "heap_ok s (ps @ rest)" "rest \<noteq> []"
    and "other = 0 \<or> (\<exists>qs o1. ps = qs @ [o1] \<and> other = firstChunk s + of_nat (span qs))"
    and "\<forall>w \<in> wrappers (unat (firstChunk s)) (ps @ rest). w + 8 \<noteq> unat nu"
  shows "\<exists>s' qs c rs. heap_ok s' (qs @ c # rs) \<and> unnoticed s (ps @ rest) s' (qs @ c # rs) \<and>
    (\<not> bused c \<and> unat R \<le> bsize c \<and>
       malloc_search P sz R (firstChunk s + of_nat (span ps)) other nu s = Some (firstChunk s + of_nat (span qs), s') \<or>
     rs = [] \<and> (bused c \<or> bsize c < unat R) \<and> \<not> (\<exists>b \<in> set rest. \<not> bused b \<and> unat R \<le> bsize b) \<and>
       malloc_search P sz R (firstChunk s + of_nat (span ps)) other nu s = malloc_grow P sz R (firstChunk s + of_nat (span qs)) s')"
  using assms
proof (induction "2 * length rest + (if other = 0 then 0 else 1)" arbitrary: ps rest other s rule: less_induct)
  case less
  from less.prems(2) obtain c rs where rest: "rest = c # rs" by (cases rest) auto
  note ok = less.prems(1)[unfolded rest]
  let ?p = "firstChunk s + of_nat (span ps)"
  note f = ptr_facts [OF ok]
  show ?case
  proof (cases "\<not> bused c \<and> unat R \<le> bsize c")
    case True
    then have "malloc_search P sz R ?p other nu s = Some (?p, s)"
      using f by (subst malloc_search.simps) (simp add: word_less_nat_alt)
    then show ?thesis using ok True rest by (intro exI [of _ s] exI [of _ ps] exI [of _ c] exI [of _ rs]) simp
  next
    case no: False
    then have go: "c_used (hmem s) ?p \<or> c_size (hmem s) ?p < R" using f by (simp add: word_less_nat_alt not_le)
    have nz: "c_size (hmem s) ?p \<noteq> 0" using f(6) heap_ok_bounds(2) [OF ok] by auto
    show ?thesis
    proof (cases "other \<noteq> 0 \<and> \<not> c_used (hmem s) other \<and> \<not> bused c")
      case True
      then obtain qs o1 where qs: "ps = qs @ [o1]" "other = firstChunk s + of_nat (span qs)" using less.prems(3) by blast
      have ok': "heap_ok s (qs @ o1 # c # rs)" using ok qs by simp
      note g = ptr_facts [OF ok']
      have free: "\<not> bused o1" "\<not> bused c" using True g qs(2) by auto
      let ?m = "\<lparr>bsize = bsize o1 + bsize c, bused = False, bother = False\<rparr>"
      let ?s = "upd (set_size other (c_size (hmem s) other + c_size (hmem s) ?p)) s"
      have s: "?s = upd (set_size (of_nat (unat (firstChunk s) + span qs)) (of_nat (bsize o1) + of_nat (bsize c))) s"
        using g f qs(2) by simp
      have un: "unnoticed s (ps @ rest) ?s (qs @ ?m # rs)" using merge_unnoticed [OF ok' free] s qs rest by simp
      have fs: "firstChunk ?s = firstChunk s" by (simp add: upd_def)
      have step: "malloc_search P sz R ?p other nu s = malloc_search P sz R (firstChunk ?s + of_nat (span qs)) 0 nu ?s"
        using go nz True f fs qs(2) by (subst malloc_search.simps) simp
      have ok2: "heap_ok ?s (qs @ ?m # rs)" using merge_ok(1) [OF ok' free] s by simp
      have fit: "(\<exists>b \<in> set rest. \<not> bused b \<and> unat R \<le> bsize b) \<Longrightarrow> \<exists>b \<in> set (?m # rs). \<not> bused b \<and> unat R \<le> bsize b"
        using rest no by auto
      have wr: "\<forall>w \<in> wrappers (unat (firstChunk ?s)) (qs @ ?m # rs). w + 8 \<noteq> unat nu"
        using un less.prems(4) fs by (simp add: unnoticed_def Let_def)
      have lt: "2 * length (?m # rs) + (if (0 :: u64) = 0 then 0 else 1) < 2 * length rest + (if other = 0 then 0 else 1)"
        using rest True by simp
      from less.hyps [OF lt ok2 _ _ wr] obtain s' qs' c' rs' where IH:
        "heap_ok s' (qs' @ c' # rs')" "unnoticed ?s (qs @ ?m # rs) s' (qs' @ c' # rs')"
        "\<not> bused c' \<and> unat R \<le> bsize c' \<and>
           malloc_search P sz R (firstChunk ?s + of_nat (span qs)) 0 nu ?s = Some (firstChunk ?s + of_nat (span qs'), s') \<or>
         rs' = [] \<and> (bused c' \<or> bsize c' < unat R) \<and> \<not> (\<exists>b \<in> set (?m # rs). \<not> bused b \<and> unat R \<le> bsize b) \<and>
           malloc_search P sz R (firstChunk ?s + of_nat (span qs)) 0 nu ?s = malloc_grow P sz R (firstChunk ?s + of_nat (span qs')) s'"
        by blast
      show ?thesis
        unfolding step
        by (rule exI [of _ s'], rule exI [of _ qs'], rule exI [of _ c'], rule exI [of _ rs'])
          (use IH(1,3) unnoticed_trans [OF un IH(2)] fs fit in metis)
    next
      case False
      have reclaim: "\<not> (c_notOurs (hmem s) ?p \<and> ?p + hsize = nu)"
      proof (cases "bother c")
        case True
        then have "unat (firstChunk s) + span ps + 8 \<noteq> unat nu" using less.prems(4) rest by simp
        moreover have "unat (?p + 8) = unat (firstChunk s) + span ps + 8"
          using unat_add_small [of ?p 8] f(1) heap_ok_bounds [OF ok] by simp
        ultimately show ?thesis by (auto simp: hsize_def)
      qed (use f in simp)
      have step: "malloc_search P sz R ?p other nu s =
          (if rs = [] then malloc_grow P sz R ?p s else malloc_search P sz R (firstChunk s + of_nat (span (ps @ [c]))) ?p nu s)"
      proof -
        define q where "q = firstChunk s + of_nat (span (ps @ [c]))"
        have q: "?p + c_size (hmem s) ?p = q" "q = endOfChunks s \<longleftrightarrow> rs = []" "\<not> q > endOfChunks s"
          using f(9-11) by (simp_all only: q_def simp_thms)
        have c1: "(other \<noteq> 0 \<and> \<not> c_used (hmem s) other \<and> \<not> c_used (hmem s) ?p \<and> ?p < endOfChunks s) = False"
          and c2: "(c_notOurs (hmem s) ?p \<and> ?p + hsize = nu) = False" and c3: "(c_size (hmem s) ?p = 0) = False"
          and c4: "(c_used (hmem s) ?p \<or> c_size (hmem s) ?p < R) = True" and c5: "(c_magic (hmem s) ?p \<noteq> magic) = False"
          and c6: "(q > endOfChunks s) = False"
          using False f(4,7) reclaim nz go q by auto
        show ?thesis
          unfolding q_def [symmetric]
          by (subst malloc_search.simps)
            (simp only: c1 c2 c3 c4 c5 c6 q(1,2) if_False not_True_eq_False Let_def bind.bind_lunit prod.case)
      qed
      show ?thesis
      proof (cases "rs = []")
        case True
        then show ?thesis
          using step ok no rest by (intro exI [of _ s] exI [of _ ps] exI [of _ c] exI [of _ "[]"]) auto
      next
        case rs: False
        have lt: "2 * length rs + (if ?p = 0 then 0 else 1) < 2 * length rest + (if other = 0 then 0 else 1)"
          using rest by simp
        have "\<exists>s' qs c' rs'. heap_ok s' (qs @ c' # rs') \<and> unnoticed s ((ps @ [c]) @ rs) s' (qs @ c' # rs') \<and>
          (\<not> bused c' \<and> unat R \<le> bsize c' \<and>
             malloc_search P sz R (firstChunk s + of_nat (span (ps @ [c]))) ?p nu s = Some (firstChunk s + of_nat (span qs), s') \<or>
           rs' = [] \<and> (bused c' \<or> bsize c' < unat R) \<and> \<not> (\<exists>b \<in> set rs. \<not> bused b \<and> unat R \<le> bsize b) \<and>
             malloc_search P sz R (firstChunk s + of_nat (span (ps @ [c]))) ?p nu s = malloc_grow P sz R (firstChunk s + of_nat (span qs)) s')"
          by (rule less.hyps [OF lt]) (use ok less.prems(4) rest rs in auto)
        moreover have "(\<exists>b \<in> set rest. \<not> bused b \<and> unat R \<le> bsize b) \<longleftrightarrow> (\<exists>b \<in> set rs. \<not> bused b \<and> unat R \<le> bsize b)"
          using rest no by auto
        ultimately show ?thesis using rs rest by (simp add: step)
      qed
    qed
  qed
qed


subsection \<open>Taking a chunk\<close>

lemma header_apart:
  assumes "apart b 8 a 8"
  shows "c_size (set_size b v m) a = c_size m a" "c_magic (set_size b v m) a = c_magic m a"
    "c_used (set_size b v m) a = c_used m a" "c_notOurs (set_size b v m) a = c_notOurs m a"
    "c_size (set_magic b v m) a = c_size m a" "c_magic (set_magic b v m) a = c_magic m a"
    "c_used (set_magic b v m) a = c_used m a" "c_notOurs (set_magic b v m) a = c_notOurs m a"
    "c_size (set_used b u m) a = c_size m a" "c_magic (set_used b u m) a = c_magic m a"
    "c_used (set_used b u m) a = c_used m a" "c_notOurs (set_used b u m) a = c_notOurs m a"
    "c_size (set_notOurs b u m) a = c_size m a" "c_magic (set_notOurs b u m) a = c_magic m a"
    "c_used (set_notOurs b u m) a = c_used m a" "c_notOurs (set_notOurs b u m) a = c_notOurs m a"
  by (simp_all add: header_defs rd64_wr64_apart [OF assms])

lemma magic_fits: "take_bit 14 magic = magic"
  by (simp add: magic_def take_bit_word_eq_self)

lemma take_ok:
  assumes ok: "heap_ok s (ps @ c # rs)" and c: "\<not> bused c" "unat R \<le> bsize c" "32 \<le> unat R"
  shows "\<exists>s' k cs. malloc_take R (firstChunk s + of_nat (span ps)) s = Some (firstChunk s + of_nat (span ps) + hsize, s') \<and>
    heap_ok s' (ps @ \<lparr>bsize = k, bused = True, bother = False\<rparr> # cs @ rs) \<and> unat R \<le> k \<and> k + span cs = bsize c \<and>
    (\<forall>b \<in> set cs. \<not> bused b \<and> \<not> bother b) \<and> mallocReady s' \<and> firstChunk s' = firstChunk s \<and>
    totalMemAllocated s' = totalMemAllocated s + of_nat (k - 8) \<and>
    (\<forall>x. unat x \<notin> {unat (firstChunk s) + span ps ..< unat (firstChunk s) + span ps + bsize c} \<longrightarrow> hmem s' x = hmem s x)"
proof -
  let ?a = "unat (firstChunk s) + span ps" and ?p = "firstChunk s + of_nat (span ps)"
  note f = ptr_facts [OF ok] and b = heap_ok_bounds [OF ok]
  have oth: "\<not> bother c" using ok c by (auto simp: heap_ok_def wf_blk_def)
  have diff: "c_size (hmem s) ?p - R \<ge> MALLOC_MINSIZE \<longleftrightarrow> unat R + 32 \<le> bsize c"
    using f(6) c(2) by (auto simp: word_le_nat_alt MALLOC_MINSIZE_def unat_sub_if')
  show ?thesis
  proof (cases "unat R + 32 \<le> bsize c")
    case False
    let ?m = "set_used ?p True (hmem s)" and ?b = "\<lparr>bsize = bsize c, bused = True, bother = False\<rparr>"
    let ?s = "s\<lparr>hmem := ?m, totalMemAllocated := totalMemAllocated s + (c_size (hmem s) ?p - hsize), mallocReady := True\<rparr>"
    have fr: "?m x = hmem s x" if "unat x < ?a \<or> ?a + bsize c \<le> unat x" for x
      using that b(1-3) f(1) by (intro header_frame) auto
    have "heap_ok (s\<lparr>hmem := ?m\<rparr>) (ps @ [?b] @ rs)"
    proof (rule heap_ok_replace [of s ps "[c]"])
      show "chain ?m ?a [?b]" using heap_ok_hdr [OF ok] oth by (simp add: hdr_def)
    qed (use ok b(2) fr in \<open>auto simp: wf_blk_def\<close>)
    moreover have "malloc_take R ?p s = Some (?p + hsize, ?s)"
      using diff False by (simp add: malloc_take_def Let_def upd_def)
    moreover have "c_size (hmem s) ?p - hsize = of_nat (bsize c - 8)"
      using f(5) b(2) by (simp add: hsize_def)
    ultimately show ?thesis
      using c fr by (intro exI [of _ ?s] exI [of _ "bsize c"] exI [of _ "[]"]) auto
  next
    case True
    let ?o = "?p + R"
    have o1: "?o = of_nat (?a + unat R)" and o2: "unat ?o = ?a + unat R"
      using unat_add_small [of ?p "unat R"] f(1) b(1,3) c(2) by simp_all
    have ap: "apart ?o 8 ?p 8" "apart ?p 8 ?o 8"
      using apart_nat [of ?p 8 ?o 8] f(1) o2 c True b(1,3) apart_sym by auto
    let ?m1 = "set_used ?p True (hmem s)"
    let ?m2 = "(set_notOurs ?o False \<circ> set_used ?o False \<circ> set_magic ?o magic \<circ> set_size ?o (c_size ?m1 ?p - R)) ?m1"
    let ?m3 = "(set_used ?p True \<circ> set_size ?p R) ?m2"
    let ?b1 = "\<lparr>bsize = unat R, bused = True, bother = False\<rparr>" and ?b2 = "\<lparr>bsize = bsize c - unat R, bused = False, bother = False\<rparr>"
    let ?s = "s\<lparr>hmem := ?m3, totalMemAllocated := totalMemAllocated s + (R - hsize), mallocReady := True\<rparr>"
    have szo: "c_size ?m1 ?p - R = of_nat (bsize c - unat R)" "bsize c - unat R < 2 ^ 48"
      using f(5) c(2) b(4) by (simp_all add: of_nat_diff)
    have szp: "take_bit 48 R = R" using take_48 [of "unat R"] c(2) b(4) by simp
    have s2: "c_size ?m2 ?o = of_nat (bsize c - unat R)" "c_size ?m3 ?p = R"
      using take_48 [OF szo(2)] szo(1) szp by (simp_all add: header_apart ap)
    have "unat (of_nat (bsize c - unat R) :: u64) \<noteq> 0"
      using unat_of_nat_small [of "bsize c - unat R"] szo(2) True by (simp del: of_nat_diff)
    then have nz: "of_nat (bsize c - unat R) \<noteq> (0 :: u64)" "R \<noteq> 0" using c(3) by auto
    have fr: "?m3 x = hmem s x" if "unat x < ?a \<or> ?a + bsize c \<le> unat x" for x
    proof -
      have "unat ?o + 8 \<le> 2 ^ 64" "unat x < unat ?o \<or> unat ?o + 8 \<le> unat x" "unat ?p + 8 \<le> 2 ^ 64" "unat x < unat ?p \<or> unat ?p + 8 \<le> unat x"
        using that b(1-3) f(1) o2 c True by auto
      then show ?thesis by (simp add: header_frame)
    qed
    have "heap_ok (s\<lparr>hmem := ?m3\<rparr>) (ps @ [?b1, ?b2] @ rs)"
    proof (rule heap_ok_replace [of s ps "[c]"])
      have "hdr ?m3 ?a ?b1"
        using heap_ok_hdr [OF ok] oth szp by (simp add: hdr_def header_apart ap)
      moreover have "hdr ?m3 (?a + unat R) ?b2"
        unfolding hdr_def o1 [symmetric] using take_48 [OF szo(2)] szo(1) by (simp add: header_apart ap magic_fits)
      ultimately show "chain ?m3 ?a [?b1, ?b2]" by simp
    qed (use ok b(2) fr c True in \<open>auto simp: wf_blk_def\<close>)
    moreover have "malloc_take R ?p s = Some (?p + hsize, ?s)"
      using diff True s2 nz by (simp add: malloc_take_def Let_def upd_def)
    moreover have "R - hsize = of_nat (unat R - 8)" using c(3) by (simp add: hsize_def of_nat_diff)
    ultimately show ?thesis
      using c fr True by (intro exI [of _ ?s] exI [of _ "unat R"] exI [of _ "[?b2]"]) auto
  qed
qed


lemma free_blocks_live: "\<forall>b \<in> set cs. \<not> bused b \<and> \<not> bother b \<Longrightarrow>
   live a cs = {} \<and> wrappers a cs = {} \<and> payload cs = 0 \<and> gaps a cs = {a ..< a + span cs}"
  by (induction cs arbitrary: a) (auto simp: ivl_disj_un)

lemma take_live:
  assumes ok: "heap_ok s (qs @ c # rs)" and c: "\<not> bused c" "unat R \<le> bsize c" "32 \<le> unat R"
  defines "f \<equiv> unat (firstChunk s)" and "bs \<equiv> qs @ c # rs"
  shows "\<exists>a k s' bs'. malloc_take R (firstChunk s + of_nat (span qs)) s = Some (of_nat (a + 8), s') \<and> a + k < 2 ^ 64 \<and>
    heap_ok s' bs' \<and> mallocReady s' \<and> firstChunk s' = firstChunk s \<and> endOfChunks s' = endOfChunks s \<and> unat R \<le> k \<and>
    live f bs' = insert (a, k) (live f bs) \<and> wrappers f bs' = wrappers f bs \<and> {a ..< a + k} \<subseteq> gaps f bs \<and>
    payload bs' = payload bs + (k - 8) \<and> totalMemAllocated s' = totalMemAllocated s + of_nat (k - 8) \<and>
    (\<forall>x. unat x \<notin> gaps f bs \<longrightarrow> hmem s' x = hmem s x)"
proof -
  let ?a = "f + span qs"
  obtain s' k cs where t: "malloc_take R (firstChunk s + of_nat (span qs)) s = Some (firstChunk s + of_nat (span qs) + hsize, s')"
    "heap_ok s' (qs @ \<lparr>bsize = k, bused = True, bother = False\<rparr> # cs @ rs)" "unat R \<le> k" "k + span cs = bsize c"
    "\<forall>b \<in> set cs. \<not> bused b \<and> \<not> bother b" "mallocReady s'" "firstChunk s' = firstChunk s"
    "totalMemAllocated s' = totalMemAllocated s + of_nat (k - 8)"
    "\<forall>x. unat x \<notin> {?a ..< ?a + bsize c} \<longrightarrow> hmem s' x = hmem s x"
    using take_ok [OF ok c] by (auto simp: f_def)
  let ?b = "\<lparr>bsize = k, bused = True, bother = False\<rparr>"
  note cs = free_blocks_live [OF t(5), of "?a + k"]
  have oth: "\<not> bother c" using ok c(1) by (auto simp: heap_ok_def wf_blk_def)
  have gap: "{?a ..< ?a + bsize c} \<subseteq> gaps f bs" unfolding bs_def using c(1) by auto
  have "unat (endOfChunks s') = unat (endOfChunks s)" using t(2,4,7) ok by (simp add: heap_ok_def)
  then have "endOfChunks s' = endOfChunks s" by (simp add: word_unat_eq_iff)
  moreover have "live f (qs @ ?b # cs @ rs) = insert (?a, k) (live f bs)"
    unfolding bs_def using cs c(1) t(4) by (auto simp: add.assoc)
  moreover have "wrappers f (qs @ ?b # cs @ rs) = wrappers f bs"
    unfolding bs_def using cs oth t(4) by (auto simp: add.assoc)
  moreover have "payload (qs @ ?b # cs @ rs) = payload bs + (k - 8)"
    unfolding bs_def using cs c(1) by auto
  moreover have "{?a ..< ?a + k} \<subseteq> gaps f bs" using gap t(4) by auto
  moreover have "\<forall>x. unat x \<notin> gaps f bs \<longrightarrow> hmem s' x = hmem s x" using t(9) gap by blast
  moreover have "?a + k < 2 ^ 64" using heap_ok_bounds [OF ok] t(4) by (simp add: f_def)
  moreover have "firstChunk s + of_nat (span qs) + hsize = of_nat (?a + 8)" by (simp add: f_def hsize_def)
  ultimately show ?thesis using t(1,2,3,6,7,8)
    by (intro exI [of _ ?a] exI [of _ k] exI [of _ s'] exI [of _ "qs @ ?b # cs @ rs"] conjI) simp_all
qed

lemma real_size_ge: "32 \<le> unat (real_size sz)"
  by (simp add: real_size_def MALLOC_MINSIZE_def word_less_nat_alt not_less)

lemma malloc_live:
  assumes ok: "heap_ok s bs" "mallocReady s" and sz: "sz \<noteq> 0" "unat sz < 2 ^ 47"
    and fit: "\<exists>b \<in> set bs. \<not> bused b \<and> unat (real_size sz) \<le> bsize b"
    and nu: "pg_unmapped P (pager s) = Some (nu, p)" "\<forall>w \<in> wrappers (unat (firstChunk s)) bs. w + 8 \<noteq> unat nu"
  shows "\<exists>a k s' bs'. malloc P sz s = Some (of_nat (a + 8), s') \<and> a + k < 2 ^ 64 \<and> heap_ok s' bs' \<and> mallocReady s' \<and> firstChunk s' = firstChunk s \<and>
    unat (real_size sz) \<le> k \<and> live (unat (firstChunk s)) bs' = insert (a, k) (live (unat (firstChunk s)) bs) \<and>
    wrappers (unat (firstChunk s)) bs' = wrappers (unat (firstChunk s)) bs \<and>
    {a ..< a + k} \<subseteq> gaps (unat (firstChunk s)) bs \<and> payload bs' = payload bs + (k - 8) \<and>
    totalMemAllocated s' = totalMemAllocated s + of_nat (k - 8) \<and>
    (\<forall>x. unat x \<notin> gaps (unat (firstChunk s)) bs \<longrightarrow> hmem s' x = hmem s x)"
proof -
  let ?f = "firstChunk s" and ?R = "real_size sz"
  let ?s0 = "s\<lparr>mallocReady := False, pager := p\<rparr>"
  have s0: "heap_ok ?s0 bs" "bs \<noteq> []" using ok(1) fit by (auto simp: heap_ok_def)
  obtain s1 qs c rs where s1: "malloc_search P sz ?R ?f 0 nu ?s0 = Some (?f + of_nat (span qs), s1)" "heap_ok s1 (qs @ c # rs)"
    "\<not> bused c" "unat ?R \<le> bsize c" "unnoticed ?s0 bs s1 (qs @ c # rs)"
    using search_total [where s = ?s0 and ps = "[]" and rest = bs and other = 0 and nu = nu and P = P and sz = sz and R = ?R] s0 fit nu(2) by auto
  have un: "firstChunk s1 = ?f" "totalMemAllocated s1 = totalMemAllocated s"
    "live (unat ?f) (qs @ c # rs) = live (unat ?f) bs" "gaps (unat ?f) (qs @ c # rs) = gaps (unat ?f) bs"
    "wrappers (unat ?f) (qs @ c # rs) = wrappers (unat ?f) bs" "payload (qs @ c # rs) = payload bs"
    "\<And>x. unat x \<notin> gaps (unat ?f) bs \<Longrightarrow> hmem s1 x = hmem s x"
    using s1(5) by (auto simp: unnoticed_def Let_def)
  have m: "malloc P sz s = malloc_take ?R (?f + of_nat (span qs)) s1"
    using ok(2) sz(1) nu(1) s1(1) by (simp add: malloc_def unmapped_vaddr_def)
  show ?thesis
    unfolding m using take_live [OF s1(2-4) real_size_ge, unfolded un(1-6)] un(7) by (metis (no_types, lifting))
qed

subsection \<open>Freeing\<close>

lemma free_merge_ok:
  assumes "heap_ok s (ps @ c # fs @ rs)" "\<not> bused c" "\<forall>b \<in> set fs. \<not> bused b" "rs = [] \<or> bused (hd rs)"
  shows "\<exists>s'. free_merge (firstChunk s + of_nat (span ps)) s = Some (firstChunk s + of_nat (span (ps @ c # fs)), s') \<and>
    heap_ok s' (ps @ \<lparr>bsize = bsize c + span fs, bused = False, bother = False\<rparr> # rs) \<and>
    unnoticed s (ps @ c # fs @ rs) s' (ps @ \<lparr>bsize = bsize c + span fs, bused = False, bother = False\<rparr> # rs)"
  using assms
proof (induction fs arbitrary: c s)
  case Nil
  let ?p = "firstChunk s + of_nat (span ps)" and ?q = "firstChunk s + of_nat (span (ps @ [c]))"
  have ok: "heap_ok s (ps @ c # rs)" using Nil by simp
  note f = ptr_facts [OF ok]
  have oth: "\<not> bother c" using ok Nil by (auto simp: heap_ok_def wf_blk_def)
  have stop: "(?q \<noteq> 0 \<and> ?q < endOfChunks s \<and> \<not> c_used (hmem s) ?q) = False"
  proof (cases rs)
    case Nil
    then show ?thesis using f(10) by simp
  next
    case (Cons r rs')
    then have "heap_ok s ((ps @ [c]) @ r # rs')" using ok by simp
    from ptr_facts(4) [OF this] show ?thesis using Nil Cons by simp
  qed
  have "free_merge ?p s = Some (?q, s)"
    by (subst free_merge.simps) (simp only: Let_def f(9) stop if_False)
  moreover have "c = \<lparr>bsize = bsize c + span [], bused = False, bother = False\<rparr>" using oth Nil by simp
  ultimately show ?case using ok unnoticed_refl [of s "ps @ c # rs"] by (metis append_Nil)
next
  case (Cons d fs)
  let ?p = "firstChunk s + of_nat (span ps)" and ?q = "firstChunk s + of_nat (span (ps @ [c]))"
  have ok: "heap_ok s (ps @ c # d # fs @ rs)" and ok2: "heap_ok s ((ps @ [c]) @ d # fs @ rs)" and free: "\<not> bused c" "\<not> bused d"
    using Cons by simp_all
  note f = ptr_facts [OF ok] and g = ptr_facts [OF ok2]
  let ?m = "\<lparr>bsize = bsize c + bsize d, bused = False, bother = False\<rparr>"
  let ?s = "upd (set_size ?p (c_size (hmem s) ?p + c_size (hmem s) ?q)) s"
  have s: "?s = upd (set_size (of_nat (unat (firstChunk s) + span ps)) (of_nat (bsize c) + of_nat (bsize d))) s"
    using f(5) g(5) by simp
  have un: "unnoticed s (ps @ c # d # fs @ rs) ?s (ps @ ?m # fs @ rs)" using merge_unnoticed [OF ok free] s by simp
  have ok': "heap_ok ?s (ps @ ?m # fs @ rs)" using merge_ok(1) [OF ok free] s by simp
  have fs: "firstChunk ?s = firstChunk s" by (simp add: upd_def)
  have "apart ?p 8 ?q 8"
    using f(1) g(1) heap_ok_bounds [OF ok] heap_ok_bounds [OF ok2] by (intro apart_nat) simp_all
  then have "c_size (hmem ?s) ?q = c_size (hmem s) ?q" by (simp add: upd_def header_apart)
  then have nz: "c_size (hmem ?s) ?p \<noteq> 0" "c_size (hmem ?s) ?q \<noteq> 0"
    using ptr_facts(6) [OF ok'] heap_ok_bounds(2) [OF ok] g(6) heap_ok_bounds(2) [OF ok2] fs by auto
  have step: "free_merge ?p s = free_merge (firstChunk ?s + of_nat (span ps)) ?s"
  proof -
    have go: "(?q \<noteq> 0 \<and> ?q < endOfChunks s \<and> \<not> c_used (hmem s) ?q) = True" "(c_magic (hmem s) ?p \<noteq> magic) = False"
      "(c_size (hmem ?s) ?p = 0) = False" "(c_size (hmem ?s) ?q = 0) = False"
      using f(7) g(2-4) free nz by auto
    show ?thesis by (subst free_merge.simps) (simp only: Let_def f(9) go fs if_True if_False)
  qed
  have fin: "bsize ?m + span fs = bsize c + span (d # fs)" by simp
  obtain s' where s': "free_merge (firstChunk ?s + of_nat (span ps)) ?s = Some (firstChunk ?s + of_nat (span (ps @ ?m # fs)), s')"
    "heap_ok s' (ps @ \<lparr>bsize = bsize ?m + span fs, bused = False, bother = False\<rparr> # rs)"
    "unnoticed ?s (ps @ ?m # fs @ rs) s' (ps @ \<lparr>bsize = bsize ?m + span fs, bused = False, bother = False\<rparr> # rs)"
    using Cons.IH [of ?s ?m] ok' Cons.prems by auto
  have "span (ps @ ?m # fs) = span (ps @ c # d # fs)" by simp
  then show ?case using step s' unnoticed_trans [OF un] fs unfolding fin by auto
qed


lemma live_split:
  "(x, k) \<in> live a bs \<Longrightarrow> \<exists>ps c rs. bs = ps @ c # rs \<and> x = a + span ps \<and> bused c \<and> bsize c = k"
proof (induction bs arbitrary: a)
  case (Cons b bs)
  show ?case
  proof (cases "(x, k) \<in> live (a + bsize b) bs")
    case True
    from Cons.IH [OF this] obtain ps c rs where "bs = ps @ c # rs" "x = a + bsize b + span ps" "bused c" "bsize c = k" by blast
    then show ?thesis by (intro exI [of _ "b # ps"] exI [of _ c] exI [of _ rs]) simp
  next
    case False
    then have "bused b" "x = a" "k = bsize b" using Cons.prems by (auto split: if_splits)
    then show ?thesis by (intro exI [of _ "[]"] exI [of _ b] exI [of _ bs]) simp
  qed
qed simp

lemma live_within: "(x, k) \<in> live a bs \<Longrightarrow> \<forall>b \<in> set bs. wf_blk b \<Longrightarrow> a \<le> x \<and> x < a + span bs"
  by (induction bs arbitrary: a) (fastforce simp: wf_blk_def split: if_splits)+

text \<open>Marking a chunk free.\<close>

lemma unuse_ok:
  assumes ok: "heap_ok s (ps @ c # rs)" and c: "\<not> bother c"
  shows "heap_ok (upd (set_used (firstChunk s + of_nat (span ps)) False) s) (ps @ \<lparr>bsize = bsize c, bused = False, bother = False\<rparr> # rs)"
    and "\<And>x. unat x \<notin> {unat (firstChunk s) + span ps ..< unat (firstChunk s) + span ps + bsize c} \<Longrightarrow>
      hmem (upd (set_used (firstChunk s + of_nat (span ps)) False) s) x = hmem s x"
proof -
  let ?a = "unat (firstChunk s) + span ps" and ?p = "firstChunk s + of_nat (span ps)"
  let ?m = "set_used ?p False (hmem s)" and ?b = "\<lparr>bsize = bsize c, bused = False, bother = False\<rparr>"
  note f = ptr_facts [OF ok] and b = heap_ok_bounds [OF ok]
  have fr: "?m x = hmem s x" if "unat x < ?a \<or> ?a + bsize c \<le> unat x" for x
    using that b(1-3) f(1) by (intro header_frame) auto
  have "heap_ok (s\<lparr>hmem := ?m\<rparr>) (ps @ [?b] @ rs)"
  proof (rule heap_ok_replace [of s ps "[c]"])
    show "chain ?m ?a [?b]" using heap_ok_hdr [OF ok] c by (simp add: hdr_def)
  qed (use ok b(2) fr in \<open>auto simp: wf_blk_def\<close>)
  then show "heap_ok (upd (set_used ?p False) s) (ps @ ?b # rs)" by (simp add: upd_def)
  show "hmem (upd (set_used ?p False) s) x = hmem s x" if "unat x \<notin> {?a ..< ?a + bsize c}" for x
  proof -
    have "unat x < ?a \<or> ?a + bsize c \<le> unat x" using that by auto
    from fr [OF this] show ?thesis by (simp add: upd_def)
  qed
qed

lemma for_each_unmap:
  assumes "\<And>va p. \<exists>p'. pg_unmap P va p = Some p'"
  shows "\<exists>p'. for_each (\<lambda>i s. unmap_page P (g s i) s) xs s = Some (s\<lparr>pager := p'\<rparr>)"
proof (induction xs arbitrary: s)
  case Nil
  show ?case by (rule exI [of _ "pager s"]) simp
next
  case (Cons i xs)
  obtain p' where "pg_unmap P (g s i) (pager s) = Some p'" using assms by blast
  then show ?case using Cons [of "s\<lparr>pager := p'\<rparr>"] by (auto simp: unmap_page_def)
qed

lemma trim_end_ok:
  assumes ok: "heap_ok s (ps @ [c])" and c: "\<not> bused c" "4096 \<le> bsize c"
    and r: "bsize c mod 4096 = 0 \<or> 8 \<le> bsize c mod 4096" and P: "\<And>va p. \<exists>p'. pg_unmap P va p = Some p'"
  shows "\<exists>s'. trim_end P (firstChunk s + of_nat (span ps)) s = Some s' \<and> firstChunk s' = firstChunk s \<and>
    totalMemAllocated s' = totalMemAllocated s \<and>
    heap_ok s' (ps @ (if bsize c mod 4096 = 0 then [] else [\<lparr>bsize = bsize c mod 4096, bused = False, bother = False\<rparr>])) \<and>
    (\<forall>x. unat x \<notin> {unat (firstChunk s) + span ps ..< unat (firstChunk s) + span ps + bsize c} \<longrightarrow> hmem s' x = hmem s x)"
proof -
  let ?a = "unat (firstChunk s) + span ps" and ?p = "firstChunk s + of_nat (span ps)"
  note f = ptr_facts [OF ok] and b = heap_ok_bounds [OF ok]
  let ?n = "c_size (hmem s) ?p div PAGESIZE"
  let ?m = "set_size ?p (c_size (hmem s) ?p - PAGESIZE * ?n) (hmem s)"
  let ?e = "endOfChunks s - PAGESIZE * ?n"
  have n: "unat ?n = bsize c div 4096" using f(6) by (simp add: unat_div PAGESIZE_def)
  have pn: "unat (PAGESIZE * ?n) = 4096 * (bsize c div 4096)"
  proof -
    have "4096 * (bsize c div 4096) \<le> bsize c" by simp
    also note b(4)
    also have "(2 :: nat) ^ 48 < 2 ^ 64" by simp
    finally have "4096 * (bsize c div 4096) < 2 ^ 64" .
    then show ?thesis using n by (simp add: unat_word_ariths PAGESIZE_def)
  qed
  have le: "PAGESIZE * ?n \<le> c_size (hmem s) ?p" using pn f(6) by (simp add: word_le_nat_alt)
  have sz: "unat (c_size (hmem s) ?p - PAGESIZE * ?n) = bsize c mod 4096"
    using unat_sub [OF le] pn f(6) by (simp add: minus_mult_div_eq_mod)
  have e: "unat ?e = ?a + bsize c mod 4096"
  proof -
    have en: "PAGESIZE * ?n \<le> endOfChunks s" using pn b(1) by (simp add: word_le_nat_alt)
    have "unat ?e = ?a + bsize c - 4096 * (bsize c div 4096)" unfolding unat_sub [OF en] pn using b(1) by simp
    also have "\<dots> = ?a + (bsize c - 4096 * (bsize c div 4096))" by simp
    finally show ?thesis by (simp add: minus_mult_div_eq_mod)
  qed
  have fr: "?m x = hmem s x" if "unat x < ?a \<or> ?a + bsize c \<le> unat x" for x
    using that b(1-3) f(1) by (intro header_frame) auto
  let ?s0 = "s\<lparr>hmem := ?m, endOfChunks := ?e, totalMemUsed := totalMemUsed s - PAGESIZE * ?n\<rparr>"
  obtain p' where p': "trim_end P ?p s = Some (?s0\<lparr>pager := p'\<rparr>)"
    using for_each_unmap [where g = "\<lambda>s i. endOfChunks s + hsize + PAGESIZE * of_nat i" and P = P and xs = "[0..<unat ?n]" and s = ?s0] P
    by (auto simp: trim_end_def Let_def upd_def)
  have wf: "\<forall>b \<in> set ps. wf_blk b" and ch: "chain (hmem s) (unat (firstChunk s)) ps" and oth: "\<not> bother c"
    using ok c(1) by (auto simp: heap_ok_def wf_blk_def)
  have ch': "chain ?m (unat (firstChunk s)) ps"
    using ch fr b chain_frame [of "unat (firstChunk s)" ps ?m "hmem s"] wf by auto
  let ?c = "\<lparr>bsize = bsize c mod 4096, bused = False, bother = False\<rparr>"
  have "hdr ?m ?a ?c"
  proof -
    have "c_size (hmem s) ?p - PAGESIZE * ?n = of_nat (bsize c mod 4096)" unfolding sz [symmetric] by simp
    moreover have "take_bit 48 (of_nat (bsize c mod 4096) :: u64) = of_nat (bsize c mod 4096)"
      by (rule take_48) (use b(4) mod_le_divisor in \<open>simp add: order.strict_trans1 [OF mod_less_eq_dividend]\<close>)
    ultimately show ?thesis using heap_ok_hdr [OF ok] c(1) oth by (simp add: hdr_def)
  qed
  moreover have "span ps + bsize c mod 4096 < 2 ^ 48" using b(5) mod_less_eq_dividend [of "bsize c" 4096] by simp
  ultimately have "heap_ok ?s0 (ps @ (if bsize c mod 4096 = 0 then [] else [?c]))"
    using ok wf ch' e r by (auto simp: heap_ok_def wf_blk_def)
  then show ?thesis using p' fr by auto
qed


lemma free_live:
  assumes ok: "heap_ok s bs" "mallocReady s" and v: "(a, k) \<in> live (unat (firstChunk s)) bs" "a \<notin> wrappers (unat (firstChunk s)) bs"
    and P: "\<And>va p. \<exists>p'. pg_unmap P va p = Some p'"
    and tail: "(unat (endOfChunks s) - a) mod 4096 = 0 \<or> 8 \<le> (unat (endOfChunks s) - a) mod 4096"
  shows "\<exists>s' bs'. free P (of_nat (a + 8)) s = Some s' \<and> heap_ok s' bs' \<and> mallocReady s' \<and> firstChunk s' = firstChunk s \<and>
    live (unat (firstChunk s)) bs' = live (unat (firstChunk s)) bs - {(a, k)} \<and>
    wrappers (unat (firstChunk s)) bs' = wrappers (unat (firstChunk s)) bs \<and> payload bs' + (k - 8) = payload bs \<and>
    totalMemAllocated s' = totalMemAllocated s - of_nat (k - 8) \<and>
    (\<forall>x. unat x \<notin> gaps (unat (firstChunk s)) bs \<union> {a ..< a + k} \<longrightarrow> hmem s' x = hmem s x)"
proof -
  let ?f = "firstChunk s"
  obtain ps c rs where bs: "bs = ps @ c # rs" "a = unat ?f + span ps" "bused c" "bsize c = k" using live_split [OF v(1)] by blast
  have oth: "\<not> bother c" using v(2) bs by auto
  define fs where "fs = takeWhile (\<lambda>b. \<not> bused b) rs"
  define rs' where "rs' = dropWhile (\<lambda>b. \<not> bused b) rs"
  have rs: "rs = fs @ rs'" "\<forall>b \<in> set fs. \<not> bused b" "rs' = [] \<or> bused (hd rs')"
    using hd_dropWhile [of "\<lambda>b. \<not> bused b" rs] by (auto simp: fs_def rs'_def dest: set_takeWhileD)
  have okc: "heap_ok s (ps @ c # rs)" using ok bs by simp
  note f = ptr_facts [OF okc] and b = heap_ok_bounds [OF okc]
  let ?p = "?f + of_nat (span ps)"
  let ?c0 = "\<lparr>bsize = k, bused = False, bother = False\<rparr>" and ?m = "\<lparr>bsize = k + span fs, bused = False, bother = False\<rparr>"
  have a64: "a + 8 < 2 ^ 64" using b bs(2,4) by simp
  have vp: "of_nat (a + 8) - hsize = ?p" "of_nat (a + 8) \<noteq> (0 :: u64)"
  proof -
    show "of_nat (a + 8) - hsize = ?p" by (simp add: bs(2) hsize_def)
    have "unat (of_nat (a + 8) :: u64) \<noteq> 0" unfolding unat_of_nat_small [OF a64] by simp
    then show "of_nat (a + 8) \<noteq> (0 :: u64)" using unat_eq_0 by metis
  qed
  let ?s1 = "(upd (set_used ?p False) (s\<lparr>mallocReady := False\<rparr>))\<lparr>totalMemAllocated := totalMemAllocated s - of_nat (k - 8)\<rparr>"
  have s1: "?s1 = (upd (set_used ?p False) s)\<lparr>mallocReady := False, totalMemAllocated := totalMemAllocated s - of_nat (k - 8)\<rparr>"
    by (simp add: upd_def)
  have ok1: "heap_ok ?s1 (ps @ ?c0 # fs @ rs')"
    unfolding s1 using unuse_ok(1) [OF okc oth] rs(1) bs(4) by simp
  have fr1: "hmem ?s1 x = hmem s x" if "unat x \<notin> {a ..< a + k}" for x
    using unuse_ok(2) [OF okc oth, of x] that bs(2,4) by (simp add: upd_def)
  obtain s2 where s2: "free_merge ?p ?s1 = Some (?f + of_nat (span (ps @ ?c0 # fs)), s2)" "heap_ok s2 (ps @ ?m # rs')"
    "unnoticed ?s1 (ps @ ?c0 # fs @ rs') s2 (ps @ ?m # rs')"
    using free_merge_ok [OF ok1 _ rs(2,3)] by (auto simp: upd_def)
  have f2: "firstChunk s2 = ?f" "totalMemAllocated s2 = totalMemAllocated s - of_nat (k - 8)" "endOfChunks s2 = endOfChunks s"
    and fr2: "\<And>x. unat x \<notin> gaps (unat ?f) (ps @ ?c0 # fs @ rs') \<Longrightarrow> hmem s2 x = hmem ?s1 x"
    using s2(3) by (auto simp: unnoticed_def Let_def upd_def)
  let ?other = "?f + of_nat (span (ps @ ?c0 # fs))"
  define trim where "trim \<longleftrightarrow> ?other = endOfChunks s \<and> c_size (hmem s2) ?p \<ge> PAGESIZE"
  have free: "free P (of_nat (a + 8)) s =
      do { s3 \<leftarrow> (if trim then trim_end P ?p s2 else Some s2); Some (s3\<lparr>mallocReady := True\<rparr>) }"
  proof -
    have "c_size (hmem s) ?p - hsize = of_nat (k - 8)" using f(5) b(2) bs(4) by (simp add: hsize_def)
    then show ?thesis
      using ok(2) vp f(4,7) bs(3) s2(1) f2(3) by (simp add: free_def Let_def upd_def trim_def del: span_append)
  qed
  have wfs: "\<forall>b \<in> set fs. \<not> bused b \<and> \<not> bother b" using okc rs(1,2) by (auto simp: heap_ok_def wf_blk_def)
  note fsl = free_blocks_live [OF wfs, of "a + k"]
  have nin: "(a, k) \<notin> live (unat ?f) ps" "(a, k) \<notin> live (a + (k + span fs)) rs'"
    using live_within [of a k "unat ?f" ps] live_within [of a k "a + (k + span fs)" rs'] okc rs(1) bs(2) b(2) bs(4)
    by (auto simp: heap_ok_def)
  have lv: "live (unat ?f) bs - {(a, k)} = live (unat ?f) ps \<union> live (a + (k + span fs)) rs'"
    "wrappers (unat ?f) bs = wrappers (unat ?f) ps \<union> wrappers (a + (k + span fs)) rs'"
    "payload bs = payload ps + (k - 8) + payload rs'"
    "gaps (unat ?f) bs \<union> {a ..< a + k} = gaps (unat ?f) (ps @ ?c0 # fs @ rs')"
    using nin fsl oth by (auto simp: bs(1,3,4) bs(2)[symmetric] rs(1) add.assoc)
  have fr: "hmem s2 x = hmem s x" if "unat x \<notin> gaps (unat ?f) bs \<union> {a ..< a + k}" for x
  proof -
    have "unat x \<notin> {a ..< a + k}" "unat x \<notin> gaps (unat ?f) (ps @ ?c0 # fs @ rs')" using that lv(4) by blast+
    from fr1 [OF this(1)] fr2 [OF this(2)] show ?thesis by simp
  qed
  show ?thesis
  proof (cases trim)
    case False
    have t: "live (unat ?f) (ps @ ?m # rs') = live (unat ?f) bs - {(a, k)}" "wrappers (unat ?f) (ps @ ?m # rs') = wrappers (unat ?f) bs"
      "payload (ps @ ?m # rs') + (k - 8) = payload bs"
      unfolding lv(1-3) by (simp_all add: bs(2))
    show ?thesis
      by (rule exI [of _ "s2\<lparr>mallocReady := True\<rparr>"], rule exI [of _ "ps @ ?m # rs'"], unfold t)
        (use free s2(2) f2 fr False in simp)
  next
    case True
    have okm: "heap_ok ?s1 ((ps @ ?c0 # fs) @ rs')" using ok1 by simp
    have rs': "rs' = []"
    proof (cases rs')
      case (Cons r rest)
      then have "?other < endOfChunks s" using okm ptr_facts(3) [of ?s1 "ps @ ?c0 # fs" r rest] by (simp add: upd_def del: span_append)
      then show ?thesis using True by (simp add: trim_def)
    qed
    have s2': "heap_ok s2 (ps @ [?m])" using s2(2) rs' by simp
    have e: "unat (endOfChunks s) - a = k + span fs" using heap_ok_bounds(1) [OF s2'] f2 bs(2) by simp
    have big: "4096 \<le> bsize ?m" using True ptr_facts(6) [OF s2'] f2(1) by (simp add: trim_def word_le_nat_alt PAGESIZE_def)
    obtain s3 where s3: "trim_end P ?p s2 = Some s3" "firstChunk s3 = ?f" "totalMemAllocated s3 = totalMemAllocated s2"
      "heap_ok s3 (ps @ (if bsize ?m mod 4096 = 0 then [] else [\<lparr>bsize = bsize ?m mod 4096, bused = False, bother = False\<rparr>]))"
      "\<forall>x. unat x \<notin> {a ..< a + bsize ?m} \<longrightarrow> hmem s3 x = hmem s2 x"
      using trim_end_ok [OF s2' _ big _ P] tail e f2 bs(2) by auto
    let ?t = "if bsize ?m mod 4096 = 0 then [] else [\<lparr>bsize = bsize ?m mod 4096, bused = False, bother = False\<rparr>]"
    have t: "live (unat ?f) (ps @ ?t) = live (unat ?f) bs - {(a, k)}" "wrappers (unat ?f) (ps @ ?t) = wrappers (unat ?f) bs"
      "payload (ps @ ?t) + (k - 8) = payload bs"
      unfolding lv(1-3) rs' by simp_all
    have "hmem s3 x = hmem s x" if "unat x \<notin> gaps (unat ?f) bs \<union> {a ..< a + k}" for x
    proof -
      have "gaps (unat ?f) (ps @ ?c0 # fs @ rs') = gaps (unat ?f) ps \<union> {a ..< a + k} \<union> {a + k ..< a + k + span fs}"
        using fsl by (simp add: bs(2) rs' Un_assoc)
      then have "unat x \<notin> {a ..< a + bsize ?m}" using that unfolding lv(4) by auto
      then show ?thesis using s3(5) fr [OF that] by simp
    qed
    then show ?thesis
      by (intro exI [of _ "s3\<lparr>mallocReady := True\<rparr>"] exI [of _ "ps @ ?t"], unfold t) (use free True s3 f2(2) in simp)
  qed
qed


subsection \<open>Properties\<close>

text \<open>
  C6: On a well-formed heap with a free chunk large enough, in which no page that was wrapped as in
  other use is the next unmapped one, \<open>malloc\<close> returns a block that lies in memory that was free, at least as large as asked for; the heap stays well formed, its live
  blocks are the old ones and the new one, the memory in use is counted exactly, and no byte
  outside the free chunks changes.
\<close>

theorem malloc_allocates:
  assumes "heap_ok s bs" "mallocReady s" "sz \<noteq> 0" "unat sz < 2 ^ 47"
    and "\<exists>b \<in> set bs. \<not> bused b \<and> unat (real_size sz) \<le> bsize b"
    and "pg_unmapped P (pager s) = Some (nu, p)" "\<forall>w \<in> wrappers (unat (firstChunk s)) bs. w + 8 \<noteq> unat nu"
  shows "\<exists>a k s' bs'. malloc P sz s = Some (of_nat (a + 8), s') \<and> heap_ok s' bs' \<and> mallocReady s' \<and> unat sz + 8 \<le> k \<and>
    live (unat (firstChunk s)) bs' = insert (a, k) (live (unat (firstChunk s)) bs) \<and>
    {a ..< a + k} \<subseteq> gaps (unat (firstChunk s)) bs \<and>
    totalMemAllocated s' = totalMemAllocated s + of_nat (k - 8) \<and>
    (\<forall>x. unat x \<notin> gaps (unat (firstChunk s)) bs \<longrightarrow> hmem s' x = hmem s x)"
proof -
  have "unat sz + 8 \<le> unat (real_size sz)"
    using assms(4) unat_add_small [of sz 8]
    by (auto simp: real_size_def hsize_def MALLOC_MINSIZE_def word_less_nat_alt add.commute)
  then show ?thesis using malloc_live [OF assms] by (meson le_trans)
qed

text \<open>
  C7: Freeing a live block returns and takes exactly that block from the live ones: the heap stays
  well formed, every other block keeps its address, size and contents, and the count of memory
  in use goes down by the block's size.  (A trim that would leave a tail of 1 to 7 bytes is
  excluded: its header would not fit.)
\<close>

theorem free_releases:
  assumes "heap_ok s bs" "mallocReady s" "(a, k) \<in> live (unat (firstChunk s)) bs" "a \<notin> wrappers (unat (firstChunk s)) bs"
    and "\<And>va p. \<exists>p'. pg_unmap P va p = Some p'"
    and "(unat (endOfChunks s) - a) mod 4096 = 0 \<or> 8 \<le> (unat (endOfChunks s) - a) mod 4096"
  shows "\<exists>s' bs'. free P (of_nat (a + 8)) s = Some s' \<and> heap_ok s' bs' \<and> mallocReady s' \<and>
    live (unat (firstChunk s)) bs' = live (unat (firstChunk s)) bs - {(a, k)} \<and>
    totalMemAllocated s' = totalMemAllocated s - of_nat (k - 8) \<and>
    (\<forall>x. unat x \<notin> gaps (unat (firstChunk s)) bs \<union> {a ..< a + k} \<longrightarrow> hmem s' x = hmem s x)"
  using free_live [OF assms] by blast

text \<open>
  A block that is freed although it is not in use stops the kernel: the second of two frees,
  while the chunk's header is still there, never returns.
\<close>

theorem free_unused_halts:
  assumes "heap_ok s (ps @ c # rs)" "mallocReady s" "\<not> bused c"
  shows "free P (firstChunk s + of_nat (span ps) + hsize) s = None"
proof -
  note f = ptr_facts [OF assms(1)] and b = heap_ok_bounds [OF assms(1)]
  have "unat (firstChunk s + of_nat (span ps) + of_nat 8) = unat (firstChunk s) + span ps + 8"
    using f(1) b by (subst unat_add_small) simp_all
  then have "firstChunk s + of_nat (span ps) + hsize \<noteq> 0" by (auto simp: hsize_def)
  then show ?thesis using assms(2,3) f(4) by (simp add: free_def Let_def)
qed

text \<open>
  \<open>Malloc::init\<close> establishes the invariant the other operations keep: one free chunk that
  fills the page it was given but for the eight bytes kept behind the end.
\<close>

theorem malloc_init_establishes:
  assumes "pg_map P 0 (pager s) = Some (r, contents, p)" "r \<noteq> 0" "unat r + 4096 \<le> 2 ^ 64"
  shows "\<exists>s'. malloc_init P s = Some s' \<and> heap_ok s' [\<lparr>bsize = 4088, bused = False, bother = False\<rparr>] \<and> mallocReady s' \<and>
    live (unat (firstChunk s')) [\<lparr>bsize = 4088, bused = False, bother = False\<rparr>] = {}"
proof -
  have "take_bit 48 4088 = (4088 :: u64)" using take_48 [of 4088] by simp
  moreover have "unat (4088 + r) = unat r + 4088" using unat_add_small [of r 4088] assms(3) by (simp add: add.commute)
  ultimately show ?thesis using assms
    by (simp add: malloc_init_def map_page_def Let_def upd_def heap_ok_def hdr_def wf_blk_def magic_fits PAGESIZE_def hsize_def)
qed

text \<open>A heap of one page, as \<open>init\<close> leaves it, and a pager that finds nothing to unmap.\<close>

definition heap0 :: "nat heap" where
  "heap0 = \<lparr>hmem = (set_notOurs 0x400000 False \<circ> set_used 0x400000 False \<circ> set_magic 0x400000 magic \<circ> set_size 0x400000 4088) (\<lambda>_. 0),
     firstChunk = 0x400000, endOfChunks = 0x400FF8, totalMemUsed = 4096, totalMemAllocated = 0, mallocReady = True,
     allocRecords_size = 0, allocRecords_elems = 0, noRecordSelf = False, pager = 0\<rparr>"

definition pager0 :: "nat pager_ops" where
  "pager0 = \<lparr>pg_map = (\<lambda>va n. Some (va, replicate 4096 0, n)), pg_unmapped = (\<lambda>n. Some (0x401000, n)), pg_unmap = (\<lambda>va n. Some n)\<rparr>"

lemma heap0_ok: "heap_ok heap0 [\<lparr>bsize = 4088, bused = False, bother = False\<rparr>]"
proof -
  have "take_bit 48 4088 = (4088 :: u64)" using take_48 [of 4088] by simp
  then show ?thesis by (simp add: heap_ok_def heap0_def hdr_def wf_blk_def magic_fits)
qed


lemma heap0_facts: "mallocReady heap0" "firstChunk heap0 = 0x400000" "endOfChunks heap0 = 0x400FF8" "pager heap0 = 0"
  "\<And>va p. \<exists>p'. pg_unmap pager0 va p = Some p'" "pg_unmapped pager0 0 = Some (0x401000, 0)"
  by (simp_all add: heap0_def pager0_def)

theorem malloc_allocates_witness:
  "\<exists>a k s'. malloc pager0 100 heap0 = Some (of_nat (a + 8), s') \<and> 108 \<le> k \<and> totalMemAllocated s' = totalMemAllocated heap0 + of_nat (k - 8)"
  using malloc_allocates [OF heap0_ok heap0_facts(1), of 100 pager0 "0x401000" 0]
  by (fastforce simp: heap0_facts real_size_def hsize_def MALLOC_MINSIZE_def)

theorem malloc_init_establishes_witness:
  "\<exists>s'. malloc_init \<lparr>pg_map = (\<lambda>va n. Some (0x400000, replicate 4096 0, n)), pg_unmapped = (\<lambda>n. Some (0x401000, n)), pg_unmap = (\<lambda>va n. Some n)\<rparr>
     (heap0\<lparr>mallocReady := False\<rparr>) = Some s' \<and> mallocReady s'"
  using malloc_init_establishes [of "\<lparr>pg_map = (\<lambda>va n. Some (0x400000, replicate 4096 0, n)), pg_unmapped = (\<lambda>n. Some (0x401000, n)), pg_unmap = (\<lambda>va n. Some n)\<rparr>"
    "heap0\<lparr>mallocReady := False\<rparr>" "0x400000" "replicate 4096 0" 0]
  by (auto simp: heap0_def)

theorem free_unused_halts_witness: "free pager0 0x400008 heap0 = None"
  using free_unused_halts [of heap0 "[]" "\<lparr>bsize = 4088, bused = False, bother = False\<rparr>" "[]" pager0] heap0_ok
  by (simp add: heap0_facts hsize_def)

text \<open>The same page with one block of 108 bytes in use.\<close>

definition heap1 :: "nat heap" where
  "heap1 = upd (set_notOurs 0x400000 False \<circ> set_used 0x400000 True \<circ> set_magic 0x400000 magic \<circ> set_size 0x400000 108 \<circ>
     set_notOurs 0x40006C False \<circ> set_used 0x40006C False \<circ> set_magic 0x40006C magic \<circ> set_size 0x40006C 3980) heap0"

lemma heap1_ok: "heap_ok heap1 [\<lparr>bsize = 108, bused = True, bother = False\<rparr>, \<lparr>bsize = 3980, bused = False, bother = False\<rparr>]"
proof -
  have "take_bit 48 108 = (108 :: u64)" "take_bit 48 3980 = (3980 :: u64)" using take_48 [of 108] take_48 [of 3980] by simp_all
  moreover have "apart 0x400000 8 0x40006C 8" "apart 0x40006C 8 0x400000 8" by (simp_all add: apart_def)
  ultimately show ?thesis
    by (simp add: heap_ok_def heap1_def upd_def heap0_facts hdr_def wf_blk_def magic_fits header_apart)
qed

theorem free_releases_witness:
  "\<exists>s'. free pager0 0x400008 heap1 = Some s' \<and> mallocReady s' \<and> totalMemAllocated s' = totalMemAllocated heap1 - 100"
  using free_releases [OF heap1_ok, where a = "0x400000" and k = 108 and P = pager0] heap0_facts by (fastforce simp: heap1_def upd_def)

end
