(* ===== verification/HeapGrow.thy ===== *)
theory HeapGrow
  imports HeapSpec
begin

section \<open>A heap that grows\<close>

text \<open>
  \<open>malloc\<close> when no chunk fits: the loop that maps pages behind the end (\<open>malloc_fetch\<close>), what it
  does to the last chunk (\<open>malloc_grow\<close>), and \<open>malloc\<close> as a whole.  The pages behind the heap are
  taken to be unmapped and physical memory to last (\<open>available\<close>); wrapping pages that are in
  other use is modelled in \<open>Malloc\<close> only.  Taking wrapped pages back is excluded by a hypothesis
  on the next unmapped page; \<open>malloc_wrapper_halts\<close> shows where it stops the kernel.
\<close>


subsection \<open>Fetching pages\<close>

text \<open>The next \<open>n\<close> pages from \<open>va\<close> on can be mapped, in this order.\<close>

fun available :: "'p pager_ops \<Rightarrow> u64 \<Rightarrow> nat \<Rightarrow> 'p \<Rightarrow> bool" where
  "available P va 0 p \<longleftrightarrow> True"
| "available P va (Suc n) p \<longleftrightarrow>
     (\<exists>contents p'. pg_map P va p = Some (va, contents, p') \<and> length contents = 4096 \<and> available P (va + 4096) n p')"

lemma available_mono: "available P va n p \<Longrightarrow> m \<le> n \<Longrightarrow> available P va m p"
proof (induction n arbitrary: va p m)
  case (Suc n)
  then show ?case by (cases m) auto
qed simp

text \<open>The last chunk after \<open>n\<close> pages: a free one takes them in.\<close>

definition extended :: "blk \<Rightarrow> nat \<Rightarrow> blk" where
  "extended c n = (if bused c then c else c\<lparr>bsize := bsize c + 4096 * n\<rparr>)"

lemma extended_sel [simp]: "bused (extended c n) = bused c" "bother (extended c n) = bother c" "extended c 0 = c"
  "extended (extended c m) n = extended c (m + n)"
  by (simp_all add: extended_def algebra_simps)

text \<open>A heap whose chunks end at or before the end of the heap.\<close>

definition chunks_ok :: "'p heap \<Rightarrow> blk list \<Rightarrow> bool" where
  "chunks_ok s bs \<longleftrightarrow> firstChunk s \<noteq> 0 \<and> chain (hmem s) (unat (firstChunk s)) bs \<and> (\<forall>b \<in> set bs. wf_blk b) \<and>
     unat (firstChunk s) + span bs \<le> unat (endOfChunks s)"

lemma wr_page_below:
  assumes "length bs = 4096" "unat a + 4096 \<le> 2 ^ 64" "unat x < unat a"
  shows "wr m a bs x = m x"
proof -
  have "unat (x - a) = 2 ^ 64 + unat x - unat a" using assms(3) by (simp add: unat_sub_if')
  then have "\<not> unat (x - a) < length bs" using assms by simp
  then show ?thesis by (simp add: wr_def)
qed

lemma fetch_step:
  assumes ok: "chunks_ok s (qs @ [c])" and lim: "unat (endOfChunks s) + 4104 \<le> 2 ^ 48"
    and map: "pg_map P (endOfChunks s + 8) (pager s) = Some (endOfChunks s + 8, contents, p')" "length contents = 4096"
    and need: "need \<noteq> 0"
  defines "o1 \<equiv> firstChunk s + of_nat (span qs)"
  shows "\<exists>s'. malloc_fetch P sz o1 oldEnd tot need s = malloc_fetch P sz o1 oldEnd (tot + 4096) (need - min need 4096) s' \<and>
    chunks_ok s' (qs @ [extended c 1]) \<and> firstChunk s' = firstChunk s \<and> endOfChunks s' = endOfChunks s + 4096 \<and> pager s' = p' \<and>
    totalMemAllocated s' = totalMemAllocated s \<and> mallocReady s' = mallocReady s \<and>
    (\<forall>x. unat x < unat (endOfChunks s) \<longrightarrow> unat x \<notin> gaps (unat (firstChunk s)) (qs @ [c]) \<longrightarrow> hmem s' x = hmem s x)"
proof -
  let ?f = "unat (firstChunk s)" and ?E = "endOfChunks s"
  let ?s1 = "s\<lparr>pager := p', hmem := wr (hmem s) (?E + 8) contents\<rparr>"
  let ?s2 = "if \<not> bused c then upd (set_size o1 (of_nat (bsize c) + PAGESIZE)) ?s1 else ?s1"
  let ?s = "?s2\<lparr>totalMemUsed := totalMemUsed ?s2 + PAGESIZE, endOfChunks := endOfChunks ?s2 + PAGESIZE\<rparr>"
  have wf: "\<forall>b \<in> set (qs @ [c]). wf_blk b" "8 \<le> bsize c" and len: "?f + span qs + bsize c \<le> unat ?E"
    and ch: "chain (hmem s) ?f (qs @ [c])" and nz: "firstChunk s \<noteq> 0"
    using ok by (auto simp: chunks_ok_def wf_blk_def)
  have E8: "unat (?E + 8) = unat ?E + 8" using unat_add_small [of ?E 8] lim by simp
  then have e8: "?E + 8 \<noteq> 0" by auto
  have below: "hmem ?s1 x = hmem s x" if "unat x < unat ?E" for x
    using wr_page_below [OF map(2), of "?E + 8" x] that E8 lim by simp
  have u: "unat o1 = ?f + span qs" using unat_add_small [of "firstChunk s" "span qs"] len lim by (simp add: o1_def)
  have ch1: "chain (hmem ?s1) ?f (qs @ [c])"
    using ch chain_frame [of ?f "qs @ [c]" "hmem ?s1" "hmem s"] wf(1) below len lim by simp
  then have h: "c_used (hmem ?s1) o1 = bused c" "c_size (hmem ?s1) o1 = of_nat (bsize c)"
    by (simp_all add: o1_def hdr_def)
  have step: "malloc_fetch P sz o1 oldEnd tot need s = malloc_fetch P sz o1 oldEnd (tot + 4096) (need - min need 4096) ?s"
    using map(1) need h e8 by (subst malloc_fetch.simps) (simp add: map_page_def hsize_def PAGESIZE_def Let_def)
  have out: "hmem ?s2 x = hmem ?s1 x" if "bused c \<or> unat x < unat o1 \<or> unat o1 + 8 \<le> unat x" for x
    using that u len lim by (auto simp: upd_def header_frame)
  have "chain (hmem ?s2) ?f qs"
    using ch1 chain_frame [of ?f qs "hmem ?s2" "hmem ?s1"] wf(1) out u len lim by simp
  moreover have "hdr (hmem ?s2) (?f + span qs) (extended c 1)"
  proof (cases "bused c")
    case True
    then show ?thesis using ch1 by (simp add: extended_def)
  next
    case False
    have "bsize c + 4096 < 2 ^ 48" using len lim by simp
    from take_48 [OF this] have "take_bit 48 (of_nat (bsize c) + PAGESIZE) = (of_nat (bsize c + 4096) :: u64)" by (simp add: PAGESIZE_def)
    moreover have "of_nat (?f + span qs) = o1" by (simp add: o1_def)
    ultimately show ?thesis using ch1 False by (simp add: hdr_def upd_def extended_def)
  qed
  moreover have "unat (?E + 4096) = unat ?E + 4096" using unat_add_small [of ?E 4096] lim by simp
  ultimately have "chunks_ok ?s (qs @ [extended c 1])"
    using wf len nz by (auto simp: chunks_ok_def wf_blk_def extended_def upd_def PAGESIZE_def)
  moreover have "hmem ?s x = hmem s x" if "unat x < unat ?E" "unat x \<notin> gaps ?f (qs @ [c])" for x
  proof -
    have "bused c \<or> unat x < unat o1 \<or> unat o1 + 8 \<le> unat x" using that(2) u wf(2) by auto
    then show ?thesis using out below that(1) by simp
  qed
  ultimately show ?thesis using step by (intro exI [of _ ?s]) (simp add: upd_def PAGESIZE_def)
qed

lemma fetch_ok:
  assumes "chunks_ok s (qs @ [c])" "unat (endOfChunks s) + 4096 * n + 8 \<le> 2 ^ 48"
    and "available P (endOfChunks s + 8) n (pager s)" "n = (unat need + 4095) div 4096"
    and "bused c \<or> unat (firstChunk s) + span (qs @ [c]) = unat (endOfChunks s)"
  shows "\<exists>s'. malloc_fetch P sz (firstChunk s + of_nat (span qs)) oldEnd tot need s =
      Some (firstChunk s + of_nat (span qs), oldEnd, tot + of_nat (4096 * n), s') \<and>
    chunks_ok s' (qs @ [extended c n]) \<and> firstChunk s' = firstChunk s \<and> endOfChunks s' = endOfChunks s + of_nat (4096 * n) \<and>
    totalMemAllocated s' = totalMemAllocated s \<and> mallocReady s' = mallocReady s \<and>
    (\<forall>x. unat x < unat (endOfChunks s) \<longrightarrow> unat x \<notin> gaps (unat (firstChunk s)) (qs @ [c]) \<longrightarrow> hmem s' x = hmem s x)"
  using assms
proof (induction n arbitrary: s c tot need)
  case 0
  then have "(unat need + 4095) div 4096 = 0" by simp
  then have "unat need = 0" unfolding div_eq_0_iff by linarith
  then have "need = 0" by (simp only: unat_eq_0)
  then show ?case using 0(1) by (subst malloc_fetch.simps) simp
next
  case (Suc n)
  let ?f = "unat (firstChunk s)"
  obtain contents p' where map: "pg_map P (endOfChunks s + 8) (pager s) = Some (endOfChunks s + 8, contents, p')" "length contents = 4096"
    and av: "available P (endOfChunks s + 8 + 4096) n p'" using Suc.prems(3) by auto
  have need: "need \<noteq> 0" using Suc.prems(4) by auto
  obtain s1 where s1: "malloc_fetch P sz (firstChunk s + of_nat (span qs)) oldEnd tot need s =
      malloc_fetch P sz (firstChunk s + of_nat (span qs)) oldEnd (tot + 4096) (need - min need 4096) s1"
    "chunks_ok s1 (qs @ [extended c 1])" "firstChunk s1 = firstChunk s" "endOfChunks s1 = endOfChunks s + 4096" "pager s1 = p'"
    "totalMemAllocated s1 = totalMemAllocated s" "mallocReady s1 = mallocReady s"
    "\<And>x. unat x < unat (endOfChunks s) \<Longrightarrow> unat x \<notin> gaps ?f (qs @ [c]) \<Longrightarrow> hmem s1 x = hmem s x"
    using fetch_step [OF Suc.prems(1) _ map need, of sz oldEnd tot] Suc.prems(2) by auto
  have E: "unat (endOfChunks s1) = unat (endOfChunks s) + 4096"
    using unat_add_small [of "endOfChunks s" 4096] Suc.prems(2) s1(4) by simp
  have rest: "n = (unat (need - min need 4096) + 4095) div 4096"
    using Suc.prems(4) by (cases "need \<le> 4096") (auto simp: min_def unat_sub_if' word_le_nat_alt)
  have lim: "unat (endOfChunks s1) + 4096 * n + 8 \<le> 2 ^ 48" using Suc.prems(2) E by simp
  have av1: "available P (endOfChunks s1 + 8) n (pager s1)" using av s1(4,5) by (simp add: add_ac)
  have full: "bused (extended c 1) \<or> unat (firstChunk s1) + span (qs @ [extended c 1]) = unat (endOfChunks s1)"
    using Suc.prems(5) E s1(3) by (auto simp: extended_def)
  obtain s2 where s2: "malloc_fetch P sz (firstChunk s1 + of_nat (span qs)) oldEnd (tot + 4096) (need - min need 4096) s1 =
      Some (firstChunk s1 + of_nat (span qs), oldEnd, tot + 4096 + of_nat (4096 * n), s2)"
    "chunks_ok s2 (qs @ [extended (extended c 1) n])" "firstChunk s2 = firstChunk s1" "endOfChunks s2 = endOfChunks s1 + of_nat (4096 * n)"
    "totalMemAllocated s2 = totalMemAllocated s1" "mallocReady s2 = mallocReady s1"
    "\<And>x. unat x < unat (endOfChunks s1) \<Longrightarrow> unat x \<notin> gaps (unat (firstChunk s1)) (qs @ [extended c 1]) \<Longrightarrow> hmem s2 x = hmem s1 x"
    using Suc.IH [OF s1(2) lim av1 rest full, of "tot + 4096"] by blast
  have "hmem s2 x = hmem s x" if x: "unat x < unat (endOfChunks s)" "unat x \<notin> gaps ?f (qs @ [c])" for x
  proof -
    have "unat x \<notin> gaps ?f (qs @ [extended c 1])" using x Suc.prems(5) by (auto simp: extended_def)
    then show ?thesis using s2(7) [of x] s1(8) [OF x] x(1) E s1(3) by simp
  qed
  then show ?case using s1 s2 by (intro exI [of _ s2]) (simp add: add_ac)
qed

subsection \<open>Growing the heap\<close>

text \<open>Eight bytes of mapped memory are always left behind the end.\<close>

definition page_end :: "u64 \<Rightarrow> bool" where
  "page_end e \<longleftrightarrow> e AND 0xFFF = 0xFF8"

lemma page_end_nat: "page_end e \<longleftrightarrow> unat e mod 4096 = 0xFF8"
proof -
  have m: "(0xFFF :: u64) = mask 12" by (simp add: mask_eq_exp_minus_1)
  have "unat (e AND 0xFFF) = unat e mod 4096"
    by (simp add: m take_bit_eq_mask [symmetric] unsigned_take_bit_eq take_bit_eq_mod unat_mod)
  then show ?thesis by (simp add: page_end_def word_unat_eq_iff)
qed

lemma page_end_add: "page_end (e + of_nat (4096 * n)) = page_end e"
proof -
  have "unat (e + of_nat (4096 * n)) = (unat e + 4096 * n) mod 2 ^ 64"
    by (simp add: unat_word_ariths unat_of_nat take_bit_eq_mod mod_simps)
  also have "\<dots> mod 4096 = (unat e + 4096 * n) mod 4096" by (intro mod_mod_cancel) simp
  finally show ?thesis by (simp add: page_end_nat)
qed

lemma real_size_24:
  assumes "24 \<le> unat sz" "unat sz < 2 ^ 48"
  shows "unat (real_size sz) = unat sz + 8"
proof -
  have u: "unat (hsize + sz) = unat sz + 8" using unat_add_small [of sz 8] assms(2) by (simp add: hsize_def add.commute)
  then have "\<not> hsize + sz < MALLOC_MINSIZE" using assms(1) by (simp add: MALLOC_MINSIZE_def word_less_nat_alt)
  then show ?thesis using u by (simp add: real_size_def)
qed

text \<open>What growing leaves as it was, and where memory may change.\<close>

definition grown :: "'p heap \<Rightarrow> blk list \<Rightarrow> 'p heap \<Rightarrow> blk list \<Rightarrow> bool" where
  "grown s bs s' bs' \<longleftrightarrow> (let f = unat (firstChunk s); e = unat (endOfChunks s) in
     firstChunk s' = firstChunk s \<and> totalMemAllocated s' = totalMemAllocated s \<and> e \<le> unat (endOfChunks s') \<and> page_end (endOfChunks s') \<and>
     live f bs' = live f bs \<and> wrappers f bs' = wrappers f bs \<and> payload bs' = payload bs \<and>
     gaps f bs' \<subseteq> gaps f bs \<union> {e ..< unat (endOfChunks s')} \<and>
     (\<forall>x. unat x < e \<longrightarrow> unat x \<notin> gaps f bs \<longrightarrow> hmem s' x = hmem s x))"

lemma grow_ok:
  assumes ok: "heap_ok s (qs @ [c])" and c: "bused c \<or> bsize c < unat (real_size sz)"
    and sz: "24 \<le> unat sz" "unat (endOfChunks s) + unat sz + 8208 \<le> 2 ^ 48" and pe: "page_end (endOfChunks s)"
    and av: "available P (endOfChunks s + 8) ((unat sz + 4103) div 4096) (pager s)"
  shows "\<exists>s' ps d. malloc_grow P sz (real_size sz) (firstChunk s + of_nat (span qs)) s = Some (firstChunk s + of_nat (span ps), s') \<and>
    heap_ok s' (ps @ [d]) \<and> \<not> bused d \<and> unat (real_size sz) \<le> bsize d \<and> grown s (qs @ [c]) s' (ps @ [d])"
proof -
  let ?f = "unat (firstChunk s)" and ?E = "endOfChunks s" and ?o = "firstChunk s + of_nat (span qs)"
  note f = ptr_facts [OF ok [unfolded append_Cons [symmetric]]]
  have R: "unat (real_size sz) = unat sz + 8" using sz by (intro real_size_24) simp_all
  have s8: "unat (sz + 8) = unat sz + 8" using unat_add_small [of sz 8] sz(2) by simp
  define need where "need = (if \<not> bused c then sz + 8 - min (sz + 8) (of_nat (bsize c)) else sz + 8)"
  have bs: "unat (of_nat (bsize c) :: u64) = bsize c" using heap_ok_bounds(4) [OF ok] by (simp add: unat_of_nat_small)
  have need: "unat need = (if bused c then unat sz + 8 else unat sz + 8 - bsize c)"
    using c R s8 bs by (auto simp: need_def min_def word_le_nat_alt unat_sub_if')
  let ?n = "(unat need + 4095) div 4096"
  have n: "1 \<le> ?n" "unat need \<le> 4096 * ?n" "?n \<le> (unat sz + 4103) div 4096"
  proof -
    have "0 < unat need" using need c R by auto
    then show "1 \<le> ?n" by simp
    show "unat need \<le> 4096 * ?n" using div_mult_mod_eq [of "unat need + 4095" 4096] mod_less_divisor [of 4096 "unat need + 4095"] by linarith
    show "?n \<le> (unat sz + 4103) div 4096" by (rule div_le_mono) (auto simp: need)
  qed
  have n_max: "4096 * ?n \<le> unat sz + 4103" using n(3) div_times_less_eq_dividend [of "unat sz + 4103" 4096] by linarith
  have chunks: "chunks_ok s (qs @ [c])" and full: "?f + span (qs @ [c]) = unat ?E" using ok by (auto simp: chunks_ok_def heap_ok_def)
  have lim: "unat ?E + 4096 * ?n + 8 \<le> 2 ^ 48" using n_max sz(2) by simp
  obtain s1 where s1: "malloc_fetch P sz ?o ?E 0 need s = Some (?o, ?E, of_nat (4096 * ?n), s1)" "chunks_ok s1 (qs @ [extended c ?n])"
    "firstChunk s1 = firstChunk s" "endOfChunks s1 = ?E + of_nat (4096 * ?n)" "totalMemAllocated s1 = totalMemAllocated s"
    "\<And>x. unat x < unat ?E \<Longrightarrow> unat x \<notin> gaps ?f (qs @ [c]) \<Longrightarrow> hmem s1 x = hmem s x"
    using fetch_ok [OF chunks lim available_mono [OF av n(3)] refl, of sz ?E 0] full by auto
  have E1: "unat (endOfChunks s1) = unat ?E + 4096 * ?n" using unat_add_small [of ?E "4096 * ?n"] lim s1(4) by simp
  have pe1: "page_end (endOfChunks s1)" using pe page_end_add s1(4) by simp
  have h1: "c_used (hmem s1) ?o = bused c" "c_size (hmem s1) ?o = of_nat (bsize (extended c ?n))"
    using s1(2,3) by (simp_all add: chunks_ok_def hdr_def)
  have grow: "malloc_grow P sz (real_size sz) ?o s =
    (if \<not> bused c then (if of_nat (bsize (extended c ?n)) < real_size sz then None else Some (?o, s1))
     else Some (?E, upd (set_notOurs ?E False \<circ> set_used ?E False \<circ> set_size ?E (of_nat (4096 * ?n)) \<circ> set_magic ?E magic) s1))"
    unfolding malloc_grow_def Let_def hsize_def f(4,5) need_def [symmetric] s1(1)
    using pe1 h1 by (simp add: page_end_def)
  show ?thesis
  proof (cases "bused c")
    case False
    have "bsize (extended c ?n) = bsize c + 4096 * ?n" using False by (simp add: extended_def)
    moreover have "unat sz + 8 \<le> bsize c + 4096 * ?n" using n(2) need False by simp
    moreover have "unat (of_nat (bsize c + 4096 * ?n) :: u64) = bsize c + 4096 * ?n"
      using heap_ok_bounds(1) [OF ok] lim full by (intro unat_of_nat_small) simp
    ultimately have "malloc_grow P sz (real_size sz) ?o s = Some (?o, s1)"
      using grow False R by (simp add: word_less_nat_alt)
    moreover have "heap_ok s1 (qs @ [extended c ?n])"
      using s1(2,3) E1 full lim False by (auto simp: chunks_ok_def heap_ok_def extended_def)
    moreover have "grown s (qs @ [c]) s1 (qs @ [extended c ?n])"
      using s1(3,5,6) E1 pe1 False full unfolding grown_def Let_def by (auto simp: extended_def)
    ultimately show ?thesis
      using False R n(2) need by (intro exI [of _ s1] exI [of _ qs] exI [of _ "extended c ?n"]) (auto simp: extended_def)
  next
    case True
    let ?d = "\<lparr>bsize = 4096 * ?n, bused = False, bother = False\<rparr>"
    let ?s = "upd (set_notOurs ?E False \<circ> set_used ?E False \<circ> set_size ?E (of_nat (4096 * ?n)) \<circ> set_magic ?E magic) s1"
    have E: "?E = firstChunk s + of_nat (span (qs @ [c]))" "of_nat (?f + span (qs @ [c])) = ?E" using f(10) full by simp_all
    have sz48: "4096 * ?n < 2 ^ 48" using lim by simp
    have out: "hmem ?s x = hmem s1 x" if "unat x < unat ?E \<or> unat ?E + 8 \<le> unat x" for x
      using that lim by (simp add: upd_def header_frame)
    have ext: "extended c ?n = c" using True by (simp add: extended_def)
    have old: "chain (hmem s1) ?f (qs @ [c])" "\<forall>b \<in> set (qs @ [c]). wf_blk b"
      using s1(2,3) ext by (simp_all add: chunks_ok_def)
    have "chain (hmem ?s) ?f (qs @ [c])"
      using chain_frame [of ?f "qs @ [c]" "hmem ?s" "hmem s1"] old full lim out by simp
    moreover have h: "hdr (hmem ?s) (?f + span (qs @ [c])) ?d"
      unfolding hdr_def E(2) using take_48 [OF sz48] by (simp add: upd_def magic_fits)
    moreover have "hdr (hmem ?s) (?f + span qs + bsize c) ?d" using h by (simp only: span_append span.simps add_0_right add.assoc)
    ultimately have "heap_ok ?s ((qs @ [c]) @ [?d])"
      using s1(2,3) E1 full lim n(1) ext by (auto simp: chunks_ok_def heap_ok_def wf_blk_def upd_def)
    moreover have "grown s (qs @ [c]) ?s ((qs @ [c]) @ [?d])"
      using s1(3,5,6) E1 pe1 full out unfolding grown_def Let_def by (auto simp: upd_def)
    moreover have "malloc_grow P sz (real_size sz) ?o s = Some (firstChunk s + of_nat (span (qs @ [c])), ?s)"
      using grow True E(1) by simp
    moreover have "unat (real_size sz) \<le> bsize ?d" using n(2) need True R by simp
    ultimately show ?thesis by (intro exI [of _ ?s] exI [of _ "qs @ [c]"] exI [of _ ?d]) simp
  qed
qed

subsection \<open>\<open>malloc\<close> with and without growing\<close>

lemma malloc_grown:
  assumes ok: "heap_ok s bs" "bs \<noteq> []" "mallocReady s" and sz: "24 \<le> unat sz" "unat (endOfChunks s) + unat sz + 8208 \<le> 2 ^ 48"
    and pe: "page_end (endOfChunks s)"
    and nu: "pg_unmapped P (pager s) = Some (nu, p)" "\<forall>w \<in> wrappers (unat (firstChunk s)) bs. w + 8 \<noteq> unat nu"
    and av: "available P (endOfChunks s + 8) ((unat sz + 4103) div 4096) p"
  defines "f \<equiv> unat (firstChunk s)"
  shows "\<exists>a k s' bs'. malloc P sz s = Some (of_nat (a + 8), s') \<and> heap_ok s' bs' \<and> mallocReady s' \<and> unat sz + 8 \<le> k \<and>
    page_end (endOfChunks s') \<and> live f bs' = insert (a, k) (live f bs) \<and> wrappers f bs' = wrappers f bs \<and>
    {a ..< a + k} \<subseteq> gaps f bs \<union> {unat (endOfChunks s) ..< unat (endOfChunks s')} \<and>
    totalMemAllocated s' = totalMemAllocated s + of_nat (k - 8) \<and>
    (\<forall>x. unat x < unat (endOfChunks s) \<longrightarrow> unat x \<notin> gaps f bs \<longrightarrow> hmem s' x = hmem s x)"
proof -
  let ?R = "real_size sz" and ?s0 = "s\<lparr>mallocReady := False, pager := p\<rparr>"
  have R: "unat ?R = unat sz + 8" using sz by (intro real_size_24) simp_all
  have m: "malloc P sz s = (do { (chunk, s) \<leftarrow> malloc_search P sz ?R (firstChunk s) 0 nu ?s0; malloc_take ?R chunk s })"
  proof -
    have "sz \<noteq> 0" using sz(1) by auto
    then show ?thesis using ok(3) nu(1) by (simp add: malloc_def unmapped_vaddr_def)
  qed
  have s0: "heap_ok ?s0 ([] @ bs)" using ok(1) by (simp add: heap_ok_def)
  obtain s1 qs c rs where s1: "heap_ok s1 (qs @ c # rs)" "unnoticed ?s0 bs s1 (qs @ c # rs)"
    "\<not> bused c \<and> unat ?R \<le> bsize c \<and> malloc_search P sz ?R (firstChunk s) 0 nu ?s0 = Some (firstChunk s + of_nat (span qs), s1) \<or>
     rs = [] \<and> (bused c \<or> bsize c < unat ?R) \<and> malloc_search P sz ?R (firstChunk s) 0 nu ?s0 = malloc_grow P sz ?R (firstChunk s + of_nat (span qs)) s1"
    using search_total [OF s0 ok(2), of 0 nu ?R P sz] nu(2) by auto
  have un: "firstChunk s1 = firstChunk s" "endOfChunks s1 = endOfChunks s" "pager s1 = p" "totalMemAllocated s1 = totalMemAllocated s"
    "live f (qs @ c # rs) = live f bs" "gaps f (qs @ c # rs) = gaps f bs" "wrappers f (qs @ c # rs) = wrappers f bs"
    "\<And>x. unat x \<notin> gaps f bs \<Longrightarrow> hmem s1 x = hmem s x"
    using s1(2) by (auto simp: unnoticed_def Let_def f_def)
  have "\<exists>s2 ps d es. malloc_search P sz ?R (firstChunk s) 0 nu ?s0 = Some (firstChunk s + of_nat (span ps), s2) \<and>
    heap_ok s2 (ps @ d # es) \<and> \<not> bused d \<and> unat ?R \<le> bsize d \<and> firstChunk s2 = firstChunk s \<and>
    totalMemAllocated s2 = totalMemAllocated s \<and> unat (endOfChunks s) \<le> unat (endOfChunks s2) \<and> page_end (endOfChunks s2) \<and>
    live f (ps @ d # es) = live f bs \<and> wrappers f (ps @ d # es) = wrappers f bs \<and>
    gaps f (ps @ d # es) \<subseteq> gaps f bs \<union> {unat (endOfChunks s) ..< unat (endOfChunks s2)} \<and>
    (\<forall>x. unat x < unat (endOfChunks s) \<longrightarrow> unat x \<notin> gaps f bs \<longrightarrow> hmem s2 x = hmem s x)"
    using s1(3)
  proof
    assume "\<not> bused c \<and> unat ?R \<le> bsize c \<and> malloc_search P sz ?R (firstChunk s) 0 nu ?s0 = Some (firstChunk s + of_nat (span qs), s1)"
    then show ?thesis using s1(1) un pe by (intro exI [of _ s1] exI [of _ qs] exI [of _ c] exI [of _ rs]) simp
  next
    assume grow: "rs = [] \<and> (bused c \<or> bsize c < unat ?R) \<and>
      malloc_search P sz ?R (firstChunk s) 0 nu ?s0 = malloc_grow P sz ?R (firstChunk s + of_nat (span qs)) s1"
    obtain s2 ps d where s2: "malloc_grow P sz ?R (firstChunk s + of_nat (span qs)) s1 = Some (firstChunk s + of_nat (span ps), s2)"
      "heap_ok s2 (ps @ [d])" "\<not> bused d" "unat ?R \<le> bsize d" "grown s1 (qs @ [c]) s2 (ps @ [d])"
      using grow_ok [of s1 qs c sz P] s1(1) grow sz pe av un(1-3) by auto
    have un': "live f (qs @ [c]) = live f bs" "gaps f (qs @ [c]) = gaps f bs" "wrappers f (qs @ [c]) = wrappers f bs"
      using un(5-7) grow by simp_all
    have g: "firstChunk s2 = firstChunk s" "totalMemAllocated s2 = totalMemAllocated s" "unat (endOfChunks s) \<le> unat (endOfChunks s2)"
      "page_end (endOfChunks s2)" "live f (ps @ [d]) = live f bs" "wrappers f (ps @ [d]) = wrappers f bs"
      "gaps f (ps @ [d]) \<subseteq> gaps f bs \<union> {unat (endOfChunks s) ..< unat (endOfChunks s2)}"
      "\<forall>x. unat x < unat (endOfChunks s) \<longrightarrow> unat x \<notin> gaps f bs \<longrightarrow> hmem s2 x = hmem s1 x"
      using s2(5) un(4) un' unfolding grown_def Let_def un(1,2) f_def [symmetric]
      by (simp_all del: live_append gaps_append wrappers_append payload_append)
    have "\<forall>x. unat x < unat (endOfChunks s) \<longrightarrow> unat x \<notin> gaps f bs \<longrightarrow> hmem s2 x = hmem s x"
      using g(8) un(8) by simp
    then show ?thesis
      using grow s2(1-4) g(1-7) by (intro exI [of _ s2] exI [of _ ps] exI [of _ d] exI [of _ "[]"] conjI) simp_all
  qed
  then obtain s2 ps d es where s2: "malloc_search P sz ?R (firstChunk s) 0 nu ?s0 = Some (firstChunk s + of_nat (span ps), s2)"
    "heap_ok s2 (ps @ d # es)" "\<not> bused d" "unat ?R \<le> bsize d" "firstChunk s2 = firstChunk s"
    "totalMemAllocated s2 = totalMemAllocated s" "unat (endOfChunks s) \<le> unat (endOfChunks s2)" "page_end (endOfChunks s2)"
    "live f (ps @ d # es) = live f bs" "wrappers f (ps @ d # es) = wrappers f bs"
    "gaps f (ps @ d # es) \<subseteq> gaps f bs \<union> {unat (endOfChunks s) ..< unat (endOfChunks s2)}"
    "\<forall>x. unat x < unat (endOfChunks s) \<longrightarrow> unat x \<notin> gaps f bs \<longrightarrow> hmem s2 x = hmem s x"
    by blast
  obtain a k s' bs' where t: "malloc_take ?R (firstChunk s + of_nat (span ps)) s2 = Some (of_nat (a + 8), s')" "heap_ok s' bs'" "mallocReady s'"
    "endOfChunks s' = endOfChunks s2" "unat ?R \<le> k" "live f bs' = insert (a, k) (live f (ps @ d # es))"
    "wrappers f bs' = wrappers f (ps @ d # es)" "{a ..< a + k} \<subseteq> gaps f (ps @ d # es)"
    "totalMemAllocated s' = totalMemAllocated s2 + of_nat (k - 8)" "\<forall>x. unat x \<notin> gaps f (ps @ d # es) \<longrightarrow> hmem s' x = hmem s2 x"
    using take_live [OF s2(2,3,4) real_size_ge] unfolding s2(5) f_def [symmetric] by blast
  have "hmem s' x = hmem s x" if x: "unat x < unat (endOfChunks s)" "unat x \<notin> gaps f bs" for x
  proof -
    have "unat x \<notin> gaps f (ps @ d # es)" using s2(11) x by auto
    then show ?thesis using t(10) s2(12) x by simp
  qed
  moreover have "malloc P sz s = Some (of_nat (a + 8), s')" using m s2(1) t(1) by simp
  moreover have "{a ..< a + k} \<subseteq> gaps f bs \<union> {unat (endOfChunks s) ..< unat (endOfChunks s')}" using t(4,8) s2(11) by auto
  ultimately show ?thesis using t(2,3,4,5,6,7,9) s2(6,8,9,10) R
    by (intro exI [of _ a] exI [of _ k] exI [of _ s'] exI [of _ bs']) simp
qed

text \<open>
  C8: A full heap grows.  Take a well-formed heap that ends eight bytes before a page, whose next
  pages paging can deliver, and in which no page that was wrapped as in other use is the next
  unmapped one (the search would take it back).  A request of at least 24 bytes then gets a block of
  its size that lies in memory that was free or was just mapped, whether or not a free chunk fits;
  the heap stays well formed, its live blocks are the old ones and the new one, and no byte of the
  old heap outside the free chunks changes.
\<close>

theorem malloc_grows:
  assumes "heap_ok s bs" "bs \<noteq> []" "mallocReady s" "24 \<le> unat sz" "unat (endOfChunks s) + unat sz + 8208 \<le> 2 ^ 48"
    and "page_end (endOfChunks s)"
    and "pg_unmapped P (pager s) = Some (nu, p)" "\<forall>w \<in> wrappers (unat (firstChunk s)) bs. w + 8 \<noteq> unat nu"
    and "available P (endOfChunks s + 8) ((unat sz + 4103) div 4096) p"
  shows "\<exists>a k s' bs'. malloc P sz s = Some (of_nat (a + 8), s') \<and> heap_ok s' bs' \<and> mallocReady s' \<and> page_end (endOfChunks s') \<and>
    unat sz + 8 \<le> k \<and> live (unat (firstChunk s)) bs' = insert (a, k) (live (unat (firstChunk s)) bs) \<and>
    {a ..< a + k} \<subseteq> gaps (unat (firstChunk s)) bs \<union> {unat (endOfChunks s) ..< unat (endOfChunks s')} \<and>
    totalMemAllocated s' = totalMemAllocated s + of_nat (k - 8) \<and>
    (\<forall>x. unat x < unat (endOfChunks s) \<longrightarrow> unat x \<notin> gaps (unat (firstChunk s)) bs \<longrightarrow> hmem s' x = hmem s x)"
  using malloc_grown [OF assms] by blast

text \<open>5000 bytes on the heap of one page that \<open>init\<close> leaves.\<close>

theorem malloc_grows_witness:
  "\<exists>a s' bs'. malloc pager0 5000 heap0 = Some (of_nat (a + 8), s') \<and> heap_ok s' bs' \<and> mallocReady s' \<and>
     (\<exists>k \<ge> 5008. (a, k) \<in> live 0x400000 bs')"
proof -
  let ?c = "\<lparr>bsize = 4088, bused = False, bother = False\<rparr>"
  have ne: "[?c] \<noteq> []" and size: "24 \<le> unat (5000 :: u64)" and lim: "unat (endOfChunks heap0) + unat (5000 :: u64) + 8208 \<le> 2 ^ 48"
    and pe: "page_end (endOfChunks heap0)" and nu: "pg_unmapped pager0 (pager heap0) = Some (0x401000, 0)"
    and w: "\<forall>w \<in> wrappers (unat (firstChunk heap0)) [?c]. w + 8 \<noteq> unat (0x401000 :: u64)"
    by (simp_all add: heap0_facts page_end_def)
  have "(unat (5000 :: u64) + 4103) div 4096 = Suc (Suc 0)" by simp
  then have av: "available pager0 (endOfChunks heap0 + 8) ((unat (5000 :: u64) + 4103) div 4096) 0"
    by (simp only:) (simp add: pager0_def)
  show ?thesis
    using malloc_grows [OF heap0_ok ne heap0_facts(1) size lim pe nu w av]
    unfolding heap0_facts(2)
    by (elim exE conjE) (intro exI conjI, assumption, assumption, assumption, simp_all)
qed

text \<open>
  The 24 bytes are needed: the pages to fetch are counted from the size asked for, the chunk is
  checked against the least size of a chunk.  A last chunk in between stops the kernel.
\<close>

theorem malloc_small_tail_halts:
  assumes "heap_ok s [c]" "mallocReady s" "sz \<noteq> 0" "unat sz + 8 \<le> bsize c" "bsize c < 32" "\<not> bused c"
    and "pg_unmapped P (pager s) = Some (nu, p)"
  shows "malloc P sz s = None"
proof -
  let ?s = "s\<lparr>mallocReady := False, pager := p\<rparr>"
  have ok: "heap_ok ?s ([] @ c # [])" using assms(1) by (simp add: heap_ok_def)
  have oth: "\<not> bother c" using assms(1,6) by (auto simp: heap_ok_def wf_blk_def)
  note f = ptr_facts [OF ok]
  have R: "real_size sz = 32"
  proof -
    have "unat (hsize + sz) = unat sz + 8" using unat_add_small [of sz 8] assms(4,5) by (simp add: hsize_def add.commute)
    then show ?thesis using assms(4,5) by (simp add: real_size_def MALLOC_MINSIZE_def word_less_nat_alt word_unat_eq_iff)
  qed
  have small: "c_size (hmem s) (firstChunk s) < 32" "c_size (hmem s) (firstChunk s) \<noteq> 0"
    using f(6) assms(4,5) by (auto simp: word_less_nat_alt)
  have "unat (sz + 8) = unat sz + 8" using unat_add_small [of sz 8] assms(4,5) by simp
  then have need: "sz + 8 - min (sz + 8) (c_size (hmem s) (firstChunk s)) = 0"
    using f(6) assms(4) by (simp add: min_def word_le_nat_alt)
  have fetch: "malloc_fetch P sz x e 0 0 ?s = Some (x, e, 0, ?s)" for x e by (subst malloc_fetch.simps) simp
  have "malloc_grow P sz 32 (firstChunk s) ?s = None"
    using f(4) assms(6) small(1) need fetch by (simp add: malloc_grow_def Let_def hsize_def)
  then have "malloc_search P sz 32 (firstChunk s) 0 nu ?s = None"
    using f(4,7-10) small oth by (subst malloc_search.simps) simp
  then show ?thesis using assms(2,3,7) R by (simp add: malloc_def unmapped_vaddr_def)
qed

subsection \<open>Wrapped pages that become free\<close>

text \<open>
  The search takes a page back that was in other use when the heap grew around it, but one page
  only: a wrapper of several pages whose first page is unmapped stops the kernel, if the free
  chunks before it are too small even when merged.
\<close>

definition free_span :: "blk list \<Rightarrow> nat" where
  "free_span bs = (\<Sum>b\<leftarrow>bs. if bused b then 0 else bsize b)"

lemma free_span_simps [simp]: "free_span [] = 0" "free_span (b # bs) = (if bused b then 0 else bsize b) + free_span bs"
  "free_span (xs @ ys) = free_span xs + free_span ys"
  by (simp_all add: free_span_def)

lemma search_wrapper_halts:
  assumes "heap_ok s (ps @ mid @ w # rs)" "bother w" "bsize w \<noteq> 4104"
    and "other = 0 \<or> (\<exists>qs o1. ps = qs @ [o1] \<and> other = firstChunk s + of_nat (span qs))"
    and "free_span (ps @ mid) < unat R" "unat nu = unat (firstChunk s) + span (ps @ mid) + 8"
  shows "malloc_search P sz R (firstChunk s + of_nat (span ps)) other nu s = None"
  using assms
proof (induction "2 * length mid + (if other = 0 then 0 else 1)" arbitrary: ps mid other s rule: less_induct)
  case less
  let ?p = "firstChunk s + of_nat (span ps)"
  show ?case
  proof (cases mid)
    case Nil
    then have ok: "heap_ok s (ps @ w # rs)" using less.prems(1) by simp
    note f = ptr_facts [OF ok]
    have wf: "bused w" "bsize w \<noteq> 0" using ok less.prems(2) by (auto simp: heap_ok_def wf_blk_def)
    have "unat (?p + 8) = unat nu"
      using unat_add_small [of ?p 8] f(1) heap_ok_bounds [OF ok] less.prems(6) Nil by simp
    then have "?p + hsize = nu" by (simp add: hsize_def word_unat_eq_iff)
    moreover have "c_size (hmem s) ?p \<noteq> PAGESIZE + hsize" "c_size (hmem s) ?p \<noteq> 0"
      using f(6) less.prems(3) wf(2) by (auto simp: PAGESIZE_def hsize_def)
    ultimately show ?thesis
      using f(4,7,8) wf(1) less.prems(2) by (subst malloc_search.simps) simp
  next
    case (Cons c cs)
    then have ok: "heap_ok s (ps @ c # cs @ w # rs)" using less.prems(1) by simp
    note f = ptr_facts [OF ok]
    have small: "bused c \<or> bsize c < unat R" using less.prems(5) Cons by (cases "bused c") auto
    then have go: "c_used (hmem s) ?p \<or> c_size (hmem s) ?p < R" using f by (simp add: word_less_nat_alt)
    have nz: "c_size (hmem s) ?p \<noteq> 0" using f(6) heap_ok_bounds(2) [OF ok] by auto
    show ?thesis
    proof (cases "other \<noteq> 0 \<and> \<not> c_used (hmem s) other \<and> \<not> bused c")
      case True
      then obtain qs o1 where qs: "ps = qs @ [o1]" "other = firstChunk s + of_nat (span qs)" using less.prems(4) by blast
      have ok': "heap_ok s (qs @ o1 # c # cs @ w # rs)" using ok qs by simp
      note g = ptr_facts [OF ok']
      have free: "\<not> bused o1" "\<not> bused c" using True g qs(2) by auto
      let ?m = "\<lparr>bsize = bsize o1 + bsize c, bused = False, bother = False\<rparr>"
      let ?s = "upd (set_size other (c_size (hmem s) other + c_size (hmem s) ?p)) s"
      have s: "?s = upd (set_size (of_nat (unat (firstChunk s) + span qs)) (of_nat (bsize o1) + of_nat (bsize c))) s"
        using g f qs(2) by simp
      have fs: "firstChunk ?s = firstChunk s" by (simp add: upd_def)
      have "malloc_search P sz R ?p other nu s = malloc_search P sz R (firstChunk ?s + of_nat (span qs)) 0 nu ?s"
        using go nz True f fs qs(2) by (subst malloc_search.simps) simp
      moreover have "heap_ok ?s (qs @ (?m # cs) @ w # rs)" using merge_ok(1) [OF ok' free] s by simp
      then have "malloc_search P sz R (firstChunk ?s + of_nat (span qs)) 0 nu ?s = None"
        by (rule less.hyps [rotated]) (use less.prems Cons qs free fs True in auto)
      ultimately show ?thesis by simp
    next
      case False
      have "unat (?p + 8) = unat (firstChunk s) + span ps + 8"
        using unat_add_small [of ?p 8] f(1) heap_ok_bounds [OF ok] by simp
      then have reclaim: "?p + hsize \<noteq> nu"
        using less.prems(6) heap_ok_bounds(2) [OF ok] Cons by (auto simp: hsize_def)
      define q where "q = firstChunk s + of_nat (span (ps @ [c]))"
      have q: "?p + c_size (hmem s) ?p = q" "q \<noteq> endOfChunks s" "\<not> q > endOfChunks s"
        using f(9-11) by (simp_all only: q_def simp_thms append_is_Nil_conv list.distinct)
      have "malloc_search P sz R ?p other nu s = malloc_search P sz R q ?p nu s"
        using False f(4,7) reclaim nz go q by (subst malloc_search.simps) auto
      moreover have "malloc_search P sz R (firstChunk s + of_nat (span (ps @ [c]))) ?p nu s = None"
        by (rule less.hyps) (use less.prems Cons in auto)
      ultimately show ?thesis by (simp add: q_def)
    qed
  qed
qed

theorem malloc_wrapper_halts:
  assumes "heap_ok s (qs @ w # rs)" "mallocReady s" "sz \<noteq> 0" "bother w" "bsize w \<noteq> 4104" "free_span qs < unat (real_size sz)"
    and "pg_unmapped P (pager s) = Some (nu, p)" "unat nu = unat (firstChunk s) + span qs + 8"
  shows "malloc P sz s = None"
proof -
  have "heap_ok (s\<lparr>mallocReady := False, pager := p\<rparr>) ([] @ qs @ w # rs)" using assms(1) by (simp add: heap_ok_def)
  from search_wrapper_halts [OF this assms(4,5), of 0 "real_size sz" nu P sz] show ?thesis
    using assms(2,3,6-8) by (simp add: malloc_def unmapped_vaddr_def)
qed

end
