(* ===== verification/VgaText.thy ===== *)
theory VgaText
  imports Malloc CString
begin

section \<open>The text screen: \<open>src/kernel/vga/vgatext.cpp\<close>\<close>

text \<open>
  The screen is 80 by 25 cells of two bytes at \<open>0xB8000\<close>, in the same memory as the heap.
  While the log is enabled every cell is also written to a log on the heap that grows by the
  lines that scroll away.  The cursor coordinates are 8-bit signed, as in the source.  Every
  operation saves the interrupt flag, clears it and puts it back, so the flag is not part of the
  state; the bytes sent to the I/O ports are.  The messages that \<open>error\<close> prints are left out.
\<close>

record 'p vga =
  vheap :: "'p heap"
  m_curX :: u8
  m_curY :: u8
  m_curStyle :: u8
  m_tabSize :: u8
  logEnabled :: bool
  m_logBase :: u64
  m_logLim :: u64
  m_logCur :: u64
  ruboutLimitX :: u8
  ruboutLimitY :: u8
  ports :: "(u16 \<times> u8) list"

definition m_width :: int where "m_width = 80"
definition m_height :: int where "m_height = 25"
definition m_memBase :: u64 where "m_memBase = 0xB8000"
definition screen_bytes :: nat where "screen_bytes = nat (2 * m_width * m_height)"
definition m_memLim :: u64 where "m_memLim = m_memBase + of_nat screen_bytes"

definition CUR_BLACK :: u8 where "CUR_BLACK = 0"
definition CUR_WHITE :: u8 where "CUR_WHITE = 7"

definition outb :: "u16 \<Rightarrow> u8 \<Rightarrow> 'p vga \<Rightarrow> 'p vga" where
  "outb port v s = s\<lparr>ports := ports s @ [(port, v)]\<rparr>"

definition vmem :: "'p vga \<Rightarrow> mem" where
  "vmem s = hmem (vheap s)"

definition vupd :: "(mem \<Rightarrow> mem) \<Rightarrow> 'p vga \<Rightarrow> 'p vga" where
  "vupd f s = s\<lparr>vheap := upd f (vheap s)\<rparr>"

text \<open>One cell: the character, then its style.\<close>

definition put_cell :: "u64 \<Rightarrow> u8 \<Rightarrow> u8 \<Rightarrow> mem \<Rightarrow> mem" where
  "put_cell a c style m = m(a := c, a + 1 := style)"

definition render :: "'p vga \<Rightarrow> 'p vga" where
  "render s = vupd (\<lambda>m. memcpy m m_memBase (m_logCur s) screen_bytes) s"

definition isLogEnabled :: "'p vga \<Rightarrow> bool" where
  "isLogEnabled s = logEnabled s"

definition enableLog :: "'p pager_ops \<Rightarrow> u64 \<Rightarrow> bool \<Rightarrow> 'p vga \<Rightarrow> 'p vga option" where
  "enableLog P ra state s =
     (if state \<and> \<not> logEnabled s then
        if \<not> isMallocReady (vheap s) then Some s
        else do {
          h \<leftarrow> (if m_logBase s \<noteq> 0 then operator_delete_array P (m_logBase s) (vheap s) else Some (vheap s));
          (base, h) \<leftarrow> operator_new_array P ra (of_nat screen_bytes) h;
          let s = s\<lparr>vheap := h, m_logBase := base, m_logCur := base, m_logLim := base + of_nat screen_bytes\<rparr>;
          Some ((vupd (\<lambda>m. memcpy m base m_memBase screen_bytes) s)\<lparr>logEnabled := True\<rparr>) }
      else if \<not> state \<and> logEnabled s then
        if isMallocReady (vheap s) then do {
          h \<leftarrow> operator_delete_array P (m_logBase s) (vheap s);
          Some (s\<lparr>vheap := h, m_logBase := 0, logEnabled := False\<rparr>) }
        else Some (s\<lparr>logEnabled := False\<rparr>)
      else Some s)"

text \<open>\<open>txtColor\<close> and \<open>bgdColor\<close> are \<open>char\<close>s; the sum is truncated to 8 bits.\<close>

definition setCurStyle :: "u8 \<Rightarrow> bool \<Rightarrow> u8 \<Rightarrow> bool \<Rightarrow> 'p vga \<Rightarrow> 'p vga" where
  "setCurStyle txtColor txtHighlight bgdColor blink s =
     s\<lparr>m_curStyle := (if blink then 0b10000000 else 0) + (if txtHighlight then 0b00001000 else 0)
         + (push_bit 4 (bgdColor AND 0b111) + (txtColor AND 0b111))\<rparr>"

definition moveCursor :: "int \<Rightarrow> int \<Rightarrow> 'p vga \<Rightarrow> 'p vga" where
  "moveCursor x y s =
     (if ((x < 0 \<or> y < 0) \<and> (x \<noteq> -1 \<or> y \<noteq> -1)) \<or> x > m_width \<or> y > m_height then s
      else let s = (if x \<ge> 0 \<and> y \<ge> 0 then s\<lparr>m_curX := of_int x, m_curY := of_int y\<rparr> else s);
               c_pos = of_int (y * m_width + x) :: u16
           in outb 0x3d5 (ucast (drop_bit 8 c_pos)) (outb 0x3d4 0x0e (outb 0x3d5 (ucast c_pos) (outb 0x3d4 0x0f s))))"

definition showCursor :: "'p vga \<Rightarrow> 'p vga" where
  "showCursor s = moveCursor (sint (m_curX s)) (sint (m_curY s)) s"

definition hideCursor :: "'p vga \<Rightarrow> 'p vga" where
  "hideCursor s = moveCursor (-1) (-1) s"

definition setRuboutLimit :: "u8 \<Rightarrow> u8 \<Rightarrow> 'p vga \<Rightarrow> 'p vga" where
  "setRuboutLimit x y s =
     s\<lparr>ruboutLimitX := (if x = -1 then m_curX s else x), ruboutLimitY := (if y = -1 then m_curY s else y)\<rparr>"

definition scrollDown :: "'p vga \<Rightarrow> 'p vga" where
  "scrollDown s = render (s\<lparr>m_logCur := m_logLim s - of_nat screen_bytes\<rparr>)"

definition scroll :: "int \<Rightarrow> 'p vga \<Rightarrow> 'p vga" where
  "scroll n s =
     (if \<not> logEnabled s \<or> n = 0 then s
      else if n < 0 then
        if m_logCur s = m_logBase s then s
        else let s = hideCursor s; cur = m_logCur s + of_int (n * 2 * m_width)
             in render (s\<lparr>m_logCur := (if cur < m_logBase s then m_logBase s else cur)\<rparr>)
      else let cur = m_logCur s + of_int (n * 2 * m_width);
               curLim = m_logLim s - of_nat screen_bytes
           in render (if cur \<ge> curLim then showCursor (s\<lparr>m_logCur := curLim\<rparr>) else s\<lparr>m_logCur := cur\<rparr>))"

subsection \<open>Scrolling the framebuffer\<close>

definition scroll_cell :: "u32 \<Rightarrow> nat \<Rightarrow> mem \<Rightarrow> mem" where
  "scroll_cell n i m =
     (let videomem = m_memBase + 2 * of_nat i; membuf = videomem + ucast (n * 2 * of_int m_width) in
      if membuf < m_memLim then put_cell videomem (m membuf) (m (membuf + 1)) m
      else put_cell videomem 0 CUR_WHITE m)"

definition scroll_screen :: "u32 \<Rightarrow> mem \<Rightarrow> mem" where
  "scroll_screen n m = fold (scroll_cell n) [0..<screen_bytes div 2] m"

definition fill_blank :: "u64 \<Rightarrow> u64 \<Rightarrow> mem \<Rightarrow> mem" where
  "fill_blank ptr lim m =
     (if ptr < lim
      then fold (\<lambda>i. put_cell (ptr + 2 * of_nat i) 0 CUR_WHITE) [0..<(unat (lim - ptr) + 1) div 2] m else m)"

definition newLines :: "'p pager_ops \<Rightarrow> u32 \<Rightarrow> 'p vga \<Rightarrow> 'p vga option" where
  "newLines P n s =
     (let y = m_curY s - ucast n;
          s = s\<lparr>m_curY := (if sint y < 0 then 0 else if sint y > m_height then of_int m_height else y)\<rparr>;
          n = (if n > of_int m_height then of_int m_height else n);
          s = vupd (scroll_screen n) s
      in if logEnabled s \<and> isMallocReady (vheap s) then
           (let newsize = m_logLim s - m_logBase s + ucast (n * 2 * of_int m_width) in do {
              (newLog, h) \<leftarrow> realloc P (m_logBase s) newsize (vheap s);
              let s = s\<lparr>vheap := h, m_logBase := newLog, m_logLim := newLog + newsize,
                        m_logCur := newLog + newsize - of_nat screen_bytes\<rparr>;
              let ptr = m_logLim s - ucast (n * 2 * of_int m_width);
              Some (vupd (fill_blank (if ptr < m_logCur s then m_logCur s else ptr) (m_logLim s)) s) })
         else Some (if logEnabled s then s\<lparr>logEnabled := False\<rparr> else s))"

subsection \<open>Erasing backwards\<close>

text \<open>Lines 393--408: the cursor column when the search for a character ends.\<close>

fun rubout_back :: "mem \<Rightarrow> int \<Rightarrow> nat \<Rightarrow> nat" where
  "rubout_back m off 0 = 0"
| "rubout_back m off (Suc x) =
     (if m (m_memBase + of_int off) = 0
      then if x = 0 then (if m (m_memBase + of_int (off - 2)) = 0 then 0 else 1)
           else rubout_back m (off - 2) x
      else Suc (Suc x))"

definition rubout :: "'p vga \<Rightarrow> 'p vga" where
  "rubout s =
     (let off = 2 * sint (m_curX s) + 2 * m_width * sint (m_curY s) in
      if sint (m_curX s) > 0 then
        let off = off - 2;
            s = s\<lparr>m_curX := m_curX s - 1\<rparr>;
            s = (if logEnabled s then vupd (put_cell (m_logCur s + of_int off) 0 CUR_WHITE) s else s)
        in vupd (put_cell (m_memBase + of_int off) 0 CUR_WHITE) s
      else if sint (m_curY s) \<le> 0 then s
      else
        let s = s\<lparr>m_curX := of_int (m_width - 1)\<rparr>; off = off - 2;
            newLogCur = m_logCur s - of_int (2 * m_width);
            (s, off) = (if logEnabled s \<and> newLogCur \<ge> m_logBase s
                        then (render (s\<lparr>m_logCur := newLogCur, m_logLim := m_logLim s - of_int (2 * m_width)\<rparr>),
                              off + m_width * 2)
                        else (vupd (put_cell (m_memBase + of_int off) 0 CUR_WHITE) (s\<lparr>m_curY := m_curY s - 1\<rparr>), off))
        in s\<lparr>m_curX := of_nat (rubout_back (vmem s) off (nat (m_width - 1)))\<rparr>)"

subsection \<open>Printing\<close>

definition put :: "'p pager_ops \<Rightarrow> u8 \<Rightarrow> 'p vga \<Rightarrow> 'p vga option" where
  "put P c s =
     (let s = outb 0xE9 c s;
          s = (if logEnabled s \<and> m_logCur s \<noteq> m_logLim s - of_nat screen_bytes then scrollDown s else s);
          s = (if c = 10 then s\<lparr>m_curX := 0, m_curY := m_curY s + 1\<rparr>
               else if c = 8 then
                 (if sint (m_curY s) \<ge> sint (ruboutLimitY s) \<and> sint (m_curX s) > sint (ruboutLimitX s)
                  then rubout s else s)
               else if c = 9 then
                 s\<lparr>m_curX := of_int (sint (m_curX s) + sint (m_tabSize s) - sint (m_curX s) smod sint (m_tabSize s))\<rparr>
               else if c = 13 then s\<lparr>m_curX := 0\<rparr>
               else
                 (let off = 2 * sint (m_curX s) + 2 * m_width * sint (m_curY s);
                      s = (if logEnabled s then vupd (put_cell (m_logCur s + of_int off) c (m_curStyle s)) s else s);
                      s = vupd (put_cell (m_memBase + of_int off) c (m_curStyle s)) s;
                      s = s\<lparr>m_curX := m_curX s + 1\<rparr>
                  in if sint (m_curX s) \<ge> m_width then s\<lparr>m_curX := 0, m_curY := m_curY s + 1\<rparr> else s))
      in if sint (m_curY s) \<ge> m_height then newLines P (of_int (1 + sint (m_curY s) - m_height)) s else Some s)"

definition print :: "'p pager_ops \<Rightarrow> u8 list \<Rightarrow> 'p vga \<Rightarrow> 'p vga option" where
  "print P str s = for_each (put P) str s"

definition clear :: "'p pager_ops \<Rightarrow> u64 \<Rightarrow> 'p vga \<Rightarrow> 'p vga option" where
  "clear P ra s = do {
     let s = vupd (fold (\<lambda>i. put_cell (m_memBase + 2 * of_nat i) 0 CUR_WHITE) [0..<screen_bytes div 2]) s;
     s \<leftarrow> (if logEnabled s then do { s \<leftarrow> enableLog P ra False s; enableLog P ra True s } else Some s);
     Some (s\<lparr>m_curX := 0, m_curY := 0\<rparr>) }"

text \<open>
  \<open>_printf\<close>: the arguments are 64-bit values.  Numbers are converted in a local buffer by the
  routines of \<open>string.cpp\<close>; a format that ends in \<open>%\<close> is read past its end.
\<close>

definition printf_directive :: "'p pager_ops \<Rightarrow> u8 \<Rightarrow> u64 \<Rightarrow> 'p vga \<Rightarrow> 'p vga option" where
  "printf_directive P f v s =
     (if f = of_char CHR ''d'' then do { t \<leftarrow> itoa_text v 10; print P t s }
      else if f = of_char CHR ''x'' then do { t \<leftarrow> itoa_text v 16; print P t s }
      else if f = of_char CHR ''p'' then do {
        t \<leftarrow> utoa_text v 16; print P (of_char CHR ''0'' # of_char CHR ''x'' # t) s }
      else if f = of_char CHR ''b'' then do { t \<leftarrow> itoa_text v 2; print P t s }
      else if f = of_char CHR ''c'' then put P (ucast v) s
      else if f = of_char CHR ''s'' then do { t \<leftarrow> cstring_at (vmem s) v; print P t s }
      else Some s)"

fun printf :: "'p pager_ops \<Rightarrow> u8 list \<Rightarrow> u64 list \<Rightarrow> 'p vga \<Rightarrow> 'p vga option" where
  "printf P fmt [] s = print P fmt s"
| "printf P [] (v # args) s = Some s"
| "printf P (f # fmt) (v # args) s =
     (if f = of_char CHR ''%'' then
        (case fmt of [] \<Rightarrow> None
         | d # fmt' \<Rightarrow> do { s \<leftarrow> printf_directive P d v s; printf P fmt' args s })
      else do { s \<leftarrow> put P f s; printf P fmt (v # args) s })"

definition getWidth :: u8 where "getWidth = of_int m_width"
definition getHeight :: u8 where "getHeight = of_int m_height"

end
