(* ===== verification/VgaSpec.thy ===== *)
theory VgaSpec
  imports VgaText
begin

section \<open>What the text screen shows\<close>

text \<open>
  A terminal of 25 lines of 80 styled characters as the specification of \<open>VGAText\<close> while the log
  is off, and what happens at the edge of the screen.
\<close>


subsection \<open>The screen as a terminal\<close>

text \<open>
  The cells of the framebuffer, line by line, each with its style; a character goes to the cursor,
  a line that leaves the screen at the bottom moves all others up.
\<close>

type_synonym terminal = "(u8 \<times> u8) list \<times> nat \<times> nat"

definition cell_addr :: "nat \<Rightarrow> u64" where
  "cell_addr i = m_memBase + 2 * of_nat i"

definition screen_cell :: "mem \<Rightarrow> nat \<Rightarrow> u8 \<times> u8" where
  "screen_cell m i = (m (cell_addr i), m (cell_addr i + 1))"

definition screen_cells :: "mem \<Rightarrow> (u8 \<times> u8) list" where
  "screen_cells m = map (screen_cell m) [0..<2000]"

definition scroll_up :: "(u8 \<times> u8) list \<Rightarrow> (u8 \<times> u8) list" where
  "scroll_up g = drop 80 g @ replicate 80 (0, CUR_WHITE)"

definition next_line :: "(u8 \<times> u8) list \<Rightarrow> nat \<Rightarrow> nat \<Rightarrow> terminal" where
  "next_line g x y = (if Suc y < 25 then (g, x, Suc y) else (scroll_up g, x, 24))"

fun term_put :: "u8 \<Rightarrow> u8 \<Rightarrow> terminal \<Rightarrow> terminal" where
  "term_put style c (g, x, y) =
     (if c = 10 then next_line g 0 y
      else if c = 13 then (g, 0, y)
      else let g = g[80 * y + x := (c, style)] in if Suc x < 80 then (g, Suc x, y) else next_line g 0 y)"

text \<open>The screen shows a terminal; its cursor is a cell of the screen.\<close>

fun shows_terminal :: "'p vga \<Rightarrow> terminal \<Rightarrow> bool" where
  "shows_terminal s (g, x, y) \<longleftrightarrow> screen_cells (vmem s) = g \<and> m_curX s = of_nat x \<and> x < 80 \<and> m_curY s = of_nat y \<and> y < 25"

definition on_screen :: "u64 \<Rightarrow> bool" where
  "on_screen a \<longleftrightarrow> m_memBase \<le> a \<and> a < m_memLim"

lemma unat_cell_addr: "i < 4000 \<Longrightarrow> unat (cell_addr i) = 0xB8000 + 2 * i"
  unfolding cell_addr_def m_memBase_def by (simp add: unat_word_ariths unsigned_of_nat take_bit_nat_eq_self)

lemma unat_cell_addr1: "i < 4000 \<Longrightarrow> unat (cell_addr i + 1) = 0xB8001 + 2 * i"
  by (simp add: unat_word_ariths unat_cell_addr)

lemma cell_addr_eq_iff:
  assumes "i < 4000" "j < 4000"
  shows "cell_addr i = cell_addr j \<longleftrightarrow> i = j" "cell_addr i + 1 = cell_addr j + 1 \<longleftrightarrow> i = j"
    "cell_addr i \<noteq> cell_addr j + 1" "cell_addr i + 1 \<noteq> cell_addr j"
proof -
  note a = unat_cell_addr [OF assms(1)] unat_cell_addr [OF assms(2)] unat_cell_addr1 [OF assms(1)] unat_cell_addr1 [OF assms(2)]
  have inj: "i = j" if "cell_addr i = cell_addr j" using a(1,2) unfolding that by simp
  then show "cell_addr i = cell_addr j \<longleftrightarrow> i = j" "cell_addr i + 1 = cell_addr j + 1 \<longleftrightarrow> i = j"
    by (auto simp only: add_right_cancel)
  have "2 * i \<noteq> 2 * j + 1" "2 * i + 1 \<noteq> 2 * j" by presburger+
  then have "unat (cell_addr i) \<noteq> unat (cell_addr j + 1)" "unat (cell_addr i + 1) \<noteq> unat (cell_addr j)" unfolding a by simp_all
  then show "cell_addr i \<noteq> cell_addr j + 1" "cell_addr i + 1 \<noteq> cell_addr j" by metis+
qed

lemma memLim: "m_memLim = 0xB8FA0"
  by (simp add: m_memLim_def m_memBase_def screen_bytes_def m_width_def m_height_def)

lemma on_screen_cell: "i < 2000 \<Longrightarrow> on_screen (cell_addr i) \<and> on_screen (cell_addr i + 1)"
  by (simp add: on_screen_def memLim m_memBase_def word_le_nat_alt word_less_nat_alt unat_cell_addr unat_cell_addr1)

lemma put_cell_outside: "i < 2000 \<Longrightarrow> \<not> on_screen a \<Longrightarrow> put_cell (cell_addr i) c st m a = m a"
  using on_screen_cell [of i] by (auto simp: put_cell_def)

lemma screen_cell_put:
  assumes "i < 2000" "j < 2000"
  shows "screen_cell (put_cell (cell_addr j) c st m) i = (if i = j then (c, st) else screen_cell m i)"
  using cell_addr_eq_iff [of i j] assms by (auto simp: screen_cell_def put_cell_def)

lemma screen_cells_put:
  "j < 2000 \<Longrightarrow> screen_cells (put_cell (cell_addr j) c st m) = (screen_cells m)[j := (c, st)]"
  by (rule nth_equalityI) (auto simp: screen_cells_def screen_cell_put nth_list_update)

text \<open>Scrolling by one line, cell by cell from the top.\<close>

lemma scroll_cell_1:
  assumes "j < 2000"
  shows "scroll_cell 1 j m = (let c = if j + 80 < 2000 then screen_cell m (j + 80) else (0, CUR_WHITE)
    in put_cell (cell_addr j) (fst c) (snd c) m)"
proof -
  have a: "m_memBase + 2 * of_nat j + ucast (1 * 2 * of_int m_width :: u32) = cell_addr (j + 80)"
    by (simp add: cell_addr_def m_width_def)
  have "cell_addr (j + 80) < m_memLim \<longleftrightarrow> j + 80 < 2000"
    using assms by (simp add: memLim word_less_nat_alt unat_cell_addr)
  then show ?thesis
    unfolding scroll_cell_def Let_def a by (simp add: cell_addr_def [symmetric] screen_cell_def)
qed

lemma scroll_cells:
  "n \<le> 2000 \<Longrightarrow> i < 2000 \<Longrightarrow> screen_cell (fold (scroll_cell 1) [0..<n] m) i =
     (if i < n then (if i + 80 < 2000 then screen_cell m (i + 80) else (0, CUR_WHITE)) else screen_cell m i)"
proof (induction n arbitrary: i)
  case (Suc n)
  then show ?case by (simp add: scroll_cell_1 Let_def screen_cell_put less_Suc_eq)
qed simp

lemma scroll_cells_outside:
  "n \<le> 2000 \<Longrightarrow> \<not> on_screen a \<Longrightarrow> fold (scroll_cell 1) [0..<n] m a = m a"
  by (induction n) (simp_all add: scroll_cell_1 Let_def put_cell_outside)

lemma scroll_screen_1: "screen_cells (scroll_screen 1 m) = scroll_up (screen_cells m)"
  by (rule nth_equalityI)
    (auto simp: screen_cells_def scroll_up_def scroll_screen_def screen_bytes_def m_width_def m_height_def scroll_cells nth_append add.commute)

lemma scroll_screen_outside: "\<not> on_screen a \<Longrightarrow> scroll_screen 1 m a = m a"
  by (simp add: scroll_screen_def screen_bytes_def m_width_def m_height_def scroll_cells_outside)

lemma sint_small: "n < 128 \<Longrightarrow> sint (of_nat n :: u8) = int n"
  by (simp add: signed_of_nat signed_take_bit_int_eq_self)

lemma vmem_vupd [simp]: "vmem (vupd f s) = f (vmem s)" "m_curX (vupd f s) = m_curX s" "m_curY (vupd f s) = m_curY s"
  "logEnabled (vupd f s) = logEnabled s" "m_curStyle (vupd f s) = m_curStyle s"
  by (simp_all add: vmem_def vupd_def upd_def)

lemma vmem_cursor [simp]: "vmem (s\<lparr>m_curX := x\<rparr>) = vmem s" "vmem (s\<lparr>m_curY := y\<rparr>) = vmem s"
  by (simp_all add: vmem_def)

definition only_screen :: "'p vga \<Rightarrow> 'p vga \<Rightarrow> bool" where
  "only_screen s s' \<longleftrightarrow> logEnabled s' = logEnabled s \<and> m_curStyle s' = m_curStyle s \<and>
     (\<forall>a. \<not> on_screen a \<longrightarrow> vmem s' a = vmem s a)"

lemma only_screen_trans: "only_screen s s' \<Longrightarrow> only_screen s' s'' \<Longrightarrow> only_screen s s''"
  by (simp add: only_screen_def)

lemma newLines_1:
  assumes "\<not> logEnabled s" "m_curY s = 25"
  shows "newLines P 1 s = Some (vupd (scroll_screen 1) (s\<lparr>m_curY := 24\<rparr>))"
  using assms by (simp add: newLines_def m_height_def Let_def)

lemma end_of_line:
  assumes "screen_cells (vmem s) = g" "m_curX s = of_nat x" "x < 80" "m_curY s = of_nat y + 1" "y < 25" "\<not> logEnabled s"
  shows "\<exists>s'. (if sint (m_curY s) \<ge> m_height then newLines P (of_int (1 + sint (m_curY s) - m_height)) s else Some s) = Some s' \<and>
    shows_terminal s' (next_line g x y) \<and> only_screen s s'"
proof -
  have y: "m_curY s = of_nat (Suc y)" "sint (m_curY s) = int (Suc y)" using assms(4,5) sint_small [of "Suc y"] by (simp_all add: add.commute)
  show ?thesis
  proof (cases "Suc y < 25")
    case True
    then show ?thesis using assms y by (simp add: m_height_def next_line_def only_screen_def)
  next
    case False
    then have "y = 24" using assms(5) by simp
    then have 25: "m_curY s = 25" "sint (m_curY s) = 25" using y by simp_all
    show ?thesis
      using newLines_1 [OF assms(6) 25(1), of P] False assms
      by (simp add: 25 m_height_def next_line_def only_screen_def scroll_screen_1 scroll_screen_outside)
  qed
qed

lemma put_terminal:
  assumes "shows_terminal s (g, x, y)" "\<not> logEnabled s" "c \<noteq> 8" "c \<noteq> 9"
  shows "\<exists>s'. put P c s = Some s' \<and> shows_terminal s' (term_put (m_curStyle s) c (g, x, y)) \<and> only_screen s s'"
proof -
  have s: "screen_cells (vmem s) = g" "m_curX s = of_nat x" "x < 80" "m_curY s = of_nat y" "y < 25"
    using assms(1) by simp_all
  have xy: "sint (m_curX s) = int x" "sint (m_curY s) = int y" using s sint_small by simp_all
  let ?s0 = "outb 0xE9 c s"
  have o: "vmem ?s0 = vmem s" "m_curX ?s0 = m_curX s" "m_curY ?s0 = m_curY s" "logEnabled ?s0 = logEnabled s"
    "m_curStyle ?s0 = m_curStyle s" by (simp_all add: outb_def vmem_def)
  consider "c = 10" | "c = 13" | (char) "c \<noteq> 10" "c \<noteq> 13" by blast
  then show ?thesis
  proof cases
    case 1
    show ?thesis
      using end_of_line [of "?s0\<lparr>m_curX := 0, m_curY := m_curY s + 1\<rparr>" g 0 y P] 1 s assms(2) o
      by (auto simp: put_def Let_def only_screen_def)
  next
    case 2
    then show ?thesis using s xy assms(2) o by (auto simp: put_def Let_def only_screen_def m_height_def)
  next
    case char
    let ?i = "80 * y + x" and ?st = "m_curStyle s"
    have i: "?i < 2000" using s(3,5) by simp
    have addr: "m_memBase + (2 * of_nat x + 160 * of_nat y) = cell_addr ?i"
      by (simp add: cell_addr_def algebra_simps)
    let ?s1 = "vupd (put_cell (cell_addr ?i) c ?st) ?s0"
    have cells: "screen_cells (vmem ?s1) = g[?i := (c, ?st)]" using screen_cells_put [OF i] s(1) o(1) by simp
    have outside: "only_screen s ?s1" using put_cell_outside [OF i] o by (simp add: only_screen_def)
    have x1: "m_curX s + 1 = of_nat (Suc x)" "sint (m_curX s + 1) = int (Suc x)"
      using s(2,3) sint_small [of "Suc x"] by (simp_all add: add.commute)
    show ?thesis
    proof (cases "Suc x < 80")
      case True
      have "put P c s = Some (?s1\<lparr>m_curX := m_curX s + 1\<rparr>)"
        using char assms(2-4) True s(5) o x1(2) by (simp add: put_def Let_def xy addr m_width_def m_height_def)
      then show ?thesis
        using True cells outside char s x1(1) o by (simp add: only_screen_def)
    next
      case False
      let ?s2 = "?s1\<lparr>m_curX := 0, m_curY := m_curY s + 1\<rparr>"
      have step: "put P c s = (if sint (m_curY ?s2) \<ge> m_height then newLines P (of_int (1 + sint (m_curY ?s2) - m_height)) ?s2 else Some ?s2)"
        using char assms(2-4) False o x1(2) by (simp add: put_def Let_def xy addr m_width_def)
      have tp: "term_put ?st c (g, x, y) = next_line (g[?i := (c, ?st)]) 0 y" using char False by simp
      have "only_screen s ?s2" using outside by (simp add: only_screen_def)
      then show ?thesis
        unfolding step tp
        using end_of_line [of ?s2 "g[?i := (c, ?st)]" 0 y P] cells s(4,5) assms(2) o(4) only_screen_trans [of s ?s2] by auto
    qed
  qed
qed

lemma print_terminal:
  "shows_terminal s (g, x, y) \<Longrightarrow> \<not> logEnabled s \<Longrightarrow> 8 \<notin> set str \<Longrightarrow> 9 \<notin> set str \<Longrightarrow>
   \<exists>s'. print P str s = Some s' \<and> shows_terminal s' (fold (term_put (m_curStyle s)) str (g, x, y)) \<and> only_screen s s'"
proof (induction str arbitrary: s g x y)
  case Nil
  then show ?case by (simp add: print_def only_screen_def)
next
  case (Cons c str)
  obtain s1 where s1: "put P c s = Some s1" "shows_terminal s1 (term_put (m_curStyle s) c (g, x, y))" "only_screen s s1"
    using put_terminal [OF Cons.prems(1,2), of c P] Cons.prems(3,4) by auto
  obtain g1 x1 y1 where t1: "term_put (m_curStyle s) c (g, x, y) = (g1, x1, y1)" by (metis prod_cases3)
  have "\<not> logEnabled s1" "m_curStyle s1 = m_curStyle s" using s1(3) Cons.prems(2) by (simp_all add: only_screen_def)
  then show ?case
    using Cons.IH [of s1 g1 x1 y1] s1 t1 Cons.prems(3,4) only_screen_trans [OF s1(3)] by (auto simp: print_def)
qed

text \<open>
  C19: Before the log is switched on, printing any text without tabs and backspaces returns and shows
  what a terminal of 25 lines shows: each character in the current style at the cursor, wrapped
  after 80, a new line that scrolls at the bottom.  The cursor stays on the screen and no byte
  outside the framebuffer changes.
\<close>

theorem print_refines_terminal:
  assumes "shows_terminal s (g, x, y)" "\<not> logEnabled s" "8 \<notin> set str" "9 \<notin> set str"
  shows "\<exists>s'. print P str s = Some s' \<and> shows_terminal s' (fold (term_put (m_curStyle s)) str (g, x, y)) \<and>
    (\<forall>a. a < 0xB8000 \<or> a \<ge> 0xB8FA0 \<longrightarrow> vmem s' a = vmem s a)"
proof -
  have "\<not> on_screen a" if "a < 0xB8000 \<or> a \<ge> 0xB8FA0" for a
    using that by (auto simp: on_screen_def memLim m_memBase_def)
  then show ?thesis using print_terminal [OF assms, of P] by (auto simp: only_screen_def)
qed

text \<open>A blank screen with the cursor at the start of the last line: a newline scrolls.\<close>

definition blank_screen :: "unit vga" where
  "blank_screen = \<lparr>vheap = \<lparr>hmem = (\<lambda>_. 0), firstChunk = 0, endOfChunks = 0, totalMemUsed = 0, totalMemAllocated = 0,
       mallocReady = False, allocRecords_size = 0, allocRecords_elems = 0, noRecordSelf = False, pager = ()\<rparr>,
     m_curX = 0, m_curY = 24, m_curStyle = 7, m_tabSize = 4, logEnabled = False, m_logBase = 0, m_logLim = 0,
     m_logCur = 0, ruboutLimitX = 0, ruboutLimitY = 0, ports = []\<rparr>"

theorem print_refines_terminal_witness:
  "\<exists>s'. print \<lparr>pg_map = (\<lambda>va n. None), pg_unmapped = (\<lambda>n. None), pg_unmap = (\<lambda>va n. None)\<rparr> [72, 10, 105] blank_screen = Some s' \<and> m_curX s' = 1 \<and> m_curY s' = 24 \<and>
     screen_cells (vmem s') ! 1840 = (72, 7) \<and> screen_cells (vmem s') ! 1920 = (105, 7)"
proof -
  let ?g = "replicate 2000 (0 :: u8, 0 :: u8)" and
    ?P = "\<lparr>pg_map = (\<lambda>va n. None), pg_unmapped = (\<lambda>n. None), pg_unmap = (\<lambda>va n. None)\<rparr> :: unit pager_ops"
  have blank: "screen_cells (\<lambda>_. 0) = ?g"
    by (rule nth_equalityI) (simp_all add: screen_cells_def screen_cell_def)
  have start: "shows_terminal blank_screen (?g, 0, 24)" "\<not> logEnabled blank_screen" "m_curStyle blank_screen = 7"
    using blank by (simp_all add: blank_screen_def vmem_def)
  have txt_fold: "fold (term_put 7) [72, 10, 105] (?g, 0, 24) = ((scroll_up (?g[1920 := (72, 7)]))[1920 := (105, 7)], 1, 24)"
    by (simp add: next_line_def)
  show ?thesis
    using print_refines_terminal [OF start(1,2), of "[72, 10, 105]" ?P] unfolding start(3) txt_fold
    by (auto simp: scroll_up_def nth_append)
qed

text \<open>
  A tab is not wrapped: from column 76 on it leaves the cursor at column 80, and the next
  character on the last line is stored behind the framebuffer.
\<close>

theorem tab_then_char_overruns:
  assumes "\<not> logEnabled s" "m_curX s = of_nat x" "76 \<le> x" "x < 80" "m_curY s = 24" "m_tabSize s = 4" "c \<notin> {8, 9, 10, 13}"
  shows "\<exists>s'. print P [9, c] s = Some s' \<and> vmem s' 0xB8FA0 = c \<and> vmem s' 0xB8FA1 = m_curStyle s"
proof -
  have x: "sint (m_curX s) = int x" using assms(2,4) sint_small by simp
  have wrap: "int x + 4 - int x smod 4 = 80"
  proof -
    have "x = 76 \<or> x = 77 \<or> x = 78 \<or> x = 79" using assms(3,4) by auto
    then show ?thesis by (elim disjE) (simp_all add: signed_modulo_int_def)
  qed
  have "m_curX s + 4 - word_of_int (int x smod 4) = 80"
    using arg_cong [OF wrap, of "of_int :: int \<Rightarrow> u8"] assms(2) by simp
  then have tab: "put P 9 s = Some ((outb 0xE9 9 s)\<lparr>m_curX := 80\<rparr>)"
    using assms(1,5,6) x by (simp add: put_def outb_def Let_def m_height_def)
  let ?s1 = "(outb 0xE9 9 s)\<lparr>m_curX := 80\<rparr>"
  let ?s2 = "vupd (put_cell 0xB8FA0 c (m_curStyle s)) (outb 0xE9 c ?s1)"
  have "put P c ?s1 = newLines P 1 (?s2\<lparr>m_curX := 0, m_curY := 25\<rparr>)"
    using assms(1,5,7) by (simp add: put_def outb_def Let_def m_height_def m_width_def m_memBase_def)
  also have "\<dots> = Some (vupd (scroll_screen 1) (?s2\<lparr>m_curX := 0, m_curY := 24\<rparr>))"
    using assms(1) by (subst newLines_1) (simp_all add: outb_def)
  finally have "print P [9, c] s = Some (vupd (scroll_screen 1) (?s2\<lparr>m_curX := 0, m_curY := 24\<rparr>))"
    using tab by (simp add: print_def)
  moreover have "\<not> on_screen 0xB8FA0" "\<not> on_screen 0xB8FA1" by (simp_all add: on_screen_def memLim)
  ultimately show ?thesis by (simp add: scroll_screen_outside put_cell_def)
qed

theorem tab_then_char_overruns_witness:
  "\<exists>s'. print \<lparr>pg_map = (\<lambda>va n. None), pg_unmapped = (\<lambda>n. None), pg_unmap = (\<lambda>va n. None)\<rparr> [9, 65]
     (blank_screen\<lparr>m_curX := 77\<rparr>) = Some s' \<and> vmem s' 0xB8FA0 = 65 \<and> vmem s' 0xB8FA1 = 7"
  using tab_then_char_overruns [of "blank_screen\<lparr>m_curX := 77\<rparr>" 77 65] by (simp add: blank_screen_def)

end
