(* ===== verification/Ata.thy ===== *)
theory Ata
  imports Prelude
begin

section \<open>The disk driver: \<open>src/kernel/disk/disk.cpp\<close>, and the partition table\<close>

text \<open>
  The driver talks to the controller through port reads and writes.  The controller is not
  part of the repository: \<open>ata_port\<close> holds its answers as functions on a state of its own.
  Sector buffers and the callers' destinations are byte lists; a read that fails leaves the
  destination as it was.  Screen messages are left out.  A polling loop runs at most
  \<open>TIMEOUT\<close> times more after its first try, so polling is structural recursion on the tries left.
\<close>

record 'd ata_port =
  dev_inb :: "u16 \<Rightarrow> 'd \<Rightarrow> u8 \<times> 'd"
  dev_inw :: "u16 \<Rightarrow> 'd \<Rightarrow> u16 \<times> 'd"
  dev_outb :: "u16 \<Rightarrow> u8 \<Rightarrow> 'd \<Rightarrow> 'd"

datatype reg_config = CONFIG_NONE | CONFIG_UNKN | CONFIG_ATA | CONFIG_ATAPI

fun config_level :: "reg_config \<Rightarrow> nat" where
  "config_level CONFIG_NONE = 0" | "config_level CONFIG_UNKN = 1"
| "config_level CONFIG_ATA = 2" | "config_level CONFIG_ATAPI = 3"

text \<open>The source compares the codes as numbers.\<close>

instantiation reg_config :: linorder
begin

definition less_eq_reg_config :: "reg_config \<Rightarrow> reg_config \<Rightarrow> bool" where
  "less_eq_reg_config a b \<longleftrightarrow> config_level a \<le> config_level b"

definition less_reg_config :: "reg_config \<Rightarrow> reg_config \<Rightarrow> bool" where
  "less_reg_config a b \<longleftrightarrow> config_level a < config_level b"

instance
proof
  fix a b :: reg_config
  show "a \<le> b \<Longrightarrow> b \<le> a \<Longrightarrow> a = b" by (cases a; cases b) (simp_all add: less_eq_reg_config_def)
qed (auto simp: less_eq_reg_config_def less_reg_config_def)

end

record 'd ata =
  regConfigInfo :: "reg_config list"
  dev :: 'd

definition CB_STAT :: u16 where "CB_STAT = 0x1F7"
definition CB_SC :: u16 where "CB_SC = 0x1F2"
definition CB_SN :: u16 where "CB_SN = 0x1F3"
definition CB_CL :: u16 where "CB_CL = 0x1F4"
definition CB_CH :: u16 where "CB_CH = 0x1F5"
definition CB_DR :: u16 where "CB_DR = 0x1F6"
definition CB_DATA :: u16 where "CB_DATA = 0x1F0"
definition CB_ASTAT :: u16 where "CB_ASTAT = 0x3F6"
definition CB_DC :: u16 where "CB_DC = 0x3F6"
definition CB_DC_SRST :: u8 where "CB_DC_SRST = 0x04"
definition CB_DC_NIEN :: u8 where "CB_DC_NIEN = 0x02"
definition CB_DH_DEV0 :: u8 where "CB_DH_DEV0 = 0x00"
definition CB_DH_DEV1 :: u8 where "CB_DH_DEV1 = 0x10"
definition CB_STAT_BSY :: u8 where "CB_STAT_BSY = 0x80"
definition CB_STAT_DRQ :: u8 where "CB_STAT_DRQ = 0x08"
definition TIMEOUT :: nat where "TIMEOUT = 0x100000"

definition in_b :: "'d ata_port \<Rightarrow> u16 \<Rightarrow> 'd ata \<Rightarrow> u8 \<times> 'd ata" where
  "in_b D p a = (let (v, d) = dev_inb D p (dev a) in (v, a\<lparr>dev := d\<rparr>))"

definition in_w :: "'d ata_port \<Rightarrow> u16 \<Rightarrow> 'd ata \<Rightarrow> u16 \<times> 'd ata" where
  "in_w D p a = (let (v, d) = dev_inw D p (dev a) in (v, a\<lparr>dev := d\<rparr>))"

definition out_b :: "'d ata_port \<Rightarrow> u16 \<Rightarrow> u8 \<Rightarrow> 'd ata \<Rightarrow> 'd ata" where
  "out_b D p v a = a\<lparr>dev := dev_outb D p v (dev a)\<rparr>"

definition wait400ns :: "'d ata_port \<Rightarrow> 'd ata \<Rightarrow> 'd ata" where
  "wait400ns D a =
     snd (in_b D CB_ASTAT (snd (in_b D CB_ASTAT (snd (in_b D CB_ASTAT (snd (in_b D CB_ASTAT a)))))))"

text \<open>
  A polling loop: try, and if it did not succeed try again while tries are left.  The result is
  the number of tries left, or \<open>None\<close> on a timeout.
\<close>

fun spin :: "('a \<Rightarrow> bool \<times> 'a) \<Rightarrow> nat \<Rightarrow> 'a \<Rightarrow> nat option \<times> 'a" where
  "spin body 0 a = (let (r, a) = body a in (if r then Some 0 else None, a))"
| "spin body (Suc n) a = (let (r, a) = body a in if r then (Some (Suc n), a) else spin body n a)"

definition status_clear :: "'d ata_port \<Rightarrow> u16 \<Rightarrow> u8 \<Rightarrow> 'd ata \<Rightarrow> bool \<times> 'd ata" where
  "status_clear D port bits a = (let (st, a) = in_b D port a in (st AND bits = 0, a))"

definition waitReady :: "'d ata_port \<Rightarrow> 'd ata \<Rightarrow> bool \<times> 'd ata" where
  "waitReady D a = (let (r, a) = spin (status_clear D CB_ASTAT CB_STAT_BSY) TIMEOUT a in (r \<noteq> None, a))"

definition dev1_responds :: "'d ata_port \<Rightarrow> 'd ata \<Rightarrow> bool \<times> 'd ata" where
  "dev1_responds D a =
     (let a = wait400ns D (out_b D CB_DR CB_DH_DEV0 a);
          (sc, a) = in_b D CB_SC a; (sn, a) = in_b D CB_SN a
      in (sc = 1 \<and> sn = 1, a))"

definition softReset :: "'d ata_port \<Rightarrow> 'd ata \<Rightarrow> 'd ata" where
  "softReset D a =
     (let a = wait400ns D (out_b D CB_DC (CB_DC_NIEN OR CB_DC_SRST) a);
          a = wait400ns D (out_b D CB_DC CB_DC_NIEN a);
          a = (if regConfigInfo a ! 0 \<noteq> CONFIG_NONE
               then snd (spin (status_clear D CB_STAT CB_STAT_BSY) TIMEOUT a) else a)
      in if regConfigInfo a ! 1 \<noteq> CONFIG_NONE then
           (let (r, a) = spin (dev1_responds D) TIMEOUT a
            in case r of Some (Suc _) \<Rightarrow> snd (in_b D CB_STAT a) | _ \<Rightarrow> a)
         else a)"

definition select_drive :: "'d ata_port \<Rightarrow> int \<Rightarrow> 'd ata \<Rightarrow> 'd ata" where
  "select_drive D devId a =
     wait400ns D (out_b D CB_DR (if devId \<noteq> 0 then CB_DH_DEV1 else CB_DH_DEV0) a)"

text \<open>A negative \<open>devId\<close> indexes the array out of its bounds.\<close>

definition selectDevice :: "'d ata_port \<Rightarrow> int \<Rightarrow> 'd ata \<Rightarrow> (bool \<times> 'd ata) option" where
  "selectDevice D devId a =
     (if devId > 1 \<or> devId < 0 then None
      else if regConfigInfo a ! nat devId < CONFIG_ATA then
        Some (True, select_drive D devId a)
      else
        let idle = status_clear D CB_STAT (CB_STAT_BSY OR CB_STAT_DRQ);
            (r, a) = spin idle (TIMEOUT + 1) a
        in case r of None \<Rightarrow> Some (False, softReset D a)
           | Some _ \<Rightarrow>
               let (r, a) = spin idle (TIMEOUT + 1) (select_drive D devId a)
               in case r of None \<Rightarrow> Some (False, softReset D a) | Some _ \<Rightarrow> Some (True, a))"

subsection \<open>\<open>init\<close>: probing the two devices\<close>

definition set_config :: "nat \<Rightarrow> reg_config \<Rightarrow> 'd ata \<Rightarrow> 'd ata" where
  "set_config i c a = a\<lparr>regConfigInfo := (regConfigInfo a)[i := c]\<rparr>"

definition poke :: "'d ata_port \<Rightarrow> nat \<Rightarrow> u8 \<Rightarrow> 'd ata \<Rightarrow> 'd ata" where
  "poke D i dh a =
     (let a = wait400ns D (out_b D CB_DR dh a);
          a = out_b D CB_SN 0xaa (out_b D CB_SC 0x55 (out_b D CB_SN 0x55 (out_b D CB_SC 0xaa
                (out_b D CB_SN 0xaa (out_b D CB_SC 0x55 a)))));
          (sc, a) = in_b D CB_SC a; (sn, a) = in_b D CB_SN a
      in if sc = 0x55 \<and> sn = 0xaa then set_config i CONFIG_UNKN a else a)"

definition probe :: "'d ata_port \<Rightarrow> nat \<Rightarrow> u8 \<Rightarrow> 'd ata \<Rightarrow> 'd ata" where
  "probe D i dh a =
     (let a = wait400ns D (out_b D CB_DR dh a);
          (sc, a) = in_b D CB_SC a; (sn, a) = in_b D CB_SN a
      in if sc = 1 \<and> sn = 1 then
           (let a = set_config i CONFIG_UNKN a;
                (st, a) = in_b D CB_STAT a; (cl, a) = in_b D CB_CL a; (ch, a) = in_b D CB_CH a
            in if (cl = 0x14 \<and> ch = 0xeb) \<or> (cl = 0x69 \<and> ch = 0x96) then set_config i CONFIG_ATAPI a
               else if st \<noteq> 0 \<and> ((cl = 0 \<and> ch = 0) \<or> (cl = 0x3c \<and> ch = 0xc3)) then set_config i CONFIG_ATA a
               else a)
         else a)"

definition ata_init :: "'d ata_port \<Rightarrow> 'd ata \<Rightarrow> 'd ata" where
  "ata_init D a =
     (let a = a\<lparr>regConfigInfo := [CONFIG_NONE, CONFIG_NONE]\<rparr>;
          a = poke D 1 CB_DH_DEV1 (poke D 0 CB_DH_DEV0 (out_b D CB_DC CB_DC_NIEN a));
          a = softReset D (wait400ns D (out_b D CB_DR CB_DH_DEV0 a))
      in probe D 1 CB_DH_DEV1 (probe D 0 CB_DH_DEV0 a))"

subsection \<open>Reading\<close>

definition prepareCommand :: "'d ata_port \<Rightarrow> int \<Rightarrow> int \<Rightarrow> int \<Rightarrow> 'd ata \<Rightarrow> 'd ata option" where
  "prepareCommand D drive numblock cnt a =
     (if cnt = 0 \<or> cnt > 255 then None
      else if numblock \<ge> 16 * 1024 * 1024 then None
      else Some
        (out_b D 0x1F6 (of_int (0xE0 OR push_bit 4 drive OR (drop_bit 24 numblock AND 0x0F)))
        (out_b D 0x1F5 (of_int (drop_bit 16 numblock))
        (out_b D 0x1F4 (of_int (drop_bit 8 numblock))
        (out_b D 0x1F3 (of_int numblock)
        (out_b D 0x1F2 (of_int cnt)
        (out_b D CB_DC CB_DC_NIEN a)))))))"

definition read_word :: "'d ata_port \<Rightarrow> nat \<Rightarrow> nat \<Rightarrow> u8 list \<times> 'd ata \<Rightarrow> u8 list \<times> 'd ata" where
  "read_word D off idx = (\<lambda>(buf, a).
     let (w, a) = in_w D CB_DATA a
     in (buf[off + 2 * idx := ucast w, off + 2 * idx + 1 := ucast (drop_bit 8 w)], a))"

definition readSector :: "'d ata_port \<Rightarrow> int \<Rightarrow> int \<Rightarrow> nat \<Rightarrow> u8 list \<Rightarrow> 'd ata \<Rightarrow> (bool \<times> u8 list \<times> 'd ata) option" where
  "readSector D drive numblock off buf a = do {
     (ok, a) \<leftarrow> selectDevice D drive a;
     if \<not> ok then Some (False, buf, a) else do {
       a \<leftarrow> prepareCommand D drive numblock 1 a;
       let a = wait400ns D (out_b D 0x1F7 0x20 a);
       let (ok, a) = waitReady D a;
       Some (if \<not> ok then (False, buf, a)
             else let (buf, a) = fold (read_word D off) [0..<256] (buf, a) in (True, buf, a)) } }"

text \<open>One block of \<open>diskRead\<close>'s loop: a failed sector is tried once more.\<close>

definition diskRead_block :: "'d ata_port \<Rightarrow> int \<Rightarrow> u64 \<Rightarrow> nat \<Rightarrow> u8 list \<times> 'd ata \<Rightarrow> (unit option \<times> u8 list \<times> 'd ata) option" where
  "diskRead_block D drive blBegin i = (\<lambda>(buf, a).
     let n = sint (ucast (blBegin + of_nat i) :: u32) in do {
       (ok, buf, a) \<leftarrow> readSector D drive n (i * 512) buf a;
       if ok then Some (None, buf, a) else do {
         (ok, buf, a) \<leftarrow> readSector D drive n (i * 512) buf a;
         Some (if ok then None else Some (), buf, a) } })"

definition diskRead :: "'d ata_port \<Rightarrow> int \<Rightarrow> u64 \<Rightarrow> u64 \<Rightarrow> u8 list \<Rightarrow> 'd ata \<Rightarrow> (int \<times> u8 list \<times> 'd ata) option" where
  "diskRead D drive offset cnt dest a =
     (let blBegin = offset div 512;
          blEnd = (offset + cnt - 1) div 512;
          blocks = blEnd - blBegin + 1
      in do {
        (r, buf, a) \<leftarrow> for_find (diskRead_block D drive blBegin) [0..<unat blocks] (replicate (unat (blocks * 512)) 0, a);
        Some (case r of Some _ \<Rightarrow> (0, dest, a)
              | None \<Rightarrow> (sint (ucast cnt :: u32),
                         take (unat cnt) (drop (unat (offset mod 512)) buf) @ drop (unat cnt) dest, a)) })"

subsection \<open>The partition table: \<open>src/kernel/disk/partTable.cpp\<close>\<close>

datatype part_type = LINUX | FAT32 | EMPTY | UNKNOWN

record partition =
  startLba :: u64
  sizeLba :: u64
  diskId :: u8
  ptype :: part_type

text \<open>
  The callers ignore the result of \<open>diskRead\<close>: when it fails they go on with what the
  uninitialised local held, which the argument \<open>junk\<close> gives.
\<close>

definition u16_at :: "u8 list \<Rightarrow> nat \<Rightarrow> u16" where
  "u16_at bs i = le_word (take 2 (drop i bs))"

definition u32_at :: "u8 list \<Rightarrow> nat \<Rightarrow> u32" where
  "u32_at bs i = le_word (take 4 (drop i bs))"

definition isMBR :: "'d ata_port \<Rightarrow> (nat \<Rightarrow> u8 list) \<Rightarrow> u32 \<Rightarrow> 'd ata \<Rightarrow> (bool \<times> 'd ata) option" where
  "isMBR D junk disk a = do {
     (_, m, a) \<leftarrow> diskRead D (sint disk) 0x1FE 2 (junk 2) a;
     Some (u16_at m 0 = 0xAA55, a) }"

definition part_type_of :: "u8 \<Rightarrow> part_type" where
  "part_type_of b = (if b = 0 then EMPTY else if b = 0xB then FAT32 else if b = 0x83 then LINUX else UNKNOWN)"

definition partition_of :: "u32 \<Rightarrow> u8 list \<Rightarrow> partition" where
  "partition_of disk buf =
     \<lparr>startLba = ucast (u32_at buf 0x8), sizeLba = ucast (u32_at buf 0xC), diskId = ucast disk,
      ptype = part_type_of (buf ! 4)\<rparr>"

definition readMBR_entry :: "'d ata_port \<Rightarrow> u32 \<Rightarrow> nat \<Rightarrow> partition list \<times> u8 list \<times> 'd ata \<Rightarrow> (partition list \<times> u8 list \<times> 'd ata) option" where
  "readMBR_entry D disk i = (\<lambda>(parts, buf, a). do {
     (_, buf, a) \<leftarrow> diskRead D (sint disk) (0x1BE + 16 * of_nat i) 16 buf a;
     Some (parts @ [partition_of disk buf], buf, a) })"

definition readMBR :: "'d ata_port \<Rightarrow> (nat \<Rightarrow> u8 list) \<Rightarrow> u32 \<Rightarrow> 'd ata \<Rightarrow> (partition list \<times> 'd ata) option" where
  "readMBR D junk disk a = do {
     (parts, _, a) \<leftarrow> for_each (readMBR_entry D disk) [0..<4] ([], junk 16, a);
     Some (parts, a) }"

definition readTable :: "'d ata_port \<Rightarrow> (nat \<Rightarrow> u8 list) \<Rightarrow> u32 \<Rightarrow> 'd ata \<Rightarrow> (partition list \<times> 'd ata) option" where
  "readTable D junk disk a = do {
     (mbr, a) \<leftarrow> isMBR D junk disk a;
     if mbr then readMBR D junk disk a else Some ([], a) }"

text \<open>\<open>mountAll\<close>: \<open>mount\<close> is \<open>VFS::mount\<close> on a state that contains the driver's.\<close>

definition mountAll ::
  "(partition \<Rightarrow> 's \<Rightarrow> (bool \<times> 's) option) \<Rightarrow> (u32 \<Rightarrow> 's \<Rightarrow> (partition list \<times> 's) option) \<Rightarrow> u32 \<Rightarrow> 's \<Rightarrow> 's option" where
  "mountAll mount read disk s = do {
     (table, s) \<leftarrow> read disk s;
     for_each (\<lambda>p s. if ptype p \<noteq> EMPTY \<and> ptype p \<noteq> UNKNOWN then map_option snd (mount p s) else Some s) table s }"


subsection \<open>The disk as a sequence of bytes\<close>

text \<open>
  What \<open>diskRead\<close> promises, over an image of the disk: a read of \<open>n\<close> bytes below the limit
  delivers the image's bytes at the front of the buffer.  \<open>good\<close> are the states of the reader
  in which the promise holds; a read stays in them.
\<close>

definition slice :: "(nat \<Rightarrow> u8) \<Rightarrow> nat \<Rightarrow> nat \<Rightarrow> u8 list" where
  "slice img off n = map img [off ..< off + n]"

definition reads ::
  "(int \<Rightarrow> u64 \<Rightarrow> u64 \<Rightarrow> u8 list \<Rightarrow> 's \<Rightarrow> (int \<times> u8 list \<times> 's) option) \<Rightarrow> int \<Rightarrow> (nat \<Rightarrow> u8) \<Rightarrow> nat \<Rightarrow> ('s \<Rightarrow> bool) \<Rightarrow> bool" where
  "reads R drive img lim good \<longleftrightarrow> (\<forall>off n dest s. good s \<longrightarrow> n \<noteq> 0 \<longrightarrow> unat off + unat n \<le> lim \<longrightarrow>
     (\<exists>r s'. R drive off n dest s = Some (r, slice img (unat off) (unat n) @ drop (unat n) dest, s') \<and> good s'))"

text \<open>
  A controller that reads every sector the driver can address as a whole: the 512 bytes of the
  sector, or any 512 bytes if the sector is one of \<open>bad\<close>.
\<close>

definition serves :: "'d ata_port \<Rightarrow> int \<Rightarrow> (nat \<Rightarrow> u8) \<Rightarrow> nat set \<Rightarrow> ('d ata \<Rightarrow> bool) \<Rightarrow> bool" where
  "serves D drive img bad ok \<longleftrightarrow> (\<forall>n off buf a. ok a \<longrightarrow> n < 2 ^ 24 \<longrightarrow> off + 512 \<le> length buf \<longrightarrow>
     (\<exists>xs a'. readSector D drive (int n) off buf a = Some (True, take off buf @ xs @ drop (off + 512) buf, a') \<and> ok a' \<and>
       length xs = 512 \<and> (n \<notin> bad \<longrightarrow> xs = slice img (512 * n) 512)))"

text \<open>The sectors from \<open>b\<close> on that \<open>n\<close> of them are.\<close>

definition readable :: "nat set \<Rightarrow> nat \<Rightarrow> nat \<Rightarrow> bool" where
  "readable bad b n \<longleftrightarrow> (\<forall>i < n. b + i \<notin> bad)"

lemma length_slice [simp]: "length (slice img off n) = n"
  by (simp add: slice_def)

lemma slice_append: "slice img off (n + k) = slice img off n @ slice img (off + n) k"
  using upt_add_eq_append [of off "off + n" k] by (simp add: slice_def add.assoc)

lemma slice_part: "i + n \<le> k \<Longrightarrow> take n (drop i (slice img off k)) = slice img (off + i) n"
  by (simp add: slice_def drop_map take_map add.assoc)

lemma sector_number:
  assumes "unat b + i < 2 ^ 24"
  shows "sint (ucast (b + of_nat i :: u64) :: u32) = int (unat b + i)"
proof -
  have u: "unat (b + of_nat i) = unat b + i"
    using assms by (simp add: unat_word_ariths unat_of_nat take_bit_nat_eq_self)
  then have v: "unat (ucast (b + of_nat i) :: u32) = unat b + i"
    using assms by (simp add: unsigned_ucast_eq take_bit_nat_eq_self)
  then have "uint (ucast (b + of_nat i) :: u32) = int (unat b + i)" by (metis uint_nat)
  moreover have "signed_take_bit 31 (int m) = int m" if "m < 2 ^ 24" for m
    using that by (intro signed_take_bit_int_eq_self) simp_all
  note this [OF assms]
  ultimately show ?thesis by (simp add: sint_uint del: of_nat_add)
qed

lemma diskRead_blocks:
  assumes "serves D drive img bad ok" "ok a" "k \<le> n" "unat b + n \<le> 2 ^ 24"
  shows "\<exists>bs a'. for_find (diskRead_block D drive b) [0..<k] (replicate (512 * n) 0, a) =
     Some (None, bs @ replicate (512 * (n - k)) 0, a') \<and> ok a' \<and> length bs = 512 * k \<and>
     (readable bad (unat b) k \<longrightarrow> bs = slice img (512 * unat b) (512 * k))"
  using assms(3)
proof (induction k)
  case 0
  then show ?case using assms(2) by (simp add: slice_def)
next
  case (Suc k)
  obtain bs a1 where a1: "for_find (diskRead_block D drive b) [0..<k] (replicate (512 * n) 0, a) = Some (None, bs @ replicate (512 * (n - k)) 0, a1)"
    "ok a1" "length bs = 512 * k" "readable bad (unat b) k \<longrightarrow> bs = slice img (512 * unat b) (512 * k)"
    using Suc by auto
  let ?buf = "bs @ replicate (512 * (n - k)) 0"
  have lt: "unat b + k < 2 ^ 24" using Suc.prems assms(4) by simp
  have len: "k * 512 + 512 \<le> length ?buf" using Suc.prems a1(3) by simp
  obtain xs a2 where a2: "readSector D drive (int (unat b + k)) (k * 512) ?buf a1 =
      Some (True, take (k * 512) ?buf @ xs @ drop (k * 512 + 512) ?buf, a2)" "ok a2"
    "length xs = 512" "unat b + k \<notin> bad \<longrightarrow> xs = slice img (512 * (unat b + k)) 512"
    using assms(1) a1(2) lt len unfolding serves_def by blast
  have "512 * (n - k) = 512 + 512 * (n - Suc k)" using Suc.prems by simp
  then have "take (k * 512) ?buf @ xs @ drop (k * 512 + 512) ?buf = (bs @ xs) @ replicate (512 * (n - Suc k)) 0"
    using a1(3) by (simp add: mult.commute)
  then have "diskRead_block D drive b k (?buf, a1) = Some (None, (bs @ xs) @ replicate (512 * (n - Suc k)) 0, a2)"
    using a2(1) sector_number [OF lt] by (simp add: diskRead_block_def)
  then have run: "for_find (diskRead_block D drive b) [0..<Suc k] (replicate (512 * n) 0, a) =
      Some (None, (bs @ xs) @ replicate (512 * (n - Suc k)) 0, a2)"
    using for_find_continue [OF a1(1), of "[k]"] by simp
  have "bs @ xs = slice img (512 * unat b) (512 * Suc k)" if "readable bad (unat b) (Suc k)"
    using that a1(4) a2(4) slice_append [of img "512 * unat b" "512 * k" 512]
    by (simp add: readable_def distrib_left add.commute)
  then show ?case using run a1(3) a2(2,3) by (intro exI [of _ "bs @ xs"] exI [of _ a2]) simp
qed

lemma unat_times_512: "unat (k :: u64) \<le> 2 ^ 24 \<Longrightarrow> unat (k * 512) = 512 * unat k"
  by (simp add: unat_word_ariths mult.commute)

lemma sector_end: "x + 1 \<le> 512 * (x div 512 + 1)" for x :: nat
  using dividend_less_div_times [of 512 x] by simp

text \<open>The sectors a read of \<open>n\<close> bytes at \<open>off\<close> touches.\<close>

definition touches :: "nat \<Rightarrow> nat \<Rightarrow> nat set" where
  "touches off n = {off div 512 .. (off + n - 1) div 512}"

lemma diskRead_result:
  assumes "serves D drive img bad ok" "ok s" "n \<noteq> 0" "unat off + unat n \<le> 2 ^ 33"
  shows "\<exists>bs s'. diskRead D drive off n dest s = Some (sint (ucast n :: u32), bs @ drop (unat n) dest, s') \<and> ok s' \<and>
    length bs = unat n \<and> (touches (unat off) (unat n) \<inter> bad = {} \<longrightarrow> bs = slice img (unat off) (unat n))"
proof -
  let ?b = "off div 512" and ?k = "(off + n - 1) div 512 - off div 512 + 1"
  have n: "0 < unat n" using assms(3) by (simp add: unat_gt_0)
  have sum: "unat (off + n) = unat off + unat n"
    using assms(4) by (intro unat_add_lem [THEN iffD1]) simp
  have "off + n \<noteq> 0" using sum n by (metis add_gr_0 less_not_refl unat_0)
  then have e: "unat (off + n - 1) = unat off + unat n - 1" using sum unat_minus_one by metis
  have b: "unat ?b = unat off div 512" by (simp add: unat_div)
  have le: "unat off div 512 \<le> (unat off + unat n - 1) div 512" using n by (intro div_le_mono) simp
  have "unat ((off + n - 1) div 512) = (unat off + unat n - 1) div 512" using e by (simp add: unat_div)
  then have d: "unat ((off + n - 1) div 512 - ?b) = (unat off + unat n - 1) div 512 - unat off div 512"
    using unat_sub [of ?b "(off + n - 1) div 512"] b le by (simp add: word_le_nat_alt)
  have top: "(unat off + unat n - 1) div 512 < 2 ^ 24" using assms(4) n by (simp add: less_mult_imp_div_less)
  have k: "unat ?k = (unat off + unat n - 1) div 512 - unat off div 512 + 1"
  proof -
    have "(unat off + unat n - 1) div 512 - unat off div 512 < 2 ^ 64 - 1"
      by (rule le_less_trans [OF diff_le_self], rule less_trans [OF top]) simp
    then have "unat ((off + n - 1) div 512 - ?b) + unat (1 :: u64) < 2 ^ 64" using d by simp
    then show ?thesis using unat_add_lem [of "(off + n - 1) div 512 - ?b" 1] d by simp
  qed
  have bk: "unat ?b + unat ?k \<le> 2 ^ 24" using b k top le by linarith
  have m: "unat (?k * 512) = 512 * unat ?k" by (rule unat_times_512, rule order_trans [OF le_add2 bk])
  obtain bs a' where a': "for_find (diskRead_block D drive ?b) [0..<unat ?k] (replicate (unat (?k * 512)) 0, s) = Some (None, bs, a')" "ok a'"
    "length bs = 512 * unat ?k" "readable bad (unat ?b) (unat ?k) \<longrightarrow> bs = slice img (512 * unat ?b) (512 * unat ?k)"
    using diskRead_blocks [OF assms(1,2) order_refl bk] unfolding m by (simp only: diff_self_eq_0 mult_0_right replicate_0 append_Nil2) blast
  have fit: "unat (off mod 512) + unat n \<le> 512 * unat ?k" "512 * unat ?b + unat (off mod 512) = unat off"
  proof -
    let ?x = "unat off + unat n - 1"
    have q: "unat ?b + unat ?k = ?x div 512 + 1" using b k le by linarith
    have "unat off + unat n = ?x + 1" using n by simp
    then have "unat off + unat n \<le> 512 * (unat ?b + unat ?k)" unfolding q using sector_end [of ?x] by simp
    moreover show "512 * unat ?b + unat (off mod 512) = unat off" by (simp add: b unat_mod)
    ultimately show "unat (off mod 512) + unat n \<le> 512 * unat ?k" by (simp add: distrib_left)
  qed
  have "readable bad (unat ?b) (unat ?k)" if "touches (unat off) (unat n) \<inter> bad = {}"
    unfolding readable_def
  proof (intro allI impI)
    fix i assume "i < unat ?k"
    then have "unat off div 512 + i \<le> (unat off + unat n - 1) div 512" using k le by linarith
    then have "unat ?b + i \<in> touches (unat off) (unat n)" by (simp add: touches_def b)
    then show "unat ?b + i \<notin> bad" using that by blast
  qed
  then have "touches (unat off) (unat n) \<inter> bad = {} \<longrightarrow> take (unat n) (drop (unat (off mod 512)) bs) = slice img (unat off) (unat n)"
    using a'(4) slice_part [OF fit(1), of img "512 * unat ?b"] fit(2) by simp
  moreover have "length (take (unat n) (drop (unat (off mod 512)) bs)) = unat n" using fit(1) a'(3) by simp
  ultimately show ?thesis using a'(1,2) by (auto simp: diskRead_def Let_def)
qed

lemma diskRead_reads: "serves D drive img {} ok \<Longrightarrow> reads (diskRead D) drive img (2 ^ 33) ok"
  unfolding reads_def using diskRead_result [of D drive img "{}" ok] by (metis inf_bot_right)


subsection \<open>A drive that answers by the ATA specification\<close>

text \<open>
  What the driver sees of the selected drive: the address registers, for how many status reads it
  is still busy, the bytes it has ready, and whether the last command failed.  \<open>pio_drive\<close> is the
  contract of LBA28 reads by programmed I/O, for a drive that cannot read the sectors \<open>bad\<close>:
  while busy only the busy bit can be relied on; otherwise the data request bit is set while words
  are left and the error bit after a failed command; registers are written while the drive is not
  busy; the read command ends within \<open>TIMEOUT\<close> status reads, with the addressed sector's words
  ready or with an error and no data.  Of the device control register only the value that disables
  interrupts is promised to change nothing; nothing is said about resets.
\<close>

record pio =
  p_sn :: u8
  p_cl :: u8
  p_ch :: u8
  p_dr :: u8
  p_busy :: nat
  p_addr :: nat
  p_left :: nat
  p_err :: bool

definition lba :: "pio \<Rightarrow> nat" where
  "lba v = unat (p_sn v) + 2 ^ 8 * unat (p_cl v) + 2 ^ 16 * unat (p_ch v) + 2 ^ 24 * unat (p_dr v AND 0xF)"

definition pio_status :: "'d ata_port \<Rightarrow> ('d \<Rightarrow> pio) \<Rightarrow> bool" where
  "pio_status D look \<longleftrightarrow> (\<forall>d p st d'. p = CB_STAT \<or> p = CB_ASTAT \<longrightarrow> dev_inb D p d = (st, d') \<longrightarrow>
      (if p_busy (look d) = 0 then look d' = look d \<and> st AND CB_STAT_BSY = 0 \<and>
         (st AND CB_STAT_DRQ = 0 \<longleftrightarrow> p_left (look d) = 0) \<and> (st AND 0x01 = 0 \<longleftrightarrow> \<not> p_err (look d))
       else look d' = (look d)\<lparr>p_busy := p_busy (look d) - 1\<rparr> \<and> st AND CB_STAT_BSY \<noteq> 0))"

definition pio_registers :: "'d ata_port \<Rightarrow> ('d \<Rightarrow> pio) \<Rightarrow> bool" where
  "pio_registers D look \<longleftrightarrow> (\<forall>d v. p_busy (look d) = 0 \<longrightarrow>
     look (dev_outb D 0x3F6 CB_DC_NIEN d) = look d \<and> look (dev_outb D 0x1F2 v d) = look d \<and>
     look (dev_outb D 0x1F3 v d) = (look d)\<lparr>p_sn := v\<rparr> \<and> look (dev_outb D 0x1F4 v d) = (look d)\<lparr>p_cl := v\<rparr> \<and>
     look (dev_outb D 0x1F5 v d) = (look d)\<lparr>p_ch := v\<rparr> \<and> look (dev_outb D 0x1F6 v d) = (look d)\<lparr>p_dr := v\<rparr>)"

definition pio_command :: "'d ata_port \<Rightarrow> int \<Rightarrow> nat set \<Rightarrow> ('d \<Rightarrow> pio) \<Rightarrow> bool" where
  "pio_command D drive bad look \<longleftrightarrow> (\<forall>d. p_busy (look d) = 0 \<longrightarrow> p_left (look d) = 0 \<longrightarrow>
     p_dr (look d) AND 0xF0 = (if drive = 0 then 0xE0 else 0xF0) \<longrightarrow>
     (\<exists>b \<le> TIMEOUT. look (dev_outb D 0x1F7 0x20 d) =
        (look d)\<lparr>p_busy := b, p_addr := 512 * lba (look d), p_left := (if lba (look d) \<in> bad then 0 else 256),
          p_err := lba (look d) \<in> bad\<rparr>))"

text \<open>With no words left the data register gives any word.\<close>

definition pio_data :: "'d ata_port \<Rightarrow> (nat \<Rightarrow> u8) \<Rightarrow> ('d \<Rightarrow> pio) \<Rightarrow> bool" where
  "pio_data D img look \<longleftrightarrow> (\<forall>d. p_busy (look d) = 0 \<longrightarrow>
     (\<exists>w d'. dev_inw D CB_DATA d = (w, d') \<and>
       (if p_left (look d) = 0 then look d' = look d
        else w = le_word (slice img (p_addr (look d)) 2) \<and>
          look d' = (look d)\<lparr>p_addr := p_addr (look d) + 2, p_left := p_left (look d) - 1\<rparr>)))"

definition pio_drive :: "'d ata_port \<Rightarrow> int \<Rightarrow> (nat \<Rightarrow> u8) \<Rightarrow> nat set \<Rightarrow> ('d \<Rightarrow> pio) \<Rightarrow> bool" where
  "pio_drive D drive img bad look \<longleftrightarrow> drive \<in> {0, 1} \<and>
     pio_status D look \<and> pio_registers D look \<and> pio_command D drive bad look \<and> pio_data D img look"

definition idle :: "('d \<Rightarrow> pio) \<Rightarrow> 'd ata \<Rightarrow> bool" where
  "idle look a \<longleftrightarrow> length (regConfigInfo a) = 2 \<and> p_busy (look (dev a)) = 0 \<and> p_left (look (dev a)) = 0"

text \<open>Polling: at most as many reads as the drive is busy for.\<close>

lemma in_b_status:
  assumes "pio_status D look" "p = CB_STAT \<or> p = CB_ASTAT" "in_b D p a = (st, a')"
  shows "if p_busy (look (dev a)) = 0
    then look (dev a') = look (dev a) \<and> st AND CB_STAT_BSY = 0 \<and> (st AND CB_STAT_DRQ = 0 \<longleftrightarrow> p_left (look (dev a)) = 0)
    else look (dev a') = (look (dev a))\<lparr>p_busy := p_busy (look (dev a)) - 1\<rparr> \<and> st AND CB_STAT_BSY \<noteq> 0"
  and "regConfigInfo a' = regConfigInfo a"
  using assms unfolding pio_status_def in_b_def Let_def by (auto split: prod.splits)

lemma wait400ns_look:
  assumes "pio_status D look"
  shows "look (dev (wait400ns D a)) = (look (dev a))\<lparr>p_busy := p_busy (look (dev a)) - 4\<rparr>"
    "regConfigInfo (wait400ns D a) = regConfigInfo a"
proof -
  have step: "look (dev (snd (in_b D CB_ASTAT a))) = (look (dev a))\<lparr>p_busy := p_busy (look (dev a)) - 1\<rparr>"
    "regConfigInfo (snd (in_b D CB_ASTAT a)) = regConfigInfo a" for a
    using in_b_status [OF assms, of CB_ASTAT a "fst (in_b D CB_ASTAT a)" "snd (in_b D CB_ASTAT a)"] by (auto split: if_splits)
  show "look (dev (wait400ns D a)) = (look (dev a))\<lparr>p_busy := p_busy (look (dev a)) - 4\<rparr>"
    "regConfigInfo (wait400ns D a) = regConfigInfo a"
    by (simp_all add: wait400ns_def step)
qed

lemma spin_ready:
  assumes "pio_status D look" "p = CB_STAT \<or> p = CB_ASTAT" "bits = CB_STAT_BSY \<or> bits = CB_STAT_BSY OR CB_STAT_DRQ \<and> p_left (look (dev a)) = 0"
    and "p_busy (look (dev a)) \<le> n"
  shows "\<exists>k a'. spin (status_clear D p bits) n a = (Some k, a') \<and> look (dev a') = (look (dev a))\<lparr>p_busy := 0\<rparr> \<and>
    regConfigInfo a' = regConfigInfo a"
  using assms(3,4)
proof (induction n arbitrary: a)
  case 0
  obtain st a' where i: "in_b D p a = (st, a')" by fastforce
  show ?case using in_b_status [OF assms(1,2) i] 0 i
    by (auto simp: status_clear_def Let_def bit.conj_disj_distrib or_eq_0_iff)
next
  case (Suc n)
  obtain st a' where i: "in_b D p a = (st, a')" by fastforce
  have c: "status_clear D p bits a = (st AND bits = 0, a')" by (simp add: status_clear_def i)
  note s = in_b_status [OF assms(1,2) i]
  show ?case
  proof (cases "p_busy (look (dev a)) = 0")
    case True
    then show ?thesis using s Suc.prems c by (auto simp: bit.conj_disj_distrib or_eq_0_iff)
  next
    case False
    have "st AND bits \<noteq> 0" using s False Suc.prems(1) by (auto simp: bit.conj_disj_distrib or_eq_0_iff)
    moreover have "\<exists>k a''. spin (status_clear D p bits) n a' = (Some k, a'') \<and> look (dev a'') = (look (dev a'))\<lparr>p_busy := 0\<rparr> \<and> regConfigInfo a'' = regConfigInfo a'"
      by (rule Suc.IH) (use s False Suc.prems in auto)
    ultimately show ?thesis using s False c by auto
  qed
qed


lemma selectDevice_ready:
  assumes "pio_drive D drive img bad look" "idle look a"
  shows "\<exists>a'. selectDevice D drive a = Some (True, a') \<and> idle look a' \<and> regConfigInfo a' = regConfigInfo a"
proof -
  have st: "pio_status D look" "pio_registers D look" "drive = 0 \<or> drive = 1" using assms(1) by (auto simp: pio_drive_def)
  have sel: "idle look (select_drive D drive a)" "regConfigInfo (select_drive D drive a) = regConfigInfo a" if "idle look a" for a
    using that st(2) wait400ns_look [OF st(1)]
    by (simp_all add: idle_def select_drive_def out_b_def CB_DR_def pio_registers_def)
  have poll: "\<exists>k a'. spin (status_clear D CB_STAT (CB_STAT_BSY OR CB_STAT_DRQ)) (TIMEOUT + 1) a = (Some k, a') \<and> idle look a' \<and> regConfigInfo a' = regConfigInfo a"
    if "idle look a" for a
    using spin_ready [OF st(1), of CB_STAT "CB_STAT_BSY OR CB_STAT_DRQ" a "TIMEOUT + 1"] that by (auto simp: idle_def)
  obtain k1 a1 where a1: "spin (status_clear D CB_STAT (CB_STAT_BSY OR CB_STAT_DRQ)) (TIMEOUT + 1) a = (Some k1, a1)" "idle look a1"
    "regConfigInfo a1 = regConfigInfo a" using poll [OF assms(2)] by blast
  obtain k2 a2 where a2: "spin (status_clear D CB_STAT (CB_STAT_BSY OR CB_STAT_DRQ)) (TIMEOUT + 1) (select_drive D drive a1) = (Some k2, a2)" "idle look a2"
    "regConfigInfo a2 = regConfigInfo a" using poll [OF sel(1) [OF a1(2)]] sel(2) [OF a1(2)] a1(3) by auto
  show ?thesis
  proof (cases "regConfigInfo a ! nat drive < CONFIG_ATA")
    case True
    then show ?thesis using sel [OF assms(2)] st(3) by (auto simp: selectDevice_def)
  next
    case False
    then show ?thesis using a1 a2 st(3) by (simp only: selectDevice_def Let_def) auto
  qed
qed

text \<open>The address registers after \<open>prepareCommand\<close>.\<close>

lemma low_byte: "unat (of_int (int n) :: u8) = n mod 256"
  by (simp add: unat_of_nat take_bit_eq_mod)

lemma drive_register:
  assumes "drive = 0 \<or> drive = 1" "n < 2 ^ 24"
  shows "(of_int (0xE0 OR push_bit 4 drive OR (drop_bit 24 (int n) AND 0x0F)) :: u8) = (if drive = 0 then 0xE0 else 0xF0)"
proof -
  have "drop_bit 24 (int n) = 0" using assms(2) by (simp add: drop_bit_eq_div)
  then show ?thesis using assms(1) by auto
qed

lemma lba_registers:
  fixes n :: nat
  assumes "n < 2 ^ 24"
  shows "n mod 256 + 2 ^ 8 * (n div 256 mod 256) + 2 ^ 16 * (n div 65536 mod 256) = n"
proof -
  have "n div 65536 mod 256 = n div 65536" using assms by (simp add: less_mult_imp_div_less)
  moreover have "n mod 65536 = 256 * (n div 256 mod 256) + n mod 256" using mod_mult2_eq [of n 256 256] by simp
  ultimately show ?thesis using mult_div_mod_eq [of 65536 n] by simp
qed

lemma prepareCommand_look:
  assumes "pio_drive D drive img bad look" "n < 2 ^ 24" "p_busy (look (dev a)) = 0"
  shows "\<exists>a'. prepareCommand D drive (int n) 1 a = Some a' \<and> lba (look (dev a')) = n \<and> regConfigInfo a' = regConfigInfo a \<and>
    p_dr (look (dev a')) AND 0xF0 = (if drive = 0 then 0xE0 else 0xF0) \<and> p_busy (look (dev a')) = p_busy (look (dev a)) \<and>
    p_left (look (dev a')) = p_left (look (dev a))"
proof -
  have st: "pio_registers D look" "drive = 0 \<or> drive = 1" using assms(1) by (auto simp: pio_drive_def)
  have b: "unat (of_int (drop_bit 8 (int n)) :: u8) = n div 256 mod 256" "unat (of_int (drop_bit 16 (int n)) :: u8) = n div 65536 mod 256"
    using low_byte [of "n div 256"] low_byte [of "n div 65536"] by (simp_all add: drop_bit_eq_div zdiv_int)
  show ?thesis
    using st lba_registers [OF assms(2)] drive_register [OF st(2) assms(2)] low_byte [of n] b assms(2,3)
    by (auto simp: prepareCommand_def out_b_def pio_registers_def lba_def CB_DC_def)
qed


lemma word_bytes: "ucast (le_word [b0, b1] :: u16) = b0" "ucast (drop_bit 8 (le_word [b0, b1] :: u16)) = b1"
proof -
  have "\<not> bit b0 (8 + n)" for n using bit_imp_le_length [of b0 "8 + n"] by auto
  then show "ucast (le_word [b0, b1] :: u16) = b0" "ucast (drop_bit 8 (le_word [b0, b1] :: u16)) = b1"
    by (auto intro!: bit_eqI simp: bit_simps)
qed

lemma data_words:
  assumes "pio_data D img look"
  shows "off + 2 * k \<le> length buf \<Longrightarrow> p_busy (look (dev a)) = 0 \<Longrightarrow> k \<le> p_left (look (dev a)) \<Longrightarrow>
    \<exists>a'. fold (read_word D off) [0..<k] (buf, a) =
      (take off buf @ slice img (p_addr (look (dev a))) (2 * k) @ drop (off + 2 * k) buf, a') \<and>
      look (dev a') = (look (dev a))\<lparr>p_addr := p_addr (look (dev a)) + 2 * k, p_left := p_left (look (dev a)) - k\<rparr> \<and>
      regConfigInfo a' = regConfigInfo a"
proof (induction k)
  case 0
  then show ?case by (simp add: slice_def)
next
  case (Suc k)
  let ?s = "\<lambda>k. slice img (p_addr (look (dev a))) (2 * k)"
  let ?b = "take off buf @ ?s k @ drop (off + 2 * k) buf"
  obtain a1 where a1: "fold (read_word D off) [0..<k] (buf, a) = (?b, a1)"
    "look (dev a1) = (look (dev a))\<lparr>p_addr := p_addr (look (dev a)) + 2 * k, p_left := p_left (look (dev a)) - k\<rparr>"
    "regConfigInfo a1 = regConfigInfo a" using Suc by auto
  let ?p = "p_addr (look (dev a)) + 2 * k"
  have "p_busy (look (dev a1)) = 0" "p_left (look (dev a1)) \<noteq> 0" using Suc.prems a1(2) by simp_all
  from assms [unfolded pio_data_def, rule_format, OF this(1)] this(2) obtain d' where d': "dev_inw D CB_DATA (dev a1) = (le_word (slice img ?p 2), d')"
    "look d' = (look (dev a1))\<lparr>p_addr := ?p + 2, p_left := p_left (look (dev a)) - k - 1\<rparr>"
    using a1(2) by auto
  have sl: "slice img ?p 2 = [img ?p, img (?p + 1)]" by (simp add: slice_def upt_rec)
  have d: "drop (off + 2 * k) buf = buf ! (off + 2 * k) # buf ! (off + 2 * k + 1) # drop (off + 2 * Suc k) buf"
    using Suc.prems(1) by (simp add: Cons_nth_drop_Suc)
  have "?s (Suc k) = ?s k @ [img ?p, img (?p + 1)]"
    using slice_append [of img "p_addr (look (dev a))" "2 * k" 2] sl by simp
  then have "read_word D off k (?b, a1) = (take off buf @ ?s (Suc k) @ drop (off + 2 * Suc k) buf, a1\<lparr>dev := d'\<rparr>)"
    using d'(1) d Suc.prems(1) unfolding sl by (simp add: read_word_def in_w_def word_bytes list_update_append del: le_word.simps)
  then show ?case using a1 d'(2) by simp
qed

text \<open>With no words left the reads deliver something and change nothing.\<close>

lemma no_data_words:
  assumes "pio_data D img look"
  shows "off + 2 * k \<le> length buf \<Longrightarrow> p_busy (look (dev a)) = 0 \<Longrightarrow> p_left (look (dev a)) = 0 \<Longrightarrow>
    \<exists>xs a'. fold (read_word D off) [0..<k] (buf, a) = (take off buf @ xs @ drop (off + 2 * k) buf, a') \<and> length xs = 2 * k \<and>
      look (dev a') = look (dev a) \<and> regConfigInfo a' = regConfigInfo a"
proof (induction k)
  case 0
  then show ?case by simp
next
  case (Suc k)
  obtain xs a1 where a1: "fold (read_word D off) [0..<k] (buf, a) = (take off buf @ xs @ drop (off + 2 * k) buf, a1)" "length xs = 2 * k"
    "look (dev a1) = look (dev a)" "regConfigInfo a1 = regConfigInfo a" using Suc by auto
  have "p_busy (look (dev a1)) = 0" "p_left (look (dev a1)) = 0" using Suc.prems a1(3) by simp_all
  from assms [unfolded pio_data_def, rule_format, OF this(1)] this(2)
  obtain w d' where d': "dev_inw D CB_DATA (dev a1) = (w, d')" "look d' = look (dev a1)" by auto
  have d: "drop (off + 2 * k) buf = buf ! (off + 2 * k) # buf ! (off + 2 * k + 1) # drop (off + 2 * Suc k) buf"
    using Suc.prems(1) by (simp add: Cons_nth_drop_Suc)
  have "read_word D off k (take off buf @ xs @ drop (off + 2 * k) buf, a1) =
      (take off buf @ (xs @ [ucast w, ucast (drop_bit 8 w)]) @ drop (off + 2 * Suc k) buf, a1\<lparr>dev := d'\<rparr>)"
    using d'(1) d Suc.prems(1) a1(2) by (simp add: read_word_def in_w_def list_update_append)
  then show ?case using a1 d'(2) by (intro exI [of _ "xs @ [ucast w, ucast (drop_bit 8 w)]"] exI [of _ "a1\<lparr>dev := d'\<rparr>"]) simp
qed

lemma pio_drive_serves:
  assumes "pio_drive D drive img bad look"
  shows "serves D drive img bad (idle look)"
  unfolding serves_def
proof (intro allI impI)
  fix n off buf and a
  assume a: "idle look a" "n < (2 :: nat) ^ 24" "off + 512 \<le> length (buf :: u8 list)"
  have st: "pio_status D look" "pio_command D drive bad look" "pio_data D img look" using assms by (auto simp: pio_drive_def)
  obtain a1 where a1: "selectDevice D drive a = Some (True, a1)" "idle look a1" using selectDevice_ready [OF assms a(1)] by blast
  obtain a2 where a2: "prepareCommand D drive (int n) 1 a1 = Some a2" "lba (look (dev a2)) = n" "regConfigInfo a2 = regConfigInfo a1"
    "p_dr (look (dev a2)) AND 0xF0 = (if drive = 0 then 0xE0 else 0xF0)" "p_busy (look (dev a2)) = 0" "p_left (look (dev a2)) = 0"
    using prepareCommand_look [OF assms a(2), of a1] a1(2) by (auto simp: idle_def)
  define a3 where "a3 = out_b D 0x1F7 0x20 a2"
  let ?left = "if n \<in> bad then 0 else 256 :: nat"
  obtain b where b: "b \<le> TIMEOUT" "look (dev a3) = (look (dev a2))\<lparr>p_busy := b, p_addr := 512 * n, p_left := ?left, p_err := n \<in> bad\<rparr>"
    using st(2) [unfolded pio_command_def, rule_format, OF a2(5,6,4)] unfolding a3_def out_b_def a2(2) by auto
  define a4 where "a4 = wait400ns D a3"
  have l4: "look (dev a4) = (look (dev a2))\<lparr>p_busy := b - 4, p_addr := 512 * n, p_left := ?left, p_err := n \<in> bad\<rparr>"
    "regConfigInfo a4 = regConfigInfo a3"
    using wait400ns_look [OF st(1), of a3] b(2) by (simp_all add: a4_def)
  obtain k a5 where a5: "spin (status_clear D CB_ASTAT CB_STAT_BSY) TIMEOUT a4 = (Some k, a5)"
    "look (dev a5) = (look (dev a4))\<lparr>p_busy := 0\<rparr>" "regConfigInfo a5 = regConfigInfo a4"
    using spin_ready [OF st(1), of CB_ASTAT CB_STAT_BSY a4 TIMEOUT] l4(1) order_trans [OF diff_le_self b(1), of 4] by auto
  have "\<exists>xs a6. fold (read_word D off) [0..<256] (buf, a5) = (take off buf @ xs @ drop (off + 512) buf, a6) \<and> length xs = 512 \<and>
    (n \<notin> bad \<longrightarrow> xs = slice img (512 * n) 512) \<and> p_busy (look (dev a6)) = 0 \<and> p_left (look (dev a6)) = 0 \<and> regConfigInfo a6 = regConfigInfo a5"
  proof (cases "n \<in> bad")
    case True
    then show ?thesis using no_data_words [OF st(3), of off 256 buf a5] a5(2) l4(1) a(3) by auto
  next
    case False
    then show ?thesis using data_words [OF st(3), of off 256 buf a5] a5(2) l4(1) a(3) by auto
  qed
  then obtain xs a6 where a6: "fold (read_word D off) [0..<256] (buf, a5) = (take off buf @ xs @ drop (off + 512) buf, a6)" "length xs = 512"
    "n \<notin> bad \<longrightarrow> xs = slice img (512 * n) 512" "p_busy (look (dev a6)) = 0" "p_left (look (dev a6)) = 0" "regConfigInfo a6 = regConfigInfo a5"
    by blast
  have "idle look a6" using a6(4-) a5(3) l4(2) a1(2) a2(3) by (simp add: idle_def a3_def out_b_def)
  moreover have "readSector D drive (int n) off buf a = Some (True, take off buf @ xs @ drop (off + 512) buf, a6)"
    using a1(1) a2(1) a5(1) a6(1) by (simp add: readSector_def waitReady_def Let_def a3_def [symmetric] a4_def [symmetric])
  ultimately show "\<exists>xs a'. readSector D drive (int n) off buf a =
      Some (True, take off buf @ xs @ drop (off + 512) buf, a') \<and> idle look a' \<and> length xs = 512 \<and> (n \<notin> bad \<longrightarrow> xs = slice img (512 * n) 512)"
    using a6(2,3) by blast
qed


text \<open>
  C9: If the drive answers by the ATA specification, \<open>diskRead\<close> of any bytes below 8 GiB, aligned
  or not and across sectors, returns, gives the count back, leaves the rest of the caller's buffer
  alone and the controller idle; and if the drive can read all sectors the bytes lie in, it delivers
  exactly those bytes of the disk.  A sector the drive reports an error for is not noticed: the
  result is the same, the bytes are whatever the data port gave.
\<close>

theorem diskRead_delivers:
  assumes "pio_drive D drive img bad look" "idle look a" "n \<noteq> 0" "unat off + unat n \<le> 2 ^ 33"
  shows "\<exists>bs a'. diskRead D drive off n dest a = Some (sint (ucast n :: u32), bs @ drop (unat n) dest, a') \<and>
    idle look a' \<and> length bs = unat n \<and> (touches (unat off) (unat n) \<inter> bad = {} \<longrightarrow> bs = slice img (unat off) (unat n))"
  using diskRead_result [OF pio_drive_serves [OF assms(1)] assms(2-4)] by blast

text \<open>
  A drive that is busy for three status reads after each command and holds the bytes of an image,
  and one that holds the byte 0x55 everywhere.
\<close>

definition drive_of :: "(nat \<Rightarrow> u8) \<Rightarrow> nat set \<Rightarrow> pio ata_port" where
  "drive_of img bad = \<lparr>dev_inb = (\<lambda>p d. if p_busy d = 0 then ((if p_left d = 0 then 0x40 else 0x48) OR (if p_err d then 1 else 0), d)
       else (0x80, d\<lparr>p_busy := p_busy d - 1\<rparr>)),
     dev_inw = (\<lambda>p d. if p_left d = 0 then (0x7F7F, d)
       else (le_word (slice img (p_addr d) 2), d\<lparr>p_addr := p_addr d + 2, p_left := p_left d - 1\<rparr>)),
     dev_outb = (\<lambda>p v d. if p = 0x1F3 then d\<lparr>p_sn := v\<rparr> else if p = 0x1F4 then d\<lparr>p_cl := v\<rparr>
       else if p = 0x1F5 then d\<lparr>p_ch := v\<rparr> else if p = 0x1F6 then d\<lparr>p_dr := v\<rparr>
       else if p = 0x1F7 then d\<lparr>p_busy := 3, p_addr := 512 * lba d, p_left := (if lba d \<in> bad then 0 else 256), p_err := lba d \<in> bad\<rparr>
       else d)\<rparr>"

lemma drive_of_contract: "pio_drive (drive_of img bad) 0 img bad id"
  unfolding pio_drive_def
proof (intro conjI)
  show "pio_status (drive_of img bad) id"
    by (auto simp: pio_status_def drive_of_def CB_STAT_BSY_def CB_STAT_DRQ_def split: if_splits)
  show "pio_registers (drive_of img bad) id" by (simp add: pio_registers_def drive_of_def)
  show "pio_command (drive_of img bad) 0 bad id"
    by (auto simp: pio_command_def drive_of_def TIMEOUT_def intro!: exI [of _ 3])
  show "pio_data (drive_of img bad) img id" by (auto simp: pio_data_def drive_of_def)
qed simp

text \<open>A drive that holds the byte 0x55 everywhere and cannot read sector 7.\<close>

definition drive0 :: "pio ata_port" where
  "drive0 = drive_of (\<lambda>_. 0x55) {7}"

definition pio0 :: "pio ata" where
  "pio0 = \<lparr>regConfigInfo = [CONFIG_ATA, CONFIG_NONE],
     dev = \<lparr>p_sn = 0, p_cl = 0, p_ch = 0, p_dr = 0, p_busy = 0, p_addr = 0, p_left = 0, p_err = False\<rparr>\<rparr>"

lemma pio0_idle: "idle id pio0"
  by (simp add: idle_def pio0_def)

lemma slice_const: "slice (\<lambda>_. c) off n = replicate n c"
  by (simp add: slice_def map_replicate_const)

theorem diskRead_delivers_witness:
  "\<exists>a'. diskRead drive0 0 510 4 (replicate 6 0) pio0 = Some (4, replicate 4 0x55 @ replicate 2 0, a') \<and> idle id a'"
proof -
  have "touches 510 4 \<inter> {7} = {}" by (simp add: touches_def)
  moreover have "drop 4 (replicate 6 0) = (replicate 2 0 :: u8 list)" by simp
  ultimately show ?thesis
    using diskRead_delivers [OF drive_of_contract [of "\<lambda>_. 0x55" "{7}"] pio0_idle, of 4 510 "replicate 6 0"]
    by (auto simp: drive0_def slice_const)
qed

end
