(* ===== verification/Vfs.thy ===== *)
theory Vfs
  imports CString Ata
begin

section \<open>The virtual file system: \<open>src/kernel/disk/vfs.cpp\<close>\<close>

text \<open>
  Nodes are objects in a store, named by numbers in the order they are created; node 0 is the
  root.  The virtual methods of a node are chosen by \<open>class\<close>, a value of the type the file
  systems add.  \<open>resolvePath\<close> takes \<open>lookup\<close> as a parameter, the virtual call, so that it
  works over every file system.  A path is the bytes of a C string before its terminator.
\<close>

record 'c node =
  nname :: "u8 list"
  nparent :: nat
  ntype :: u8
  nchilds :: "nat list"
  nclass :: 'c

record 'c vfs =
  nodes :: "nat \<Rightarrow> 'c node option"
  next_node :: nat

definition root :: nat where "root = 0"

text \<open>The constructor; the store's next number is the new object's address.\<close>

definition new_node :: "u8 list \<Rightarrow> nat \<Rightarrow> u8 \<Rightarrow> 'c \<Rightarrow> 'c vfs \<Rightarrow> nat \<times> 'c vfs" where
  "new_node nm par ty cls v =
     (next_node v,
      v\<lparr>nodes := (nodes v)(next_node v \<mapsto> \<lparr>nname = nm, nparent = par, ntype = ty, nchilds = [], nclass = cls\<rparr>),
        next_node := Suc (next_node v)\<rparr>)"

definition upd_node :: "nat \<Rightarrow> ('c node \<Rightarrow> 'c node) \<Rightarrow> 'c vfs \<Rightarrow> 'c vfs" where
  "upd_node n f v = v\<lparr>nodes := (nodes v)(n := map_option f (nodes v n))\<rparr>"

text \<open>The destructor deletes the children too.\<close>

partial_function (option) delete_nodes :: "nat list \<Rightarrow> 'c vfs \<Rightarrow> 'c vfs option" where
  "delete_nodes ns v =
     (case ns of [] \<Rightarrow> Some v
      | n # ns' \<Rightarrow>
          (case nodes v n of None \<Rightarrow> None
           | Some nd \<Rightarrow> do {
               v \<leftarrow> delete_nodes (nchilds nd) v;
               delete_nodes ns' (v\<lparr>nodes := (nodes v)(n := None)\<rparr>) }))"

definition getName :: "'c vfs \<Rightarrow> nat \<Rightarrow> u8 list option" where
  "getName v n = map_option nname (nodes v n)"

definition getParent :: "'c vfs \<Rightarrow> nat \<Rightarrow> nat option" where
  "getParent v n = map_option nparent (nodes v n)"

definition node_getSize :: u64 where "node_getSize = 0"
definition node_getType :: u8 where "node_getType = 0"
definition node_read :: u64 where "node_read = 0"
definition seekg :: "u64 \<Rightarrow> bool" where "seekg pos = (pos = 0)"

definition node_lookup :: "nat \<Rightarrow> 'c vfs \<Rightarrow> (nat list \<times> 'c vfs) option" where
  "node_lookup n v = map_option (\<lambda>nd. (nchilds nd, v)) (nodes v n)"

definition addChild :: "nat \<Rightarrow> nat \<Rightarrow> 'c vfs \<Rightarrow> bool \<times> 'c vfs" where
  "addChild n other v = (True, upd_node n (\<lambda>nd. nd\<lparr>nchilds := nchilds nd @ [other]\<rparr>) v)"

definition createChild :: "nat \<Rightarrow> u8 list \<Rightarrow> nat \<Rightarrow> u8 \<Rightarrow> 'c \<Rightarrow> 'c vfs \<Rightarrow> nat \<times> 'c vfs" where
  "createChild n nm par ty cls v =
     (let (c, v) = new_node nm par ty cls v in (c, snd (addChild n c v)))"

definition vfs_init :: "'c \<Rightarrow> 'c vfs" where
  "vfs_init base =
     \<lparr>nodes = [root \<mapsto> \<lparr>nname = [], nparent = root, ntype = 0, nchilds = [], nclass = base\<rparr>], next_node = 1\<rparr>"

subsection \<open>Mounting\<close>

text \<open>
  A registered file system is its \<open>mount\<close> method, which yields a node or a null pointer; the
  base class's yields none.  The state \<open>'s\<close> contains the store.
\<close>

type_synonym 's mount_fun = "partition \<Rightarrow> nat \<Rightarrow> u8 list \<Rightarrow> 's \<Rightarrow> (nat option \<times> 's) option"

definition filesystem_mount :: "'s mount_fun" where
  "filesystem_mount part par nm s = Some (None, s)"

definition registerFilesystem :: "'s mount_fun \<Rightarrow> 's mount_fun list \<Rightarrow> 's mount_fun list" where
  "registerFilesystem fs fss = fss @ [fs]"

fun mount_loop :: "'s mount_fun list \<Rightarrow> (nat \<Rightarrow> 's \<Rightarrow> 's) \<Rightarrow> partition \<Rightarrow> nat \<Rightarrow> u8 list \<Rightarrow> 's \<Rightarrow> (nat option \<times> 's) option" where
  "mount_loop [] add_root part par nm s = Some (None, s)"
| "mount_loop (f # fs) add_root part par nm s = do {
     (r, s) \<leftarrow> f part par nm s;
     case r of None \<Rightarrow> mount_loop fs add_root part par nm s
             | Some n \<Rightarrow> Some (Some n, add_root n s) }"

definition vfs_mount ::
  "'s mount_fun list \<Rightarrow> (nat \<Rightarrow> 's \<Rightarrow> (nat list \<times> 's) option) \<Rightarrow> (nat \<Rightarrow> 's \<Rightarrow> 's) \<Rightarrow> partition \<Rightarrow> nat \<Rightarrow> u8 list option \<Rightarrow> 's \<Rightarrow> (nat option \<times> 's) option" where
  "vfs_mount fss lookup add_root part par destname s = do {
     (nm, s) \<leftarrow> (case destname of Some nm \<Rightarrow> Some (nm, s)
                 | None \<Rightarrow> do {
                     (mountpoints, s) \<leftarrow> lookup root s;
                     nm \<leftarrow> utoa_text (of_nat (length mountpoints)) 10;
                     Some (nm, s) });
     mount_loop fss add_root part par nm s }"

subsection \<open>\<open>resolvePath\<close>\<close>

definition SLASH :: u8 where "SLASH = of_char CHR ''/''"
definition DOT :: u8 where "DOT = of_char CHR ''.''"

definition char_at :: "u8 list \<Rightarrow> nat \<Rightarrow> u8" where
  "char_at p i = (if i < length p then p ! i else 0)"

text \<open>\<open>while (*beg_p == '/') beg_p++;\<close>\<close>

function skip_slashes :: "u8 list \<Rightarrow> nat \<Rightarrow> nat" where
  "skip_slashes p i = (if char_at p i = SLASH then skip_slashes p (Suc i) else i)"
  by pat_completeness auto
termination
  by (relation "measure (\<lambda>(p, i). length p - i)") (auto simp: char_at_def SLASH_def split: if_splits)

text \<open>\<open>while (*end_p != 0 && *end_p != '/') end_p++;\<close>\<close>

function name_end :: "u8 list \<Rightarrow> nat \<Rightarrow> nat" where
  "name_end p i = (if char_at p i \<noteq> 0 \<and> char_at p i \<noteq> SLASH then name_end p (Suc i) else i)"
  by pat_completeness auto
termination
  by (relation "measure (\<lambda>(p, i). length p - i)") (auto simp: char_at_def split: if_splits)

declare skip_slashes.simps [simp del] name_end.simps [simp del]

fun find_child :: "(nat \<Rightarrow> u8 list option) \<Rightarrow> u8 list \<Rightarrow> nat list \<Rightarrow> nat option" where
  "find_child name_of nm [] = None"
| "find_child name_of nm (c # cs) = (if name_of c = Some nm then Some c else find_child name_of nm cs)"

lemma skip_slashes_ge: "i \<le> skip_slashes p i"
proof (induction p i rule: skip_slashes.induct)
  case (1 p i)
  then show ?case by (subst skip_slashes.simps) (auto simp: Suc_le_eq)
qed

lemma name_end_ge: "i \<le> name_end p i"
proof (induction p i rule: name_end.induct)
  case (1 p i)
  then show ?case by (subst name_end.simps) (auto simp: Suc_le_eq)
qed

text \<open>The body of the main loop for the name between \<open>beg_p\<close> and \<open>end_p\<close>.\<close>

definition resolve_step ::
  "(nat \<Rightarrow> 's \<Rightarrow> (nat list \<times> 's) option) \<Rightarrow> ('s \<Rightarrow> nat \<Rightarrow> u8 list option) \<Rightarrow> ('s \<Rightarrow> nat \<Rightarrow> nat option) \<Rightarrow>
   u8 list \<Rightarrow> nat \<Rightarrow> 's \<Rightarrow> (nat option \<times> 's) option" where
  "resolve_step lookup name_of parent_of nm current s = do {
     (childs, s) \<leftarrow> lookup current s;
     if childs = [] then Some (None, s)
     else if nm = [DOT, DOT] then do { par \<leftarrow> parent_of s current; Some (Some par, s) }
     else if nm = [DOT] then Some (Some current, s)
     else Some (find_child (name_of s) nm childs, s) }"

function resolve_loop ::
  "(nat \<Rightarrow> 's \<Rightarrow> (nat list \<times> 's) option) \<Rightarrow> ('s \<Rightarrow> nat \<Rightarrow> u8 list option) \<Rightarrow> ('s \<Rightarrow> nat \<Rightarrow> nat option) \<Rightarrow>
   u8 list \<Rightarrow> nat \<Rightarrow> nat \<Rightarrow> 's \<Rightarrow> (nat option \<times> 's) option" where
  "resolve_loop lookup name_of parent_of p beg current s =
     (if char_at p beg = 0 then Some (Some current, s)
      else
        let e = name_end p (Suc beg); nm = take (e - beg) (drop beg p) in
        case resolve_step lookup name_of parent_of nm current s of
          None \<Rightarrow> None
        | Some (None, s) \<Rightarrow> Some (None, s)
        | Some (Some current, s) \<Rightarrow> resolve_loop lookup name_of parent_of p (skip_slashes p e) current s)"
  by pat_completeness auto
termination
proof (relation "measure (\<lambda>(_, _, _, p, beg, _). length p - beg)", goal_cases)
  case (2 lookup name_of parent_of p beg current s e nm r a b c)
  have "beg < length p" using 2(1) by (auto simp: char_at_def split: if_splits)
  moreover have "Suc beg \<le> skip_slashes p e"
    using skip_slashes_ge [of e p] name_end_ge [of "Suc beg" p] 2(2) by simp
  ultimately show ?case by simp
qed simp

declare resolve_loop.simps [simp del]

definition resolvePath ::
  "(nat \<Rightarrow> 's \<Rightarrow> (nat list \<times> 's) option) \<Rightarrow> ('s \<Rightarrow> nat \<Rightarrow> u8 list option) \<Rightarrow> ('s \<Rightarrow> nat \<Rightarrow> nat option) \<Rightarrow>
   u8 list \<Rightarrow> 's \<Rightarrow> (nat option \<times> 's) option" where
  "resolvePath lookup name_of parent_of p s =
     (if char_at p 0 = 0 then Some (None, s)
      else resolve_loop lookup name_of parent_of p (skip_slashes p 0) root s)"


subsection \<open>\<open>resolvePath\<close> as a walk over the names of the path\<close>

text \<open>The names between slashes, and the walk over them from a node.\<close>

function components :: "u8 list \<Rightarrow> u8 list list" where
  "components p =
     (let q = dropWhile (\<lambda>c. c = SLASH) p in
      if q = [] then [] else takeWhile (\<lambda>c. c \<noteq> SLASH) q # components (dropWhile (\<lambda>c. c \<noteq> SLASH) q))"
  by pat_completeness auto
termination
proof (relation "measure length", goal_cases)
  case (2 p q)
  then have "hd q \<noteq> SLASH" using hd_dropWhile [of "\<lambda>c. c = SLASH" p] by auto
  then have "length (dropWhile (\<lambda>c. c \<noteq> SLASH) q) < length q" using 2(2) length_dropWhile_le [of _ "tl q"]
    by (cases q) (auto simp: le_imp_less_Suc)
  also have "length q \<le> length p" using 2(1) length_dropWhile_le by auto
  finally show ?case by simp
qed simp

declare components.simps [simp del]

fun walk ::
  "(nat \<Rightarrow> 's \<Rightarrow> (nat list \<times> 's) option) \<Rightarrow> ('s \<Rightarrow> nat \<Rightarrow> u8 list option) \<Rightarrow> ('s \<Rightarrow> nat \<Rightarrow> nat option) \<Rightarrow>
   u8 list list \<Rightarrow> nat \<Rightarrow> 's \<Rightarrow> (nat option \<times> 's) option" where
  "walk lookup name_of parent_of [] current s = Some (Some current, s)"
| "walk lookup name_of parent_of (nm # nms) current s = do {
     (r, s) \<leftarrow> resolve_step lookup name_of parent_of nm current s;
     case r of None \<Rightarrow> Some (None, s) | Some n \<Rightarrow> walk lookup name_of parent_of nms n s }"

lemma skip_slashes_len: "0 \<notin> set p \<Longrightarrow> skip_slashes p i = i + length (takeWhile (\<lambda>c. c = SLASH) (drop i p))"
proof (induction p i rule: skip_slashes.induct)
  case (1 p i)
  show ?case
  proof (cases "i < length p \<and> p ! i = SLASH")
    case True
    then have "drop i p = SLASH # drop (Suc i) p" using Cons_nth_drop_Suc [of i p] by simp
    then show ?thesis using 1 True by (subst skip_slashes.simps) (simp add: char_at_def)
  next
    case False
    have "takeWhile (\<lambda>c. c = SLASH) (drop i p) = []"
      using False by (cases "i < length p") (auto simp: Cons_nth_drop_Suc [symmetric])
    moreover have "char_at p i \<noteq> SLASH" using False by (auto simp: char_at_def SLASH_def)
    ultimately show ?thesis by (subst skip_slashes.simps) simp
  qed
qed

lemma name_end_len: "0 \<notin> set p \<Longrightarrow> name_end p i = i + length (takeWhile (\<lambda>c. c \<noteq> SLASH) (drop i p))"
proof (induction p i rule: name_end.induct)
  case (1 p i)
  show ?case
  proof (cases "i < length p \<and> p ! i \<noteq> SLASH")
    case True
    then have d: "drop i p = p ! i # drop (Suc i) p" by (simp add: Cons_nth_drop_Suc)
    have "p ! i \<noteq> 0" using True 1(2) nth_mem by metis
    then show ?thesis using 1 True d by (subst name_end.simps) (simp add: char_at_def)
  next
    case False
    then have "takeWhile (\<lambda>c. c \<noteq> SLASH) (drop i p) = []"
      by (cases "i < length p") (auto simp: Cons_nth_drop_Suc [symmetric])
    moreover have "\<not> (char_at p i \<noteq> 0 \<and> char_at p i \<noteq> SLASH)" using False by (auto simp: char_at_def)
    ultimately show ?thesis by (subst name_end.simps) (simp del: de_Morgan_conj)
  qed
qed

lemma drop_len_takeWhile: "drop (length (takeWhile P xs)) xs = dropWhile P xs"
  by (simp add: dropWhile_eq_drop)

lemma components_skip: "components (dropWhile (\<lambda>c. c = SLASH) p) = components p"
  by (subst (1 2) components.simps) (simp add: dropWhile_idem)

lemma components_Cons: "c \<noteq> SLASH \<Longrightarrow>
    components (c # r) = takeWhile (\<lambda>c. c \<noteq> SLASH) (c # r) # components (dropWhile (\<lambda>c. c \<noteq> SLASH) (c # r))"
  by (subst components.simps) simp

lemma char_at_nonzero: "0 \<notin> set p \<Longrightarrow> char_at p i \<noteq> 0 \<longleftrightarrow> i < length p"
  by (metis char_at_def nth_mem)

lemma resolve_loop_walk:
  "0 \<notin> set p \<Longrightarrow> beg < length p \<longrightarrow> p ! beg \<noteq> SLASH \<Longrightarrow>
   resolve_loop lookup name_of parent_of p beg current s = walk lookup name_of parent_of (components (drop beg p)) current s"
proof (induction lookup name_of parent_of p beg current s rule: resolve_loop.induct)
  case (1 lookup name_of parent_of p beg current s)
  show ?case
  proof (cases "beg < length p")
    case False
    then show ?thesis by (subst resolve_loop.simps) (simp add: char_at_def components.simps)
  next
    case True
    then have nz: "char_at p beg \<noteq> 0" and ns: "p ! beg \<noteq> SLASH" using 1(3) char_at_nonzero [OF 1(2)] by simp_all
    let ?q = "drop beg p" and ?e = "name_end p (Suc beg)"
    obtain c r where d: "?q = c # r" "drop (Suc beg) p = r" "c \<noteq> SLASH"
      using True ns Cons_nth_drop_Suc [of beg p] by metis
    have e: "?e = beg + length (takeWhile (\<lambda>c. c \<noteq> SLASH) ?q)" using name_end_len [OF 1(2), of "Suc beg"] d by simp
    have nm: "take (?e - beg) ?q = takeWhile (\<lambda>c. c \<noteq> SLASH) ?q"
    proof -
      have "?e - beg = length (takeWhile (\<lambda>c. c \<noteq> SLASH) ?q)" using e by simp
      then show ?thesis unfolding takeWhile_eq_take [of _ ?q, symmetric] by (simp only: takeWhile_eq_take [symmetric])
    qed
    have "drop ?e p = drop (length (takeWhile (\<lambda>c. c \<noteq> SLASH) ?q)) ?q" unfolding e by (simp add: add.commute)
    then have rest: "drop ?e p = dropWhile (\<lambda>c. c \<noteq> SLASH) ?q" unfolding drop_len_takeWhile .
    have sk: "drop (skip_slashes p ?e) p = dropWhile (\<lambda>c. c = SLASH) (drop ?e p)"
      using skip_slashes_len [OF 1(2), of ?e] drop_len_takeWhile [of "\<lambda>c. c = SLASH" "drop ?e p"] by (simp add: add.commute)
    have comps: "components ?q = takeWhile (\<lambda>c. c \<noteq> SLASH) ?q # components (drop (skip_slashes p ?e) p)"
      unfolding sk components_skip rest d(1) using d(3) by (rule components_Cons)
    have nxt: "skip_slashes p ?e < length p \<longrightarrow> p ! skip_slashes p ?e \<noteq> SLASH"
    proof
      assume "skip_slashes p ?e < length p"
      then have "drop (skip_slashes p ?e) p \<noteq> []" "hd (drop (skip_slashes p ?e) p) = p ! skip_slashes p ?e" by (simp_all add: hd_drop_conv_nth)
      then show "p ! skip_slashes p ?e \<noteq> SLASH" using hd_dropWhile [of "\<lambda>c. c = SLASH" "drop ?e p"] unfolding sk by auto
    qed
    show ?thesis
      unfolding comps using nz nm 1(1) [OF nz refl refl] 1(2) nxt
      by (subst resolve_loop.simps) (auto simp: Let_def split: option.splits prod.splits)
  qed
qed

lemma resolvePath_walk:
  assumes "0 \<notin> set p"
  shows "resolvePath lookup name_of parent_of p s =
    (if p = [] then Some (None, s) else walk lookup name_of parent_of (components p) root s)"
proof (cases "p = []")
  case True
  then show ?thesis by (simp add: resolvePath_def char_at_def)
next
  case False
  have sk: "drop (skip_slashes p 0) p = dropWhile (\<lambda>c. c = SLASH) p"
    using skip_slashes_len [OF assms, of 0] drop_len_takeWhile [of "\<lambda>c. c = SLASH" p] by simp
  have "skip_slashes p 0 < length p \<longrightarrow> p ! skip_slashes p 0 \<noteq> SLASH"
  proof
    assume "skip_slashes p 0 < length p"
    then have "drop (skip_slashes p 0) p \<noteq> []" "hd (drop (skip_slashes p 0) p) = p ! skip_slashes p 0" by (simp_all add: hd_drop_conv_nth)
    then show "p ! skip_slashes p 0 \<noteq> SLASH" using hd_dropWhile [of "\<lambda>c. c = SLASH" p] unfolding sk by auto
  qed
  from resolve_loop_walk [OF assms this] have "resolve_loop lookup name_of parent_of p (skip_slashes p 0) root s =
      walk lookup name_of parent_of (components p) root s" unfolding sk components_skip .
  moreover have "char_at p 0 \<noteq> 0" using False char_at_nonzero [OF assms] by simp
  ultimately show ?thesis using False by (simp add: resolvePath_def)
qed

text \<open>
  C25: \<open>resolvePath\<close>, which scans the string with two pointers, is the walk over the names between
  slashes from the root: repeated, leading and trailing slashes do not matter, and the empty path
  resolves to nothing.
\<close>

theorem resolvePath_walks:
  assumes "0 \<notin> set p"
  shows "resolvePath lookup name_of parent_of p s =
    (if p = [] then Some (None, s) else walk lookup name_of parent_of (components p) root s)"
  using assms by (rule resolvePath_walk)

text \<open>\<open>/.//a\<close> in a file system whose root has one child called \<open>a\<close>.\<close>

theorem resolvePath_walks_witness:
  "resolvePath (\<lambda>n s. Some (if n = root then [1] else [], s)) (\<lambda>s n. if n = 1 then Some [0x61] else Some []) (\<lambda>s n. Some root)
     [SLASH, DOT, SLASH, SLASH, 0x61] () = Some (Some 1, ())"
proof -
  have c: "components [SLASH, DOT, SLASH, SLASH, 0x61] = [[DOT], [0x61]]"
    by (simp add: components.simps SLASH_def DOT_def Let_def)
  show ?thesis
    using resolvePath_walks [of "[SLASH, DOT, SLASH, SLASH, 0x61]" "\<lambda>n s. Some (if n = root then [1] else [], s)"
      "\<lambda>s n. if n = 1 then Some [0x61] else Some []" "\<lambda>s n. Some root" "()"]
    unfolding c by (simp add: resolve_step_def SLASH_def DOT_def root_def)
qed

end
