(* ===== verification/Ext2.thy ===== *)
theory Ext2
  imports Vfs
begin

section \<open>The ext2 file system: \<open>src/kernel/disk/ext2.cpp\<close>\<close>

text \<open>
  On-disk structures are decoded from the bytes \<open>diskRead\<close> delivers; the disk comes as a
  function, \<open>diskRead D\<close> for the kernel's driver.  Every caller ignores whether a read failed:
  the buffer then keeps its old contents, and a fresh buffer holds \<open>junk\<close>.  Block numbers
  and sizes are 32-bit words and their products wrap as in the source.
\<close>

type_synonym 'd disk_reader = "int \<Rightarrow> u64 \<Rightarrow> u64 \<Rightarrow> u8 list \<Rightarrow> 'd \<Rightarrow> (int \<times> u8 list \<times> 'd) option"

subsection \<open>On-disk structures\<close>

record ext2SuperBlock =
  sInodesCount :: u32
  sBlocksCount :: u32
  sRBlocksCount :: u32
  sFreeBlocksCount :: u32
  sFreeInodesCount :: u32
  sFirstDataBlock :: u32
  sLogBlockSize :: u32
  sLogFragSize :: u32
  sBlocksPerGroup :: u32
  sFragsPerGroup :: u32
  sInodesPerGroup :: u32
  sMtime :: u32
  sWtime :: u32
  sMntCount :: u16
  sMaxMntCount :: u16
  sMagic :: u16
  sState :: u16
  sErrors :: u16
  sMinorRevLevel :: u16
  sLastcheck :: u32
  sCheckinterval :: u32
  sCreatorOs :: u32
  sRevLevel :: u32
  sDefResuid :: u16
  sDefResgid :: u16
  sFirstIno :: u32
  sInodeSize :: u16
  sBlockGroupNr :: u16
  sFeatureCompat :: u32
  sFeatureIncompat :: u32
  sFeatureRoCompat :: u32

definition superblock_of :: "u8 list \<Rightarrow> ext2SuperBlock" where
  "superblock_of b =
     \<lparr>sInodesCount = u32_at b 0, sBlocksCount = u32_at b 4, sRBlocksCount = u32_at b 8,
      sFreeBlocksCount = u32_at b 12, sFreeInodesCount = u32_at b 16, sFirstDataBlock = u32_at b 20,
      sLogBlockSize = u32_at b 24, sLogFragSize = u32_at b 28, sBlocksPerGroup = u32_at b 32,
      sFragsPerGroup = u32_at b 36, sInodesPerGroup = u32_at b 40, sMtime = u32_at b 44,
      sWtime = u32_at b 48, sMntCount = u16_at b 52, sMaxMntCount = u16_at b 54, sMagic = u16_at b 56,
      sState = u16_at b 58, sErrors = u16_at b 60, sMinorRevLevel = u16_at b 62, sLastcheck = u32_at b 64,
      sCheckinterval = u32_at b 68, sCreatorOs = u32_at b 72, sRevLevel = u32_at b 76,
      sDefResuid = u16_at b 80, sDefResgid = u16_at b 82, sFirstIno = u32_at b 84, sInodeSize = u16_at b 88,
      sBlockGroupNr = u16_at b 90, sFeatureCompat = u32_at b 92, sFeatureIncompat = u32_at b 96,
      sFeatureRoCompat = u32_at b 100\<rparr>"

record ext2GroupDesc =
  bgBlockBitmap :: u32
  bgInodeBitmap :: u32
  bgInodeTable :: u32
  bgFreeBlocksCount :: u16
  bgFreeInodesCount :: u16
  bgUsedDirsCount :: u16

definition group_desc_of :: "u8 list \<Rightarrow> ext2GroupDesc" where
  "group_desc_of b =
     \<lparr>bgBlockBitmap = u32_at b 0, bgInodeBitmap = u32_at b 4, bgInodeTable = u32_at b 8,
      bgFreeBlocksCount = u16_at b 12, bgFreeInodesCount = u16_at b 14, bgUsedDirsCount = u16_at b 16\<rparr>"

record ext2Inode =
  iMode :: u16
  iUid :: u16
  iSize :: u32
  iAtime :: u32
  iCtime :: u32
  iMtime :: u32
  iDtime :: u32
  iGid :: u16
  iLinksCount :: u16
  iBlocks :: u32
  iFlags :: u32
  iOsd1 :: u32
  iBlock :: "u32 list"
  iGeneration :: u32
  iFileAcl :: u32
  iDirAcl :: u32
  iFAddr :: u32

definition inode_of :: "u8 list \<Rightarrow> ext2Inode" where
  "inode_of b =
     \<lparr>iMode = u16_at b 0, iUid = u16_at b 2, iSize = u32_at b 4, iAtime = u32_at b 8, iCtime = u32_at b 12,
      iMtime = u32_at b 16, iDtime = u32_at b 20, iGid = u16_at b 24, iLinksCount = u16_at b 26,
      iBlocks = u32_at b 28, iFlags = u32_at b 32, iOsd1 = u32_at b 36,
      iBlock = map (\<lambda>i. u32_at b (40 + 4 * i)) [0..<15],
      iGeneration = u32_at b 100, iFileAcl = u32_at b 104, iDirAcl = u32_at b 108, iFAddr = u32_at b 112\<rparr>"

record Ext2Disk =
  device :: int
  part :: partition
  sb :: ext2SuperBlock
  blocksize :: u32
  groups :: u16
  gd :: "ext2GroupDesc list"

subsection \<open>Opening a partition\<close>

definition part_base :: "partition \<Rightarrow> u64" where
  "part_base p = startLba p * 512"

definition ext2ReadSb :: "'d disk_reader \<Rightarrow> (nat \<Rightarrow> u8 list) \<Rightarrow> int \<Rightarrow> u64 \<Rightarrow> 'd \<Rightarrow> (ext2SuperBlock \<times> 'd) option" where
  "ext2ReadSb R junk dvc sPart d = do {
     (_, b, d) \<leftarrow> R dvc (sPart + 1024) 1024 (junk 1024) d;
     Some (superblock_of b, d) }"

definition ext2ReadGd ::
  "'d disk_reader \<Rightarrow> (nat \<Rightarrow> u8 list) \<Rightarrow> int \<Rightarrow> u32 \<Rightarrow> u16 \<Rightarrow> u64 \<Rightarrow> 'd \<Rightarrow> (ext2GroupDesc list \<times> 'd) option" where
  "ext2ReadGd R junk dvc bsize grps sPart d =
     (let offset = (if bsize = 1024 then 2048 else ucast bsize) in do {
        (_, b, d) \<leftarrow> R dvc (sPart + offset) (ucast grps * 32) (junk (unat grps * 32)) d;
        Some (map (\<lambda>i. group_desc_of (take 32 (drop (32 * i) b))) [0..<unat grps], d) })"

text \<open>The incompatible features the driver refuses, in the order it tests them.\<close>

definition refused_features :: "u32 list" where
  "refused_features = [0x1, 0x4, 0x8, 0x10, 0x40, 0x80, 0x100, 0x200, 0x400, 0x1000, 0x2000, 0x4000, 0x8000]"

definition ceil_div :: "u32 \<Rightarrow> u32 \<Rightarrow> u32" where
  "ceil_div a b = a div b + (if a mod b \<noteq> 0 then 1 else 0)"

definition ext2GetDiskInfo ::
  "'d disk_reader \<Rightarrow> (nat \<Rightarrow> u8 list) \<Rightarrow> int \<Rightarrow> partition \<Rightarrow> 'd \<Rightarrow> (Ext2Disk option \<times> 'd) option" where
  "ext2GetDiskInfo R junk dvc prt d = do {
     (s, d) \<leftarrow> ext2ReadSb R junk dvc (part_base prt) d;
     if unat (sLogBlockSize s) \<ge> 32 then None else
     let bsize = push_bit (unat (sLogBlockSize s)) 1024 in
     if sMagic s \<noteq> 0xef53 then Some (None, d)
     else if sBlocksPerGroup s = 0 \<or> sInodesPerGroup s = 0 then Some (None, d)
     else
       let i = ceil_div (sBlocksCount s) (sBlocksPerGroup s);
           j = ceil_div (sInodesCount s) (sInodesPerGroup s);
           grps = (if j <s i then ucast i else ucast j) in do {
         (g, d) \<leftarrow> ext2ReadGd R junk dvc bsize grps (part_base prt) d;
         if \<exists>m \<in> set refused_features. sFeatureIncompat s AND m \<noteq> 0 then Some (None, d)
         else Some (Some \<lparr>device = dvc, part = prt, sb = s, blocksize = bsize, groups = grps, gd = g\<rparr>, d) } }"

text \<open>\<open>None\<close> inside is the null pointer; the group table is indexed without a bounds check.\<close>

definition ext2ReadInode ::
  "'d disk_reader \<Rightarrow> (nat \<Rightarrow> u8 list) \<Rightarrow> Ext2Disk \<Rightarrow> u32 \<Rightarrow> 'd \<Rightarrow> (ext2Inode option \<times> 'd) option" where
  "ext2ReadInode R junk dk iNum d =
     (if sInodesPerGroup (sb dk) = 0 then Some (None, d)
      else
        let grNum = unat ((iNum - 1) div sInodesPerGroup (sb dk));
            index = (iNum - 1) mod sInodesPerGroup (sb dk)
        in if grNum \<ge> length (gd dk) then None
           else
             let offset = ucast (bgInodeTable (gd dk ! grNum) * blocksize dk) + ucast index * ucast (sInodeSize (sb dk)) in do {
               (_, b, d) \<leftarrow> R (device dk) (part_base (part dk) + offset) 128 (junk 128) d;
               Some (Some (inode_of b), d) })"

subsection \<open>Reading a file\<close>

text \<open>
  The locals of \<open>ext2ReadFile\<close>: the four block buffers, the file's buffer \<open>mmap\<close>, the
  position in it and the bytes still to come.
\<close>

record 'd rf =
  rf_buf :: "u8 list"
  rf_p :: "u8 list"
  rf_pp :: "u8 list"
  rf_ppp :: "u8 list"
  rf_mmap :: "u8 list"
  rf_head :: nat
  rf_left :: u64
  rf_dev :: 'd

text \<open>\<open>for (i = 0; i < n && p[i]; i++) body\<close>: the loop stops at the first zero entry.\<close>

fun while_nonzero :: "(u32 \<Rightarrow> 's \<Rightarrow> 's option) \<Rightarrow> u32 list \<Rightarrow> 's \<Rightarrow> 's option" where
  "while_nonzero body [] s = Some s"
| "while_nonzero body (b # bs) s =
     (if b = 0 then Some s else do { s \<leftarrow> body b s; while_nonzero body bs s })"

definition block_offset :: "Ext2Disk \<Rightarrow> u32 \<Rightarrow> u64" where
  "block_offset dk b = part_base (part dk) + ucast (b * blocksize dk)"

definition entries :: "Ext2Disk \<Rightarrow> u8 list \<Rightarrow> u32 list" where
  "entries dk bs = map (\<lambda>i. u32_at bs (4 * i)) [0..<unat (blocksize dk) div 4]"

definition read_data_block :: "'d disk_reader \<Rightarrow> Ext2Disk \<Rightarrow> u32 \<Rightarrow> 'd rf \<Rightarrow> 'd rf option" where
  "read_data_block R dk b s = do {
     (_, buf, d) \<leftarrow> R (device dk) (block_offset dk b) (ucast (blocksize dk)) (rf_buf s) (rf_dev s);
     let n = (if rf_left s > ucast (blocksize dk) then ucast (blocksize dk) else rf_left s);
     Some (s\<lparr>rf_buf := buf, rf_dev := d,
             rf_mmap := take (rf_head s) (rf_mmap s) @ take (unat n) buf @ drop (rf_head s + unat n) (rf_mmap s),
             rf_head := rf_head s + unat n, rf_left := rf_left s - n\<rparr>) }"

definition read_p :: "'d disk_reader \<Rightarrow> Ext2Disk \<Rightarrow> u64 \<Rightarrow> 'd rf \<Rightarrow> 'd rf option" where
  "read_p R dk off s = do {
     (_, b, d) \<leftarrow> R (device dk) off (ucast (blocksize dk)) (rf_p s) (rf_dev s);
     Some (s\<lparr>rf_p := b, rf_dev := d\<rparr>) }"

definition read_pp :: "'d disk_reader \<Rightarrow> Ext2Disk \<Rightarrow> u32 \<Rightarrow> 'd rf \<Rightarrow> 'd rf option" where
  "read_pp R dk b s = do {
     (_, bs, d) \<leftarrow> R (device dk) (block_offset dk b) (ucast (blocksize dk)) (rf_pp s) (rf_dev s);
     Some (s\<lparr>rf_pp := bs, rf_dev := d\<rparr>) }"

definition read_ppp :: "'d disk_reader \<Rightarrow> Ext2Disk \<Rightarrow> u32 \<Rightarrow> 'd rf \<Rightarrow> 'd rf option" where
  "read_ppp R dk b s = do {
     (_, bs, d) \<leftarrow> R (device dk) (block_offset dk b) (ucast (blocksize dk)) (rf_ppp s) (rf_dev s);
     Some (s\<lparr>rf_ppp := bs, rf_dev := d\<rparr>) }"

definition read_direct :: "'d disk_reader \<Rightarrow> Ext2Disk \<Rightarrow> ext2Inode \<Rightarrow> 'd rf \<Rightarrow> 'd rf option" where
  "read_direct R dk ino s = while_nonzero (read_data_block R dk) (take 12 (iBlock ino)) s"

definition read_indirect :: "'d disk_reader \<Rightarrow> Ext2Disk \<Rightarrow> ext2Inode \<Rightarrow> 'd rf \<Rightarrow> 'd rf option" where
  "read_indirect R dk ino s =
     (if iBlock ino ! 12 = 0 then Some s else do {
        s \<leftarrow> read_p R dk (part_base (part dk) + ucast (iBlock ino ! 12) * ucast (blocksize dk)) s;
        while_nonzero (read_data_block R dk) (entries dk (rf_p s)) s })"

definition read_double :: "'d disk_reader \<Rightarrow> Ext2Disk \<Rightarrow> ext2Inode \<Rightarrow> 'd rf \<Rightarrow> 'd rf option" where
  "read_double R dk ino s =
     (if iBlock ino ! 13 = 0 then Some s else do {
        s \<leftarrow> read_p R dk (block_offset dk (iBlock ino ! 13)) s;
        while_nonzero (\<lambda>b s. do {
            s \<leftarrow> read_pp R dk b s;
            while_nonzero (read_data_block R dk) (entries dk (rf_pp s)) s }) (entries dk (rf_p s)) s })"

definition read_triple :: "'d disk_reader \<Rightarrow> Ext2Disk \<Rightarrow> ext2Inode \<Rightarrow> 'd rf \<Rightarrow> 'd rf option" where
  "read_triple R dk ino s =
     (if iBlock ino ! 14 = 0 then Some s else do {
        s \<leftarrow> read_p R dk (block_offset dk (iBlock ino ! 14)) s;
        while_nonzero (\<lambda>b s. do {
            s \<leftarrow> read_pp R dk b s;
            while_nonzero (\<lambda>b s. do {
                s \<leftarrow> read_ppp R dk b s;
                while_nonzero (read_data_block R dk) (entries dk (rf_ppp s)) s }) (entries dk (rf_pp s)) s })
          (entries dk (rf_p s)) s })"

definition ext2ReadFile ::
  "'d disk_reader \<Rightarrow> (nat \<Rightarrow> u8 list) \<Rightarrow> Ext2Disk \<Rightarrow> ext2Inode \<Rightarrow> 'd \<Rightarrow> (u8 list \<times> 'd) option" where
  "ext2ReadFile R junk dk ino d = do {
     let bj = junk (unat (blocksize dk));
     let s = \<lparr>rf_buf = bj, rf_p = bj, rf_pp = bj, rf_ppp = bj, rf_mmap = junk (unat (iSize ino)),
              rf_head = 0, rf_left = ucast (iSize ino), rf_dev = d\<rparr>;
     s \<leftarrow> read_direct R dk ino s;
     s \<leftarrow> read_indirect R dk ino s;
     s \<leftarrow> read_double R dk ino s;
     s \<leftarrow> read_triple R dk ino s;
     Some (rf_mmap s, rf_dev s) }"

definition isDirectory :: "ext2Inode \<Rightarrow> bool" where
  "isDirectory ino \<longleftrightarrow> iMode ino AND 0x4000 \<noteq> 0"

subsection \<open>Nodes\<close>

definition NODE_DIRECTORY :: u8 where "NODE_DIRECTORY = 1"
definition NODE_FILE :: u8 where "NODE_FILE = 2"
definition NODE_ROOT :: u8 where "NODE_ROOT = 3"
definition EXT2_ROOT_INUM :: u32 where "EXT2_ROOT_INUM = 2"

text \<open>The two classes of nodes; a \<open>NodeEXT2\<close> owns copies of its disk and inode.\<close>

datatype node_class = Base | NodeEXT2 Ext2Disk u32 ext2Inode

record 'd fs =
  vfs :: "node_class vfs"
  fsdev :: 'd

definition ext2_new_node ::
  "u8 list \<Rightarrow> nat \<Rightarrow> Ext2Disk \<Rightarrow> u32 \<Rightarrow> ext2Inode \<Rightarrow> u8 \<Rightarrow> node_class vfs \<Rightarrow> nat \<times> node_class vfs" where
  "ext2_new_node nm par dk inum ino ty v = new_node nm par ty (NodeEXT2 dk inum ino) v"

definition ext2_createChild ::
  "nat \<Rightarrow> u8 list \<Rightarrow> nat \<Rightarrow> Ext2Disk \<Rightarrow> u32 \<Rightarrow> ext2Inode \<Rightarrow> u8 \<Rightarrow> node_class vfs \<Rightarrow> nat \<times> node_class vfs" where
  "ext2_createChild this nm par dk inum ino ty v =
     (let (child, v) = ext2_new_node nm par dk inum ino ty v
      in (child, upd_node this (\<lambda>nd. nd\<lparr>nchilds := nchilds nd @ [child]\<rparr>) v))"

text \<open>
  One directory entry at byte \<open>off\<close> of the directory's contents: inode number, record length
  and name, cut at its first zero byte as the string functions see it.
\<close>

definition dentry_inode :: "u8 list \<Rightarrow> nat \<Rightarrow> u32" where "dentry_inode m off = u32_at m off"
definition dentry_recLen :: "u8 list \<Rightarrow> nat \<Rightarrow> u16" where "dentry_recLen m off = u16_at m (off + 4)"
definition dentry_name :: "u8 list \<Rightarrow> nat \<Rightarrow> u8 list" where
  "dentry_name m off = takeWhile (\<lambda>c. c \<noteq> 0) (take (unat (m ! (off + 6))) (drop (off + 8) m))"

text \<open>
  The loop over the entries.  At the end of the directory the source reads the next inode number
  from behind the buffer before it finds that no bytes are left; the value does not matter, and
  the model tests the bytes left first.  An entry that reaches past the buffer is \<open>None\<close>.
\<close>

partial_function (option) lookup_entries ::
  "'d disk_reader \<Rightarrow> (nat \<Rightarrow> u8 list) \<Rightarrow> Ext2Disk \<Rightarrow> nat \<Rightarrow> u8 list \<Rightarrow> nat \<Rightarrow> u32 \<Rightarrow> 'd fs \<Rightarrow> 'd fs option" where
  "lookup_entries R junk dk this m off dsize s =
     (if dsize = 0 then Some s
      else if off + 8 > length m then None
      else if dentry_inode m off = 0 then Some s
      else if off + 8 + unat (m ! (off + 6)) > length m then None
      else do {
        s \<leftarrow> (if dentry_name m off = [DOT] \<or> dentry_name m off = [DOT, DOT] then Some s else do {
               (ino, d) \<leftarrow> ext2ReadInode R junk dk (dentry_inode m off) (fsdev s);
               case ino of None \<Rightarrow> None
               | Some ino \<Rightarrow>
                   let (_, v) = ext2_createChild this (dentry_name m off) this dk (dentry_inode m off) ino
                          (if isDirectory ino then NODE_DIRECTORY else NODE_FILE) (vfs s)
                   in Some (s\<lparr>vfs := v, fsdev := d\<rparr>) });
        lookup_entries R junk dk this m (off + unat (dentry_recLen m off))
          (dsize - ucast (dentry_recLen m off)) s })"

text \<open>
  The buffer of a directory of size 0 is the null pointer, as \<open>new u8[0]\<close> gives it: the kernel
  halts.
\<close>

definition ext2_lookup ::
  "'d disk_reader \<Rightarrow> (nat \<Rightarrow> u8 list) \<Rightarrow> nat \<Rightarrow> node_class node \<Rightarrow> Ext2Disk \<Rightarrow> ext2Inode \<Rightarrow> 'd fs \<Rightarrow> (nat list \<times> 'd fs) option" where
  "ext2_lookup R junk this nd dk ino s = do {
     v \<leftarrow> delete_nodes (nchilds nd) (vfs s);
     let s = s\<lparr>vfs := upd_node this (\<lambda>nd. nd\<lparr>nchilds := []\<rparr>) v\<rparr>;
     if \<not> isDirectory ino then Some ([], s) else do {
       (m, d) \<leftarrow> ext2ReadFile R junk dk ino (fsdev s);
       if iSize ino = 0 then None else do {
         s \<leftarrow> lookup_entries R junk dk this m 0 (iSize ino) (s\<lparr>fsdev := d\<rparr>);
         case nodes (vfs s) this of None \<Rightarrow> None | Some nd \<Rightarrow> Some (nchilds nd, s) } } }"

text \<open>The virtual calls \<open>lookup\<close>, \<open>getSize\<close> and \<open>read\<close>.\<close>

definition lookup :: "'d disk_reader \<Rightarrow> (nat \<Rightarrow> u8 list) \<Rightarrow> nat \<Rightarrow> 'd fs \<Rightarrow> (nat list \<times> 'd fs) option" where
  "lookup R junk n s =
     (case nodes (vfs s) n of None \<Rightarrow> None
      | Some nd \<Rightarrow> (case nclass nd of Base \<Rightarrow> Some (nchilds nd, s)
                   | NodeEXT2 dk inum ino \<Rightarrow> ext2_lookup R junk n nd dk ino s))"

definition ext2_getSize :: "u8 \<Rightarrow> ext2Inode \<Rightarrow> u64" where
  "ext2_getSize ty ino = (if ty = NODE_FILE then ucast (iSize ino) else 0)"

definition getSize :: "nat \<Rightarrow> 'd fs \<Rightarrow> u64 option" where
  "getSize n s =
     map_option (\<lambda>nd. case nclass nd of Base \<Rightarrow> node_getSize
                      | NodeEXT2 dk inum ino \<Rightarrow> ext2_getSize (ntype nd) ino) (nodes (vfs s) n)"

definition ext2_read ::
  "'d disk_reader \<Rightarrow> (nat \<Rightarrow> u8 list) \<Rightarrow> u8 \<Rightarrow> Ext2Disk \<Rightarrow> ext2Inode \<Rightarrow> u64 \<Rightarrow> u8 list \<Rightarrow> 'd fs \<Rightarrow> (u64 \<times> u8 list \<times> 'd fs) option" where
  "ext2_read R junk ty dk ino len buf s =
     (if ty \<noteq> NODE_FILE then Some (0, buf, s) else do {
        (data, d) \<leftarrow> ext2ReadFile R junk dk ino (fsdev s);
        let s = s\<lparr>fsdev := d\<rparr>;
        let offset = 0;
        let dataSize = ucast (iSize ino);
        Some (if offset > dataSize then (0, buf, s)
              else if len + offset > dataSize then
                (let n = unat (dataSize - offset); buf = take n (drop (unat offset) data) @ drop n buf;
                     offset = dataSize
                 in (dataSize - offset, buf, s))
              else (len, take (unat len) (drop (unat offset) data) @ drop (unat len) buf, s)) })"

definition read_node :: "'d disk_reader \<Rightarrow> (nat \<Rightarrow> u8 list) \<Rightarrow> nat \<Rightarrow> u64 \<Rightarrow> u8 list \<Rightarrow> 'd fs \<Rightarrow> (u64 \<times> u8 list \<times> 'd fs) option" where
  "read_node R junk n len buf s =
     (case nodes (vfs s) n of None \<Rightarrow> None
      | Some nd \<Rightarrow> (case nclass nd of Base \<Rightarrow> Some (node_read, buf, s)
                   | NodeEXT2 dk inum ino \<Rightarrow> ext2_read R junk (ntype nd) dk ino len buf s))"

text \<open>\<open>NodeEXT2::addChild\<close> refuses; \<open>FilesystemEXT2::mount\<close> creates the root node.\<close>

definition ext2_addChild :: bool where "ext2_addChild = False"

definition ext2_mount :: "'d disk_reader \<Rightarrow> (nat \<Rightarrow> u8 list) \<Rightarrow> 'd fs mount_fun" where
  "ext2_mount R junk prt par nm s = do {
     (dk, d) \<leftarrow> ext2GetDiskInfo R junk (uint (diskId prt)) prt (fsdev s);
     case dk of None \<Rightarrow> Some (None, s\<lparr>fsdev := d\<rparr>)
     | Some dk \<Rightarrow> do {
         (ino, d) \<leftarrow> ext2ReadInode R junk dk EXT2_ROOT_INUM d;
         case ino of None \<Rightarrow> None
         | Some ino \<Rightarrow>
             let (n, v) = ext2_new_node nm par dk EXT2_ROOT_INUM ino NODE_ROOT (vfs s)
             in Some (Some n, s\<lparr>vfs := v, fsdev := d\<rparr>) } }"

definition initfs :: "'d disk_reader \<Rightarrow> (nat \<Rightarrow> u8 list) \<Rightarrow> 'd fs mount_fun list \<Rightarrow> 'd fs mount_fun list" where
  "initfs R junk fss = registerFilesystem (ext2_mount R junk) fss"

definition add_root :: "nat \<Rightarrow> 'd fs \<Rightarrow> 'd fs" where
  "add_root n s = s\<lparr>vfs := snd (addChild root n (vfs s))\<rparr>"

definition mount :: "'d disk_reader \<Rightarrow> (nat \<Rightarrow> u8 list) \<Rightarrow> 'd fs mount_fun list \<Rightarrow> partition \<Rightarrow> nat \<Rightarrow> u8 list option \<Rightarrow> 'd fs \<Rightarrow> (nat option \<times> 'd fs) option" where
  "mount R junk fss prt par nm s = vfs_mount fss (lookup R junk) add_root prt par nm s"

definition resolve :: "'d disk_reader \<Rightarrow> (nat \<Rightarrow> u8 list) \<Rightarrow> u8 list \<Rightarrow> 'd fs \<Rightarrow> (nat option \<times> 'd fs) option" where
  "resolve R junk p s =
     resolvePath (lookup R junk) (\<lambda>s. getName (vfs s)) (\<lambda>s. getParent (vfs s)) p s"


subsection \<open>The contents of a file\<close>

text \<open>
  The specification, over the image of the disk: the block lists an inode leads to, each cut at its
  first zero entry as the loops do, and the blocks of a file in order.  \<open>file_reads\<close> are the
  positions of all blocks read for it, pointer blocks included.
\<close>

definition block_bytes :: "(nat \<Rightarrow> u8) \<Rightarrow> Ext2Disk \<Rightarrow> u64 \<Rightarrow> u8 list" where
  "block_bytes img dk off = slice img (unat off) (unat (blocksize dk))"

definition nonzero :: "u32 list \<Rightarrow> u32 list" where "nonzero = takeWhile (\<lambda>b. b \<noteq> 0)"

definition pointers :: "(nat \<Rightarrow> u8) \<Rightarrow> Ext2Disk \<Rightarrow> u64 \<Rightarrow> u32 list" where
  "pointers img dk off = nonzero (entries dk (block_bytes img dk off))"

definition pointers_of :: "(nat \<Rightarrow> u8) \<Rightarrow> Ext2Disk \<Rightarrow> u32 \<Rightarrow> u32 list" where
  "pointers_of img dk b = pointers img dk (block_offset dk b)"

definition indirect_offset :: "Ext2Disk \<Rightarrow> ext2Inode \<Rightarrow> u64" where
  "indirect_offset dk ino = part_base (part dk) + ucast (iBlock ino ! 12) * ucast (blocksize dk)"

definition indirect_blocks :: "(nat \<Rightarrow> u8) \<Rightarrow> Ext2Disk \<Rightarrow> ext2Inode \<Rightarrow> u32 list" where
  "indirect_blocks img dk ino = (if iBlock ino ! 12 = 0 then [] else pointers img dk (indirect_offset dk ino))"

definition double_tables :: "(nat \<Rightarrow> u8) \<Rightarrow> Ext2Disk \<Rightarrow> ext2Inode \<Rightarrow> u32 list" where
  "double_tables img dk ino = (if iBlock ino ! 13 = 0 then [] else pointers_of img dk (iBlock ino ! 13))"

definition triple_tables :: "(nat \<Rightarrow> u8) \<Rightarrow> Ext2Disk \<Rightarrow> ext2Inode \<Rightarrow> u32 list" where
  "triple_tables img dk ino = (if iBlock ino ! 14 = 0 then [] else pointers_of img dk (iBlock ino ! 14))"

definition file_blocks :: "(nat \<Rightarrow> u8) \<Rightarrow> Ext2Disk \<Rightarrow> ext2Inode \<Rightarrow> u32 list" where
  "file_blocks img dk ino =
     nonzero (take 12 (iBlock ino)) @ indirect_blocks img dk ino @
     concat (map (pointers_of img dk) (double_tables img dk ino)) @
     concat (map (\<lambda>b. concat (map (pointers_of img dk) (pointers_of img dk b))) (triple_tables img dk ino))"

definition table_blocks :: "(nat \<Rightarrow> u8) \<Rightarrow> Ext2Disk \<Rightarrow> ext2Inode \<Rightarrow> u32 list" where
  "table_blocks img dk ino = filter (\<lambda>b. b \<noteq> 0) [iBlock ino ! 13, iBlock ino ! 14] @ double_tables img dk ino @
     triple_tables img dk ino @ concat (map (pointers_of img dk) (triple_tables img dk ino))"

definition file_reads :: "(nat \<Rightarrow> u8) \<Rightarrow> Ext2Disk \<Rightarrow> ext2Inode \<Rightarrow> u64 list" where
  "file_reads img dk ino = (if iBlock ino ! 12 = 0 then [] else [indirect_offset dk ino]) @
     map (block_offset dk) (table_blocks img dk ino @ file_blocks img dk ino)"

definition inode_bytes :: "(nat \<Rightarrow> u8) \<Rightarrow> Ext2Disk \<Rightarrow> ext2Inode \<Rightarrow> u8 list" where
  "inode_bytes img dk ino = concat (map (\<lambda>b. block_bytes img dk (block_offset dk b)) (file_blocks img dk ino))"

text \<open>The loops' state when the blocks \<open>bs\<close> have been read.\<close>

definition loaded :: "(nat \<Rightarrow> u8) \<Rightarrow> Ext2Disk \<Rightarrow> u8 list \<Rightarrow> ('d \<Rightarrow> bool) \<Rightarrow> u32 list \<Rightarrow> 'd rf \<Rightarrow> bool" where
  "loaded img dk old good bs s \<longleftrightarrow>
     (let bytes = concat (map (\<lambda>b. block_bytes img dk (block_offset dk b)) bs); n = length old in
      good (rf_dev s) \<and> rf_head s = min n (length bytes) \<and> unat (rf_left s) = n - length bytes \<and>
      rf_mmap s = take n bytes @ drop (length bytes) old)"

definition loads :: "(nat \<Rightarrow> u8) \<Rightarrow> Ext2Disk \<Rightarrow> u8 list \<Rightarrow> ('d \<Rightarrow> bool) \<Rightarrow> ('d rf \<Rightarrow> 'd rf option) \<Rightarrow> u32 list \<Rightarrow> bool" where
  "loads img dk old good body cs \<longleftrightarrow>
     (\<forall>bs s. loaded img dk old good bs s \<longrightarrow> (\<exists>s'. body s = Some s' \<and> loaded img dk old good (bs @ cs) s'))"

lemma while_nonzero_for_each: "while_nonzero body bs s = for_each body (nonzero bs) s"
  by (induction bs arbitrary: s) (auto simp: nonzero_def split: Option.bind_split)

lemma loads_for_each:
  assumes "\<And>b. b \<in> set bs \<Longrightarrow> loads img dk old good (f b) (g b)"
  shows "loads img dk old good (for_each f bs) (concat (map g bs))"
  using assms
proof (induction bs)
  case Nil
  then show ?case by (simp add: loads_def)
next
  case (Cons b bs)
  show ?case unfolding loads_def
  proof (intro allI impI)
    fix ds s assume l: "loaded img dk old good ds s"
    obtain s1 where s1: "f b s = Some s1" "loaded img dk old good (ds @ g b) s1"
      using Cons.prems [of b] l unfolding loads_def by auto
    obtain s2 where "for_each f bs s1 = Some s2" "loaded img dk old good ((ds @ g b) @ concat (map g bs)) s2"
      using Cons.IH Cons.prems s1(2) unfolding loads_def by (meson list.set_intros(2))
    then show "\<exists>s'. for_each f (b # bs) s = Some s' \<and> loaded img dk old good (ds @ concat (map g (b # bs))) s'"
      using s1 by simp
  qed
qed

lemma loads_append:
  assumes "loads img dk old good f bs" "loads img dk old good g cs"
  shows "loads img dk old good (\<lambda>s. do { s \<leftarrow> f s; g s }) (bs @ cs)"
  using assms unfolding loads_def by (metis append_assoc bind.bind_lunit)

lemma loads_none: "loads img dk old good Some []"
  by (simp add: loads_def)

lemma entries_prefix:
  assumes "take (unat (blocksize dk)) xs = take (unat (blocksize dk)) ys"
  shows "entries dk xs = entries dk ys"
  unfolding entries_def
proof (rule map_cong [OF refl])
  fix i assume "i \<in> set [0..<unat (blocksize dk) div 4]"
  then have "4 * i + 4 \<le> unat (blocksize dk)" by simp
  then have "take 4 (drop (4 * i) zs) = take 4 (drop (4 * i) (take (unat (blocksize dk)) zs))" for zs :: "u8 list"
    by (simp add: drop_take)
  then show "u32_at xs (4 * i) = u32_at ys (4 * i)" using assms unfolding u32_at_def by metis
qed

definition within :: "nat \<Rightarrow> Ext2Disk \<Rightarrow> u64 \<Rightarrow> bool" where
  "within lim dk off \<longleftrightarrow> unat off + unat (blocksize dk) \<le> lim"

lemma read_block:
  assumes "reads R (device dk) img lim good" "good d" "blocksize dk \<noteq> 0" "within lim dk off"
  obtains r d' where "R (device dk) off (ucast (blocksize dk)) buf d = Some (r, block_bytes img dk off @ drop (unat (blocksize dk)) buf, d')" "good d'"
proof -
  have "ucast (blocksize dk) \<noteq> (0 :: u64)" using assms(3) unat_ucast_32 [of "blocksize dk"] by (metis unat_eq_0)
  then show thesis using assms that unfolding reads_def within_def block_bytes_def by (metis unat_ucast_32)
qed

lemma loads_data:
  assumes R: "reads R (device dk) img lim good" "blocksize dk \<noteq> 0" "within lim dk (block_offset dk b)"
  shows "loads img dk old good (read_data_block R dk b) [b]"
  unfolding loads_def
proof (intro allI impI)
  fix bs and s :: "'a rf" assume l: "loaded img dk old good bs s"
  let ?B = "block_bytes img dk (block_offset dk b)" and ?n = "unat (blocksize dk)"
  define bytes where "bytes = concat (map (\<lambda>b. block_bytes img dk (block_offset dk b)) bs)"
  have s: "good (rf_dev s)" "rf_head s = min (length old) (length bytes)" "unat (rf_left s) = length old - length bytes"
    "rf_mmap s = take (length old) bytes @ drop (length bytes) old"
    using l by (simp_all add: loaded_def bytes_def Let_def)
  obtain r d' where d: "R (device dk) (block_offset dk b) (ucast (blocksize dk)) (rf_buf s) (rf_dev s) = Some (r, ?B @ drop ?n (rf_buf s), d')" "good d'"
    using read_block [OF R(1) s(1) R(2,3)] .
  let ?m = "if rf_left s > ucast (blocksize dk) then ucast (blocksize dk) else rf_left s"
  have m: "unat ?m = min ?n (length old - length bytes)"
    using s(3) by (auto simp: word_less_nat_alt)
  have lenB: "length ?B = ?n" by (simp add: block_bytes_def)
  let ?N = "length old" and ?h = "length bytes" and ?k = "min ?n (length old - length bytes)"
  have take: "take ?k (?B @ drop ?n (rf_buf s)) = take ?k ?B" using lenB by simp
  have mm: "take (rf_head s) (rf_mmap s) @ take ?k ?B @ drop (rf_head s + ?k) (rf_mmap s) =
      take ?N (bytes @ ?B) @ drop (length (bytes @ ?B)) old"
  proof (cases "?N \<le> ?h")
    case True
    then show ?thesis using s(2,4) by simp
  next
    case False
    then have "rf_mmap s = bytes @ drop ?h old" "rf_head s = ?h" using s(2,4) by simp_all
    then show ?thesis using False lenB by (auto simp: min_def not_le add.commute)
  qed
  let ?s' = "s\<lparr>rf_buf := ?B @ drop ?n (rf_buf s), rf_dev := d', rf_mmap := take ?N (bytes @ ?B) @ drop (length (bytes @ ?B)) old,
     rf_head := rf_head s + ?k, rf_left := rf_left s - ?m\<rparr>"
  have "read_data_block R dk b s = Some ?s'"
    unfolding mm [symmetric] take [symmetric] using d(1) m by (simp add: read_data_block_def Let_def)
  moreover have "unat (rf_left s - ?m) = ?N - length (bytes @ ?B)"
  proof -
    have "?m \<le> rf_left s" by (simp add: word_le_nat_alt m s(3))
    then show ?thesis using unat_sub [of ?m "rf_left s"] m s(3) lenB by (auto simp: min_def)
  qed
  then have "loaded img dk old good (bs @ [b]) ?s'"
    using d(2) s(2) lenB by (simp add: loaded_def bytes_def [symmetric] Let_def)
  ultimately show "\<exists>s'. read_data_block R dk b s = Some s' \<and> loaded img dk old good (bs @ [b]) s'" by blast
qed

text \<open>Reading a pointer block and running the loop over it, for each of the three buffers.\<close>

lemma loads_table:
  assumes R: "reads R (device dk) img lim good" "blocksize dk \<noteq> 0" "within lim dk off"
    and read: "\<And>s r b d. R (device dk) off (ucast (blocksize dk)) (buf s) (rf_dev s) = Some (r, b, d) \<Longrightarrow>
      rdb s = Some (put s b (s\<lparr>rf_dev := d\<rparr>)) \<and> buf (put s b (s\<lparr>rf_dev := d\<rparr>)) = b"
    and keep: "\<And>bs s b t. loaded img dk old good bs (put s b t) = loaded img dk old good bs t"
    and body: "\<And>b. b \<in> set (pointers img dk off) \<Longrightarrow> loads img dk old good (f b) (g b)"
  shows "loads img dk old good (\<lambda>s. do { s \<leftarrow> rdb s; while_nonzero f (entries dk (buf s)) s }) (concat (map g (pointers img dk off)))"
  unfolding loads_def
proof (intro allI impI)
  fix bs s assume l: "loaded img dk old good bs s"
  then have "good (rf_dev s)" by (simp add: loaded_def Let_def)
  then obtain r d' where d: "R (device dk) off (ucast (blocksize dk)) (buf s) (rf_dev s) =
      Some (r, block_bytes img dk off @ drop (unat (blocksize dk)) (buf s), d')" "good d'"
    using read_block [OF R(1) _ R(2,3)] by metis
  let ?b = "block_bytes img dk off @ drop (unat (blocksize dk)) (buf s)" let ?s = "put s ?b (s\<lparr>rf_dev := d'\<rparr>)"
  have "loaded img dk old good bs ?s" using l d(2) unfolding keep by (simp add: loaded_def Let_def)
  moreover have "nonzero (entries dk ?b) = pointers img dk off"
    unfolding pointers_def by (rule arg_cong [of _ _ nonzero], rule entries_prefix) (simp add: block_bytes_def)
  ultimately show "\<exists>s'. (do { s \<leftarrow> rdb s; while_nonzero f (entries dk (buf s)) s }) = Some s' \<and>
      loaded img dk old good (bs @ concat (map g (pointers img dk off))) s'"
    using read [OF d(1)] loads_for_each [of "pointers img dk off" img dk old good f g] body
    unfolding while_nonzero_for_each loads_def by auto
qed


lemma loads_entries:
  assumes R: "reads R (device dk) img lim good" "blocksize dk \<noteq> 0" "within lim dk off"
    and body: "\<And>b. b \<in> set (pointers img dk off) \<Longrightarrow> loads img dk old good (f b) (g b)"
  shows "loads img dk old good (\<lambda>s. do { s \<leftarrow> read_p R dk off s; while_nonzero f (entries dk (rf_p s)) s }) (concat (map g (pointers img dk off)))"
  by (rule loads_table [OF R, where buf = rf_p and put = "\<lambda>s b t. t\<lparr>rf_p := b\<rparr>", OF _ _ body])
    (auto simp: read_p_def loaded_def)

lemma loads_entries_pp:
  assumes R: "reads R (device dk) img lim good" "blocksize dk \<noteq> 0" "within lim dk (block_offset dk b)"
    and body: "\<And>c. c \<in> set (pointers_of img dk b) \<Longrightarrow> loads img dk old good (f c) (g c)"
  shows "loads img dk old good (\<lambda>s. do { s \<leftarrow> read_pp R dk b s; while_nonzero f (entries dk (rf_pp s)) s }) (concat (map g (pointers_of img dk b)))"
  unfolding pointers_of_def
  by (rule loads_table [OF R, where buf = rf_pp and put = "\<lambda>s b t. t\<lparr>rf_pp := b\<rparr>", OF _ _ body [unfolded pointers_of_def]])
    (auto simp: read_pp_def loaded_def)

lemma loads_entries_ppp:
  assumes R: "reads R (device dk) img lim good" "blocksize dk \<noteq> 0" "within lim dk (block_offset dk b)"
    and body: "\<And>c. c \<in> set (pointers_of img dk b) \<Longrightarrow> loads img dk old good (f c) (g c)"
  shows "loads img dk old good (\<lambda>s. do { s \<leftarrow> read_ppp R dk b s; while_nonzero f (entries dk (rf_ppp s)) s }) (concat (map g (pointers_of img dk b)))"
  unfolding pointers_of_def
  by (rule loads_table [OF R, where buf = rf_ppp and put = "\<lambda>s b t. t\<lparr>rf_ppp := b\<rparr>", OF _ _ body [unfolded pointers_of_def]])
    (auto simp: read_ppp_def loaded_def)

lemma loads_file:
  assumes R: "reads R (device dk) img lim good" "blocksize dk \<noteq> 0" and ok: "\<forall>off \<in> set (file_reads img dk ino). within lim dk off"
  shows "loads img dk old good (\<lambda>s. do { s \<leftarrow> read_direct R dk ino s; s \<leftarrow> read_indirect R dk ino s; s \<leftarrow> read_double R dk ino s; read_triple R dk ino s })
     (file_blocks img dk ino)"
proof -
  let ?L = "loads img dk old good"
  have data: "?L (read_data_block R dk b) [b]" if "b \<in> set (file_blocks img dk ino)" for b
    by (rule loads_data [OF R]) (use ok that in \<open>auto simp: file_reads_def\<close>)
  have tab: "within lim dk (block_offset dk b)" if "b \<in> set (table_blocks img dk ino)" for b
    using ok that by (auto simp: file_reads_def)
  have single: "concat (map (\<lambda>b. [b]) bs) = bs" for bs :: "u32 list" by (induction bs) auto
  have "?L (read_direct R dk ino) (nonzero (take 12 (iBlock ino)))"
    using loads_for_each [of "nonzero (take 12 (iBlock ino))" img dk old good "read_data_block R dk" "\<lambda>b. [b]"] data
    by (simp add: single read_direct_def [abs_def] while_nonzero_for_each file_blocks_def)
  moreover have "?L (read_indirect R dk ino) (indirect_blocks img dk ino)"
  proof (cases "iBlock ino ! 12 = 0")
    case True
    then show ?thesis by (simp add: read_indirect_def [abs_def] indirect_blocks_def loads_none)
  next
    case False
    have "?L (\<lambda>s. do { s \<leftarrow> read_p R dk (indirect_offset dk ino) s; while_nonzero (read_data_block R dk) (entries dk (rf_p s)) s })
        (concat (map (\<lambda>b. [b]) (pointers img dk (indirect_offset dk ino))))"
      by (rule loads_entries [OF R]) (use False ok data in \<open>auto simp: file_reads_def file_blocks_def indirect_blocks_def\<close>)
    then show ?thesis using False by (simp add: single read_indirect_def [abs_def] indirect_blocks_def indirect_offset_def)
  qed
  moreover have "?L (read_double R dk ino) (concat (map (pointers_of img dk) (double_tables img dk ino)))"
  proof (cases "iBlock ino ! 13 = 0")
    case True
    then show ?thesis by (simp add: read_double_def [abs_def] double_tables_def loads_none)
  next
    case False
    let ?in = "\<lambda>b s. do { s \<leftarrow> read_pp R dk b s; while_nonzero (read_data_block R dk) (entries dk (rf_pp s)) s }"
    have inner: "?L (?in b) (pointers_of img dk b)" if "b \<in> set (double_tables img dk ino)" for b
    proof -
      have "?L (?in b) (concat (map (\<lambda>b. [b]) (pointers_of img dk b)))"
        by (rule loads_entries_pp [OF R tab data]) (use that in \<open>auto simp: table_blocks_def file_blocks_def\<close>)
      then show ?thesis by (simp add: single)
    qed
    have "?L (\<lambda>s. do { s \<leftarrow> read_p R dk (block_offset dk (iBlock ino ! 13)) s; while_nonzero ?in (entries dk (rf_p s)) s })
        (concat (map (pointers_of img dk) (pointers img dk (block_offset dk (iBlock ino ! 13)))))"
      by (rule loads_entries [OF R tab inner]) (use False in \<open>auto simp: table_blocks_def double_tables_def pointers_of_def\<close>)
    then show ?thesis using False by (simp add: read_double_def [abs_def] double_tables_def pointers_of_def)
  qed
  moreover have "?L (read_triple R dk ino) (concat (map (\<lambda>b. concat (map (pointers_of img dk) (pointers_of img dk b))) (triple_tables img dk ino)))"
  proof (cases "iBlock ino ! 14 = 0")
    case True
    then show ?thesis by (simp add: read_triple_def [abs_def] triple_tables_def loads_none)
  next
    case False
    let ?in2 = "\<lambda>b s. do { s \<leftarrow> read_ppp R dk b s; while_nonzero (read_data_block R dk) (entries dk (rf_ppp s)) s }"
    let ?in = "\<lambda>b s. do { s \<leftarrow> read_pp R dk b s; while_nonzero ?in2 (entries dk (rf_pp s)) s }"
    have inner2: "?L (?in2 c) (pointers_of img dk c)" if "b \<in> set (triple_tables img dk ino)" "c \<in> set (pointers_of img dk b)" for b c
    proof -
      have "?L (?in2 c) (concat (map (\<lambda>b. [b]) (pointers_of img dk c)))"
        by (rule loads_entries_ppp [OF R tab data]) (use that in \<open>auto simp: table_blocks_def file_blocks_def\<close>)
      then show ?thesis by (simp add: single)
    qed
    have inner: "?L (?in b) (concat (map (pointers_of img dk) (pointers_of img dk b)))" if "b \<in> set (triple_tables img dk ino)" for b
      by (rule loads_entries_pp [OF R tab inner2]) (use that in \<open>auto simp: table_blocks_def\<close>)
    have "?L (\<lambda>s. do { s \<leftarrow> read_p R dk (block_offset dk (iBlock ino ! 14)) s; while_nonzero ?in (entries dk (rf_p s)) s })
        (concat (map (\<lambda>b. concat (map (pointers_of img dk) (pointers_of img dk b))) (pointers img dk (block_offset dk (iBlock ino ! 14)))))"
      by (rule loads_entries [OF R tab inner]) (use False in \<open>auto simp: table_blocks_def triple_tables_def pointers_of_def\<close>)
    then show ?thesis using False by (simp add: read_triple_def [abs_def] triple_tables_def pointers_of_def)
  qed
  ultimately show ?thesis
    unfolding file_blocks_def by (intro loads_append)
qed


lemma ext2ReadFile_bytes:
  assumes R: "reads R (device dk) img lim good" "blocksize dk \<noteq> 0" "good d" and ok: "\<forall>off \<in> set (file_reads img dk ino). within lim dk off"
    and old: "length (junk (unat (iSize ino))) = unat (iSize ino)"
  shows "\<exists>d'. ext2ReadFile R junk dk ino d = Some (take (unat (iSize ino)) (inode_bytes img dk ino) @
      drop (length (inode_bytes img dk ino)) (junk (unat (iSize ino))), d') \<and> good d'"
proof -
  let ?j = "junk (unat (blocksize dk))" and ?old = "junk (unat (iSize ino))"
  let ?s = "\<lparr>rf_buf = ?j, rf_p = ?j, rf_pp = ?j, rf_ppp = ?j, rf_mmap = ?old, rf_head = 0, rf_left = ucast (iSize ino), rf_dev = d\<rparr>"
  have "loaded img dk ?old good [] ?s" using R(3) old by (simp add: loaded_def)
  then obtain s' where "(do { s \<leftarrow> read_direct R dk ino ?s; s \<leftarrow> read_indirect R dk ino s; s \<leftarrow> read_double R dk ino s; read_triple R dk ino s }) = Some s'"
    "loaded img dk ?old good ([] @ file_blocks img dk ino) s'"
    using loads_file [OF R(1,2) ok, of ?old] unfolding loads_def by blast
  then show ?thesis using old
    by (auto simp: ext2ReadFile_def Let_def loaded_def inode_bytes_def split: Option.bind_splits)
qed

text \<open>
  C10: From the drive to the file: on a drive that answers by the ATA specification, reading a file
  of an ext2 partition below 8 GiB delivers the contents of its blocks in order, through direct,
  indirect, doubly and triply indirect block lists, cut at the file's size.  Where the lists end
  early (each at its first zero entry) the rest of the buffer keeps its old contents.
\<close>

theorem ext2_file_from_drive:
  assumes "pio_drive D (device dk) img {} look" "idle look a" "blocksize dk \<noteq> 0"
    and "\<forall>off \<in> set (file_reads img dk ino). within (2 ^ 33) dk off"
    and "length (junk (unat (iSize ino))) = unat (iSize ino)"
  shows "\<exists>a'. ext2ReadFile (diskRead D) junk dk ino a = Some (take (unat (iSize ino)) (inode_bytes img dk ino) @
      drop (length (inode_bytes img dk ino)) (junk (unat (iSize ino))), a') \<and> idle look a'"
  by (rule ext2ReadFile_bytes [where good = "idle look" and d = a and junk = junk and ino = ino, OF diskRead_reads [OF pio_drive_serves [OF assms(1)]] assms(3,2,4,5)])

definition disk1 :: Ext2Disk where
  "disk1 = \<lparr>device = 0, part = \<lparr>startLba = 2048, sizeLba = 65536, diskId = 0, ptype = LINUX\<rparr>, sb = superblock_of (replicate 104 0),
     blocksize = 1024, groups = 1, gd = []\<rparr>"

definition inode1 :: ext2Inode where
  "inode1 = (inode_of (replicate 128 0))\<lparr>iSize := 3, iBlock := 40 # replicate 14 0\<rparr>"

lemma file1: "file_blocks img disk1 inode1 = [40]" "file_reads img disk1 inode1 = [block_offset disk1 40]" "unat (iSize inode1) = 3"
proof -
  have "nonzero (40 # take 11 (replicate 14 0)) = [40]" by (simp add: nonzero_def)
  then show "file_blocks img disk1 inode1 = [40]" "file_reads img disk1 inode1 = [block_offset disk1 40]" "unat (iSize inode1) = 3"
    by (simp_all add: file_blocks_def file_reads_def table_blocks_def inode1_def indirect_blocks_def double_tables_def triple_tables_def)
qed

theorem ext2_file_from_drive_witness:
  "\<exists>a'. ext2ReadFile (diskRead (drive_of (\<lambda>_. 0x55) {})) (\<lambda>n. replicate n 0) disk1 inode1 pio0 = Some ([0x55, 0x55, 0x55], a')"
proof -
  have off: "block_offset disk1 40 = 1089536" by (simp add: block_offset_def disk1_def part_base_def)
  have bytes: "inode_bytes (\<lambda>_. 0x55) disk1 inode1 = replicate 1024 0x55"
    by (simp add: inode_bytes_def file1 block_bytes_def slice_const) (simp add: disk1_def)
  have "\<forall>off \<in> set (file_reads (\<lambda>_. 0x55) disk1 inode1). within (2 ^ 33) disk1 off"
    by (simp add: file1 off within_def) (simp add: disk1_def)
  moreover have "blocksize disk1 \<noteq> 0" "pio_drive (drive_of (\<lambda>_. 0x55) {}) (device disk1) (\<lambda>_. 0x55) {} id"
    using drive_of_contract by (simp_all add: disk1_def)
  moreover have "take 3 (replicate 1024 0x55) @ drop 1024 (replicate 3 0) = [0x55, 0x55, 0x55 :: u8]" by (simp add: numeral_3_eq_3)
  ultimately show ?thesis
    using ext2_file_from_drive [of "drive_of (\<lambda>_. 0x55) {}" disk1 "\<lambda>_. 0x55" id pio0 inode1 "\<lambda>n. replicate n 0"] pio0_idle
    unfolding file1(3) bytes length_replicate by auto
qed

end
