(* ===== verification/Ext2Dir.thy ===== *)
theory Ext2Dir
  imports Ext2
begin

section \<open>Directories and paths on ext2: \<open>src/kernel/disk/ext2.cpp\<close>\<close>

text \<open>
  A directory is a list of entries laid out one after the other; an entry is an inode number, a
  record length, a name and the slack up to the next entry.  \<open>lookup\<close> turns the entries other
  than the links to the directory itself and its parent into nodes, in order, and \<open>resolve\<close>
  follows the names of a path down from a mounted root to the file whose blocks \<open>read_node\<close>
  delivers.
\<close>

subsection \<open>Directories as lists of entries\<close>

record dentry =
  d_inode :: u32
  d_type :: u8
  d_name :: "u8 list"
  d_slack :: "u8 list"

definition d_size :: "dentry \<Rightarrow> nat" where
  "d_size e = 8 + length (d_name e) + length (d_slack e)"

definition dentry_bytes :: "dentry \<Rightarrow> u8 list" where
  "dentry_bytes e = le_bytes 4 (d_inode e) @ le_bytes 2 (of_nat (d_size e) :: u16) @
     [of_nat (length (d_name e)), d_type e] @ d_name e @ d_slack e"

definition dir_bytes :: "dentry list \<Rightarrow> u8 list" where
  "dir_bytes es = concat (map dentry_bytes es)"

definition dentry_ok :: "dentry \<Rightarrow> bool" where
  "dentry_ok e \<longleftrightarrow> 0 \<notin> set (d_name e) \<and> length (d_name e) < 2 ^ 8 \<and> d_size e < 2 ^ 16"

text \<open>
  The entries the loop gets to see: it ends at the first entry without an inode, which on ext2 is
  an unused one, and leaves the two links to directories out.
\<close>

definition visible :: "dentry list \<Rightarrow> dentry list" where
  "visible es = filter (\<lambda>e. d_name e \<noteq> [DOT] \<and> d_name e \<noteq> [DOT, DOT]) (takeWhile (\<lambda>e. d_inode e \<noteq> 0) es)"

lemma visible_Nil [simp]: "visible [] = []"
  by (simp add: visible_def)

lemma visible_Cons: "visible (e # es) = (if d_inode e = 0 then [] else
    if d_name e = [DOT] \<or> d_name e = [DOT, DOT] then visible es else e # visible es)"
  by (simp add: visible_def)

lemma length_dentry_bytes [simp]: "length (dentry_bytes e) = d_size e"
  by (simp add: dentry_bytes_def d_size_def)

lemma length_dir_bytes: "length (dir_bytes es) = sum_list (map d_size es)"
  by (simp add: dir_bytes_def length_concat comp_def)

lemma dir_bytes_Cons: "dir_bytes (e # es) = dentry_bytes e @ dir_bytes es"
  by (simp add: dir_bytes_def)

text \<open>What the loop reads at the start of an entry.\<close>

lemma dentry_at:
  assumes "dentry_ok e" "m = xs @ dentry_bytes e @ ys" "off = length xs"
  shows "dentry_inode m off = d_inode e" "dentry_recLen m off = of_nat (d_size e)"
    "unat (m ! (off + 6)) = length (d_name e)" "dentry_name m off = d_name e"
    "off + 8 + length (d_name e) \<le> length m"
proof -
  have len: "length (d_name e) < 256" using assms(1) by (simp add: dentry_ok_def)
  show "dentry_inode m off = d_inode e"
    using assms(2,3) by (simp add: dentry_inode_def u32_at_def dentry_bytes_def le_word_le_bytes_full)
  have "drop (off + 4) m = le_bytes 2 (of_nat (d_size e) :: u16) @ [of_nat (length (d_name e)), d_type e] @ d_name e @ d_slack e @ ys"
    using assms(2,3) by (simp add: dentry_bytes_def)
  then show "dentry_recLen m off = of_nat (d_size e)"
    by (simp add: dentry_recLen_def u16_at_def le_word_le_bytes_full)
  have "m ! (off + 6) = of_nat (length (d_name e))"
    using assms(2,3) by (simp add: dentry_bytes_def nth_append)
  then show n: "unat (m ! (off + 6)) = length (d_name e)" using len by (simp add: unsigned_of_nat take_bit_nat_eq_self)
  have "drop (off + 8) m = d_name e @ d_slack e @ ys" using assms(2,3) by (simp add: dentry_bytes_def)
  moreover have "takeWhile (\<lambda>c. c \<noteq> 0) (d_name e) = d_name e" using assms(1) by (auto simp: dentry_ok_def takeWhile_eq_all_conv)
  ultimately show "dentry_name m off = d_name e" by (simp add: dentry_name_def n)
  show "off + 8 + length (d_name e) \<le> length m" using assms(2,3) by (simp add: d_size_def)
qed

subsection \<open>Inodes read from the drive\<close>

definition inode_pos :: "Ext2Disk \<Rightarrow> u32 \<Rightarrow> u64" where
  "inode_pos dk n = part_base (part dk) +
     (ucast (bgInodeTable (gd dk ! unat ((n - 1) div sInodesPerGroup (sb dk))) * blocksize dk) +
      ucast ((n - 1) mod sInodesPerGroup (sb dk)) * ucast (sInodeSize (sb dk)))"

definition inode_at :: "(nat \<Rightarrow> u8) \<Rightarrow> Ext2Disk \<Rightarrow> u32 \<Rightarrow> ext2Inode" where
  "inode_at img dk n = inode_of (slice img (unat (inode_pos dk n)) 128)"

definition has_inode :: "nat \<Rightarrow> Ext2Disk \<Rightarrow> u32 \<Rightarrow> bool" where
  "has_inode lim dk n \<longleftrightarrow> sInodesPerGroup (sb dk) \<noteq> 0 \<and> unat ((n - 1) div sInodesPerGroup (sb dk)) < length (gd dk) \<and>
     unat (inode_pos dk n) + 128 \<le> lim"

lemma ext2ReadInode_reads:
  assumes "reads R (device dk) img lim good" "good d" "has_inode lim dk n" "length (junk 128) = 128"
  shows "\<exists>d'. ext2ReadInode R junk dk n d = Some (Some (inode_at img dk n), d') \<and> good d'"
proof -
  have "(128 :: u64) \<noteq> 0" "unat (128 :: u64) = 128" by simp_all
  then obtain r d' where "R (device dk) (inode_pos dk n) 128 (junk 128) d = Some (r, slice img (unat (inode_pos dk n)) 128 @ drop 128 (junk 128), d')" "good d'"
    using assms unfolding reads_def has_inode_def by metis
  then show ?thesis
    using assms(3,4) by (simp add: ext2ReadInode_def has_inode_def inode_at_def Let_def inode_pos_def [symmetric])
qed

subsection \<open>The children a directory gets\<close>

definition child_of :: "(nat \<Rightarrow> u8) \<Rightarrow> Ext2Disk \<Rightarrow> nat \<Rightarrow> dentry \<Rightarrow> node_class node" where
  "child_of img dk this e =
     (let ino = inode_at img dk (d_inode e) in
      \<lparr>nname = d_name e, nparent = this, ntype = (if isDirectory ino then NODE_DIRECTORY else NODE_FILE),
       nchilds = [], nclass = NodeEXT2 dk (d_inode e) ino\<rparr>)"

text \<open>The store after the loop: the entries' nodes are the next numbers, in order.\<close>

definition add_children :: "(nat \<Rightarrow> u8) \<Rightarrow> Ext2Disk \<Rightarrow> nat \<Rightarrow> dentry list \<Rightarrow> node_class vfs \<Rightarrow> node_class vfs" where
  "add_children img dk this es v = fold (\<lambda>e v. snd (ext2_createChild this (d_name e) this dk (d_inode e) (inode_at img dk (d_inode e))
       (if isDirectory (inode_at img dk (d_inode e)) then NODE_DIRECTORY else NODE_FILE) v)) es v"

lemma createChild_children:
  assumes "nodes v this = Some nd" "this < next_node v"
    "(c, v') = ext2_createChild this nm this dk inum ino ty v"
  shows "c = next_node v" "next_node v' = Suc (next_node v)" "nodes v' this = Some (nd\<lparr>nchilds := nchilds nd @ [c]\<rparr>)"
    "nodes v' c = Some \<lparr>nname = nm, nparent = this, ntype = ty, nchilds = [], nclass = NodeEXT2 dk inum ino\<rparr>"
    "n \<noteq> c \<Longrightarrow> n \<noteq> this \<Longrightarrow> nodes v' n = nodes v n"
  using assms by (auto simp: ext2_createChild_def ext2_new_node_def new_node_def upd_node_def)

lemma add_children_nodes:
  assumes "nodes v this = Some nd" "this < next_node v"
  shows "nodes (add_children img dk this es v) this = Some (nd\<lparr>nchilds := nchilds nd @ [next_node v..<next_node v + length es]\<rparr>) \<and>
    (\<forall>n < next_node v. n \<noteq> this \<longrightarrow> nodes (add_children img dk this es v) n = nodes v n) \<and>
    (\<forall>i < length es. nodes (add_children img dk this es v) (next_node v + i) = Some (child_of img dk this (es ! i)))"
  using assms
proof (induction es arbitrary: v nd)
  case Nil
  then show ?case by (simp add: add_children_def)
next
  case (Cons e es)
  let ?ino = "inode_at img dk (d_inode e)"
  obtain c v' where v': "(c, v') = ext2_createChild this (d_name e) this dk (d_inode e) ?ino (if isDirectory ?ino then NODE_DIRECTORY else NODE_FILE) v"
    by (metis surj_pair)
  note c = createChild_children [OF Cons.prems v']
  have step: "add_children img dk this (e # es) v = add_children img dk this es v'"
    using v' [symmetric] by (simp add: add_children_def)
  have IH: "nodes (add_children img dk this es v') this = Some (nd\<lparr>nchilds := (nchilds nd @ [c]) @ [Suc (next_node v)..<Suc (next_node v) + length es]\<rparr>)"
    "\<forall>n < Suc (next_node v). n \<noteq> this \<longrightarrow> nodes (add_children img dk this es v') n = nodes v' n"
    "\<forall>i < length es. nodes (add_children img dk this es v') (Suc (next_node v) + i) = Some (child_of img dk this (es ! i))"
    using Cons.IH [OF c(3)] Cons.prems(2) unfolding c(2) by simp_all
  have "nodes (add_children img dk this es v') (next_node v) = Some (child_of img dk this e)"
    using IH(2) c(1,4) Cons.prems(2) by (simp add: child_of_def Let_def)
  moreover have "nodes (add_children img dk this es v') n = nodes v n" if "n < next_node v" "n \<noteq> this" for n
    using IH(2) c(1,5) that by simp
  moreover have "[c] @ [Suc (next_node v)..<Suc (next_node v) + length es] = [next_node v..<next_node v + length (e # es)]"
    using c(1) by (simp add: upt_conv_Cons [of "next_node v" "Suc (next_node v + length es)"] del: upt_Suc)
  ultimately show ?case
    unfolding step using IH(1,3) by (auto simp: less_Suc_eq_0_disj)
qed

lemma next_node_add_children: "next_node (add_children img dk this es v) = next_node v + length es"
proof (induction es arbitrary: v)
  case (Cons e es)
  have "add_children img dk this (e # es) v = add_children img dk this es (add_children img dk this [e] v)"
    by (simp add: add_children_def)
  moreover have "next_node (add_children img dk this [e] v) = Suc (next_node v)"
    by (simp add: add_children_def ext2_createChild_def ext2_new_node_def new_node_def upd_node_def)
  ultimately show ?case by (simp add: Cons.IH)
qed (simp add: add_children_def)

text \<open>The loop over the entries creates a child for each that is visible.\<close>

lemma lookup_entries_children:
  assumes R: "reads R (device dk) img lim good" "length (junk 128) = 128"
    and es: "\<forall>e \<in> set es. dentry_ok e" "\<forall>e \<in> set (visible es). has_inode lim dk (d_inode e)" "length (dir_bytes es) < 2 ^ 32"
    and m: "m = xs @ dir_bytes es" "off = length xs" "good (fsdev s)"
  shows "\<exists>d. lookup_entries R junk dk this m off (of_nat (length (dir_bytes es))) s =
     Some (s\<lparr>vfs := add_children img dk this (visible es) (vfs s), fsdev := d\<rparr>) \<and> good d"
  using es m
proof (induction es arbitrary: xs off s)
  case Nil
  show ?case
    by (subst lookup_entries.simps) (use Nil in \<open>auto simp: dir_bytes_def add_children_def intro!: exI [of _ "fsdev s"]\<close>)
next
  case (Cons e es)
  let ?n = "length (dir_bytes es)"
  have e: "dentry_ok e" using Cons.prems(1) by simp
  have m: "m = xs @ dentry_bytes e @ dir_bytes es" using Cons.prems(4) by (simp add: dir_bytes_Cons)
  note at = dentry_at [OF e m Cons.prems(5)]
  have len: "length (dir_bytes (e # es)) = d_size e + ?n" by (simp add: dir_bytes_Cons)
  have lt: "d_size e + ?n < 2 ^ 32" "0 < d_size e" "d_size e < 2 ^ 16" using Cons.prems(3) e by (simp_all add: len dentry_ok_def d_size_def)
  have nz: "(of_nat (d_size e + ?n) :: u32) \<noteq> 0"
  proof
    assume "(of_nat (d_size e + ?n) :: u32) = 0"
    then have "unat (of_nat (d_size e + ?n) :: u32) = 0" by simp
    then show False using lt by (simp add: unsigned_of_nat take_bit_nat_eq_self del: of_nat_add)
  qed
  have rec: "unat (dentry_recLen m off) = d_size e" "(ucast (dentry_recLen m off) :: u32) = of_nat (d_size e)"
    using lt(3) by (simp_all add: at(2) word_unat_eq_iff unsigned_ucast_eq take_bit_nat_eq_self unsigned_of_nat)
  have rest: "of_nat (d_size e + ?n) - ucast (dentry_recLen m off) = (of_nat ?n :: u32)" by (simp add: rec(2))
  show ?case
  proof (cases "d_inode e = 0")
    case True
    have "lookup_entries R junk dk this m off (of_nat (d_size e + ?n)) s = Some s"
      using nz at True by (subst lookup_entries.simps) simp
    then show ?thesis
      using Cons.prems(6) True unfolding len by (auto simp: visible_Cons add_children_def intro!: exI [of _ "fsdev s"])
  next
    case ino: False
  let ?body = "if d_name e = [DOT] \<or> d_name e = [DOT, DOT] then Some s else do {
               (ino, d) \<leftarrow> ext2ReadInode R junk dk (d_inode e) (fsdev s);
               case ino of None \<Rightarrow> None
               | Some ino \<Rightarrow>
                   let (_, v) = ext2_createChild this (d_name e) this dk (d_inode e) ino
                          (if isDirectory ino then NODE_DIRECTORY else NODE_FILE) (vfs s)
                   in Some (s\<lparr>vfs := v, fsdev := d\<rparr>) }"
  have unfold: "lookup_entries R junk dk this m off (of_nat (d_size e + ?n)) s =
      do { s \<leftarrow> ?body; lookup_entries R junk dk this m (off + d_size e) (of_nat ?n) s }"
  proof -
    have c: "(of_nat (d_size e + ?n) = (0 :: u32)) = False" "(length m < off + 8) = False" "(d_inode e = 0) = False"
      "(length m < off + 8 + unat (m ! (off + 6))) = False"
      using nz at ino by simp_all
    show ?thesis
      by (subst lookup_entries.simps) (simp only: c if_False rec(1) rest at(1,4))
  qed
  have body: "\<exists>d. ?body = Some (s\<lparr>vfs := add_children img dk this (visible [e]) (vfs s), fsdev := d\<rparr>) \<and> good d"
  proof (cases "d_name e = [DOT] \<or> d_name e = [DOT, DOT]")
    case True
    then show ?thesis using Cons.prems(6) by (auto simp: visible_Cons add_children_def intro!: exI [of _ "fsdev s"])
  next
    case False
    then have "has_inode lim dk (d_inode e)" using Cons.prems(2) ino by (simp add: visible_Cons)
    then obtain d where "ext2ReadInode R junk dk (d_inode e) (fsdev s) = Some (Some (inode_at img dk (d_inode e)), d)" "good d"
      using ext2ReadInode_reads [where good = good and d = "fsdev s" and R = R and img = img and lim = lim and dk = dk and n = "d_inode e" and junk = junk] R Cons.prems(6) by blast
    then show ?thesis using False ino by (auto simp: visible_Cons add_children_def split: prod.split)
  qed
  then obtain d where d: "?body = Some (s\<lparr>vfs := add_children img dk this (visible [e]) (vfs s), fsdev := d\<rparr>)" "good d" by blast
  let ?s = "s\<lparr>vfs := add_children img dk this (visible [e]) (vfs s), fsdev := d\<rparr>"
  have "\<exists>d. lookup_entries R junk dk this m (off + d_size e) (of_nat ?n) ?s =
      Some (?s\<lparr>vfs := add_children img dk this (visible es) (vfs ?s), fsdev := d\<rparr>) \<and> good d"
    by (rule Cons.IH [where xs = "xs @ dentry_bytes e"]) (use Cons.prems lt d(2) m ino in \<open>auto simp: visible_Cons\<close>)
  moreover have "add_children img dk this (visible es) (vfs ?s) = add_children img dk this (visible (e # es)) (vfs s)"
    using ino by (simp add: add_children_def visible_Cons)
  ultimately show ?thesis unfolding len unfold d(1) by simp
  qed
qed

lemma delete_nodes_next: "delete_nodes ns v = Some v' \<Longrightarrow> next_node v' = next_node v"
proof (rule delete_nodes.raw_induct [where P = "\<lambda>ns v v'. next_node v' = next_node v"])
  fix f :: "nat list \<Rightarrow> 'a vfs \<Rightarrow> 'a vfs option" and ns and v v' :: "'a vfs"
  assume IH: "\<And>ns v v'. f ns v = Some v' \<Longrightarrow> next_node v' = next_node v"
    and body: "(case ns of [] \<Rightarrow> Some v
      | n # ns' \<Rightarrow> (case nodes v n of None \<Rightarrow> None
           | Some nd \<Rightarrow> do { v \<leftarrow> f (nchilds nd) v; f ns' (v\<lparr>nodes := (nodes v)(n := None)\<rparr>) })) = Some v'"
  show "next_node v' = next_node v"
    using body by (auto split: list.splits option.splits Option.bind_splits dest!: IH)
qed

lemma delete_no_nodes: "delete_nodes [] v = Some v"
  by (subst delete_nodes.simps) simp

text \<open>
  \<open>holds_dir\<close>: on the image \<open>img\<close> the inode is a directory with the entries \<open>es\<close>, and what
  they name lies within the \<open>lim\<close> bytes the driver reaches.
\<close>

definition holds_dir :: "(nat \<Rightarrow> u8) \<Rightarrow> nat \<Rightarrow> Ext2Disk \<Rightarrow> ext2Inode \<Rightarrow> dentry list \<Rightarrow> bool" where
  "holds_dir img lim dk ino es \<longleftrightarrow> isDirectory ino \<and> (\<forall>off \<in> set (file_reads img dk ino). within lim dk off) \<and>
     length (dir_bytes es) = unat (iSize ino) \<and> take (unat (iSize ino)) (inode_bytes img dk ino) = dir_bytes es \<and>
     (\<forall>e \<in> set es. dentry_ok e) \<and> (\<forall>e \<in> set (visible es). has_inode lim dk (d_inode e))"

lemma holds_dir_size: "holds_dir img lim dk ino es \<Longrightarrow> es \<noteq> [] \<Longrightarrow> iSize ino \<noteq> 0"
  by (cases es) (auto simp: holds_dir_def dir_bytes_Cons d_size_def)

text \<open>
  \<open>live_dir\<close>: the node is in the store with this inode, its number has been given out, and its old
  children can be deleted without it.
\<close>

definition live_dir :: "node_class vfs \<Rightarrow> nat \<Rightarrow> Ext2Disk \<Rightarrow> u32 \<Rightarrow> ext2Inode \<Rightarrow> bool" where
  "live_dir v n dk inum ino \<longleftrightarrow> n < next_node v \<and>
     (\<exists>nd v'. nodes v n = Some nd \<and> nclass nd = NodeEXT2 dk inum ino \<and> delete_nodes (nchilds nd) v = Some v' \<and> nodes v' n \<noteq> None)"

lemma lookup_lists:
  assumes R: "reads R (device dk) img lim good" "blocksize dk \<noteq> 0" "\<forall>n. length (junk n) = n" "good (fsdev s)"
    and n: "live_dir (vfs s) n dk inum ino" and es: "holds_dir img lim dk ino es" "es \<noteq> []"
  shows "\<exists>cs s'. lookup R junk n s = Some (cs, s') \<and> good (fsdev s') \<and> (\<forall>c \<in> set cs. c < next_node (vfs s')) \<and>
    map (nodes (vfs s')) cs = map (\<lambda>e. Some (child_of img dk n e)) (visible es)"
proof -
  obtain nd v where nd: "n < next_node (vfs s)" "nodes (vfs s) n = Some nd" "nclass nd = NodeEXT2 dk inum ino"
      "delete_nodes (nchilds nd) (vfs s) = Some v" "nodes v n \<noteq> None"
    using n unfolding live_dir_def by blast
  let ?v = "upd_node n (\<lambda>nd. nd\<lparr>nchilds := []\<rparr>) v" and ?k = "length (visible es)"
  obtain nd' where nd': "nodes ?v n = Some nd'" "nchilds nd' = []" using nd(5) by (auto simp: upd_node_def)
  have nx: "next_node ?v = next_node v" "n < next_node ?v" using delete_nodes_next [OF nd(4)] nd(1) by (simp_all add: upd_node_def)
  have dir: "isDirectory ino" "\<forall>off \<in> set (file_reads img dk ino). within lim dk off" "take (unat (iSize ino)) (inode_bytes img dk ino) = dir_bytes es"
    and size: "length (dir_bytes es) = unat (iSize ino)"
    and ok: "\<forall>e \<in> set es. dentry_ok e" "\<forall>e \<in> set (visible es). has_inode lim dk (d_inode e)"
    using es(1) by (simp_all add: holds_dir_def)
  have nonempty: "iSize ino \<noteq> 0" using es by (rule holds_dir_size)
  have "unat (iSize ino) \<le> length (inode_bytes img dk ino)" using dir(3) size by (metis length_take min.cobounded1)
  then obtain d where data: "ext2ReadFile R junk dk ino (fsdev s) = Some (dir_bytes es, d)" "good d"
    using ext2ReadFile_bytes [where junk = junk and ino = ino, OF R(1,2,4) dir(2)] R(3) dir(3) by auto
  let ?s = "s\<lparr>vfs := ?v, fsdev := d\<rparr>" and ?v' = "add_children img dk n (visible es) ?v"
  have "length (dir_bytes es) < 2 ^ 32" using size unsigned_less [of "iSize ino", where 'a = nat] by simp
  then obtain d' where loop: "lookup_entries R junk dk n (dir_bytes es) 0 (iSize ino) ?s = Some (?s\<lparr>vfs := ?v', fsdev := d'\<rparr>)" "good d'"
    using lookup_entries_children [where s = ?s and xs = "[]" and this = n and junk = junk, OF R(1) _ ok, of "dir_bytes es" 0] R(3) data(2) size by auto
  note add = add_children_nodes [OF nd'(1) nx(2), of img dk "visible es"]
  let ?cs = "[next_node ?v..<next_node ?v + ?k]"
  have "lookup R junk n s = Some (?cs, ?s\<lparr>vfs := ?v', fsdev := d'\<rparr>)"
    using nd(2-4) dir(1) data(1) nonempty loop(1) add nd'(2) by (simp add: lookup_def ext2_lookup_def)
  moreover have "map (nodes ?v') ?cs = map (\<lambda>e. Some (child_of img dk n e)) (visible es)"
    by (rule nth_equalityI) (use add in auto)
  moreover have "next_node ?v' = next_node ?v + ?k"
    by (rule next_node_add_children)
  ultimately show ?thesis using loop(2) by fastforce
qed

subsection \<open>Paths\<close>

lemma find_child_find:
  assumes "map g cs = map (\<lambda>e. Some (h e)) es"
  shows "find_child g nm cs = None \<and> find (\<lambda>e. h e = nm) es = None \<or>
    (\<exists>i < length es. find_child g nm cs = Some (cs ! i) \<and> find (\<lambda>e. h e = nm) es = Some (es ! i))"
  using assms
proof (induction es arbitrary: cs)
  case (Cons e es)
  then obtain c cs' where c: "cs = c # cs'" "g c = Some (h e)" "map g cs' = map (\<lambda>e. Some (h e)) es" by auto
  show ?case
    using Cons.IH [OF c(3)] c(1,2) by (cases "h e = nm") (auto intro: exI [of _ 0] exI [of _ "Suc _"])
qed simp

abbreviation names_of :: "'d fs \<Rightarrow> nat \<Rightarrow> u8 list option" where "names_of s \<equiv> getName (vfs s)"
abbreviation parents_of :: "'d fs \<Rightarrow> nat \<Rightarrow> nat option" where "parents_of s \<equiv> getParent (vfs s)"

lemma resolve_step_dir:
  assumes R: "reads R (device dk) img lim good" "blocksize dk \<noteq> 0" "\<forall>n. length (junk n) = n" "good (fsdev s)"
    and n: "live_dir (vfs s) n dk inum ino" and es: "holds_dir img lim dk ino es" "es \<noteq> []" and nm: "nm \<noteq> [DOT]" "nm \<noteq> [DOT, DOT]"
  shows "\<exists>r s'. resolve_step (lookup R junk) names_of parents_of nm n s = Some (r, s') \<and> good (fsdev s') \<and>
    (case find (\<lambda>e. d_name e = nm) (visible es) of None \<Rightarrow> r = None
     | Some e \<Rightarrow> \<exists>c. r = Some c \<and> c < next_node (vfs s') \<and> nodes (vfs s') c = Some (child_of img dk n e))"
proof -
  obtain cs s' where l: "lookup R junk n s = Some (cs, s')" "good (fsdev s')" "\<forall>c \<in> set cs. c < next_node (vfs s')"
      "map (nodes (vfs s')) cs = map (\<lambda>e. Some (child_of img dk n e)) (visible es)"
    using lookup_lists [OF R n es] by blast
  have len: "length cs = length (visible es)" using l(4) by (metis length_map)
  have names: "map (names_of s') cs = map (\<lambda>e. Some (d_name e)) (visible es)"
  proof (rule nth_equalityI)
    fix i assume "i < length (map (names_of s') cs)"
    then have "nodes (vfs s') (cs ! i) = Some (child_of img dk n (visible es ! i))" using l(4) len by (metis (no_types, lifting) length_map nth_map)
    then show "map (names_of s') cs ! i = map (\<lambda>e. Some (d_name e)) (visible es) ! i"
      using \<open>i < _\<close> len by (simp add: getName_def child_of_def Let_def)
  qed (simp add: len)
  show ?thesis
  proof (cases "cs = []")
    case True
    then show ?thesis using l len by (simp add: resolve_step_def)
  next
    case False
    then have step: "resolve_step (lookup R junk) names_of parents_of nm n s = Some (find_child (names_of s') nm cs, s')"
      using l(1) nm by (simp add: resolve_step_def)
    have "nodes (vfs s') (cs ! i) = Some (child_of img dk n (visible es ! i))" "cs ! i < next_node (vfs s')" if "i < length (visible es)" for i
      using l(3,4) len that by (metis (no_types, lifting) nth_map, simp)
    then show ?thesis
      unfolding step using find_child_find [OF names, of nm] l(2) by auto
  qed
qed

text \<open>\<open>leads\<close>: from a directory's inode, the names lead to an inode, each the first entry of that name.\<close>

inductive leads :: "(nat \<Rightarrow> u8) \<Rightarrow> nat \<Rightarrow> Ext2Disk \<Rightarrow> ext2Inode \<Rightarrow> u8 list list \<Rightarrow> ext2Inode \<Rightarrow> bool"
  for img lim dk where
  here: "leads img lim dk ino [] ino"
| down: "leads img lim dk ino (nm # nms) ino'"
  if "holds_dir img lim dk ino es" "nm \<noteq> [DOT]" "nm \<noteq> [DOT, DOT]"
    "find (\<lambda>e. d_name e = nm) (visible es) = Some e" "leads img lim dk (inode_at img dk (d_inode e)) nms ino'"

lemma live_child:
  assumes "nodes v c = Some (child_of img dk n e)" "c < next_node v"
  shows "live_dir v c dk (d_inode e) (inode_at img dk (d_inode e))"
  using assms by (simp add: live_dir_def child_of_def Let_def delete_no_nodes)

lemma walk_leads:
  assumes R: "reads R (device dk) img lim good" "blocksize dk \<noteq> 0" "\<forall>n. length (junk n) = n"
    and "leads img lim dk ino nms ino'" "nms \<noteq> []" "live_dir (vfs s) n dk inum ino" "good (fsdev s)"
  shows "\<exists>c s' par e. walk (lookup R junk) names_of parents_of nms n s = Some (Some c, s') \<and> good (fsdev s') \<and>
    nodes (vfs s') c = Some (child_of img dk par e) \<and> inode_at img dk (d_inode e) = ino'"
  using assms(4-)
proof (induction arbitrary: s n inum)
  case (down ino es nm e nms ino')
  obtain c s' where c: "resolve_step (lookup R junk) names_of parents_of nm n s = Some (Some c, s')" "good (fsdev s')"
      "c < next_node (vfs s')" "nodes (vfs s') c = Some (child_of img dk n e)"
    using resolve_step_dir [OF R down.prems(3,2) down.hyps(1) _ down.hyps(2,3)] down.hyps(4) by fastforce
  show ?case
  proof (cases "nms = []")
    case True
    then show ?thesis using c down.hyps(5) by (auto elim: leads.cases)
  next
    case False
    then show ?thesis using down.IH [OF False live_child [OF c(4,3)] c(2)] c(1) by auto
  qed
qed simp

text \<open>
  C12: listing a directory from the drive: when the bytes of the directory's blocks are the layout
  of the entries \<open>es\<close>, at least one, \<open>lookup\<close> deletes the old children and returns one node per
  entry before the first unused one (an entry with inode number 0), in order and without the links
  to the directory and its parent, each with the entry's name, the directory as its parent, and the
  inode and type read from the inode table.  Entries behind an unused one are not listed, and a
  directory of size 0 halts the kernel.
\<close>

theorem ext2_directory_lists:
  assumes "pio_drive D (device dk) img {} look" "idle look (fsdev s)" "blocksize dk \<noteq> 0" "\<forall>n. length (junk n) = n"
    and "live_dir (vfs s) n dk inum ino" "holds_dir img (2 ^ 33) dk ino es"
  shows "if es = [] then lookup (diskRead D) junk n s = None
    else \<exists>cs s'. lookup (diskRead D) junk n s = Some (cs, s') \<and> map (nodes (vfs s')) cs =
      map (\<lambda>e. Some (child_of img dk n e))
        (filter (\<lambda>e. d_name e \<noteq> [DOT] \<and> d_name e \<noteq> [DOT, DOT]) (takeWhile (\<lambda>e. d_inode e \<noteq> 0) es))"
proof (cases "es = []")
  case True
  then have "unat (iSize ino) = 0" using assms(6) by (simp add: holds_dir_def dir_bytes_def)
  then have "iSize ino = 0" by (simp only: unat_eq_0)
  then show ?thesis
    using True assms(5,6)
    by (auto simp: live_dir_def holds_dir_def lookup_def ext2_lookup_def Let_def split: Option.bind_split)
next
  case False
  show ?thesis
    unfolding visible_def [symmetric]
    using lookup_lists [where good = "idle look" and s = s and junk = junk, OF diskRead_reads [OF pio_drive_serves [OF assms(1)]] assms(3,4,2,5,6) False] False by auto
qed

text \<open>
  C11: from a path to a file's bytes: when the names after the mount point lead from the mounted
  root through directories on the drive to a file, \<open>resolvePath\<close> finds a node, its size is the
  file's, and reading that many bytes from it delivers the contents of the file's blocks.
\<close>

theorem ext2_file_by_path:
  assumes drive: "pio_drive D (device dk) img {} look" "idle look (fsdev s)" "blocksize dk \<noteq> 0" "\<forall>n. length (junk n) = n"
    and mounted: "nodes (vfs s) root = Some rt" "nclass rt = Base" "find_child (names_of s) mp (nchilds rt) = Some n" "live_dir (vfs s) n dk inum ino"
    and pth: "0 \<notin> set p" "components p = mp # nms" "mp \<noteq> [DOT]" "mp \<noteq> [DOT, DOT]" "nms \<noteq> []" "leads img (2 ^ 33) dk ino nms f"
    and cont: "\<not> isDirectory f" "\<forall>off \<in> set (file_reads img dk f). within (2 ^ 33) dk off" "unat (iSize f) \<le> length (inode_bytes img dk f)"
    and buf: "length buf = unat (iSize f)"
  shows "\<exists>c s' s''. resolve (diskRead D) junk p s = Some (Some c, s') \<and> getSize c s' = Some (ucast (iSize f)) \<and>
    read_node (diskRead D) junk c (ucast (iSize f)) buf s' = Some (ucast (iSize f), take (unat (iSize f)) (inode_bytes img dk f), s'')"
proof -
  note R = diskRead_reads [OF pio_drive_serves [OF drive(1)]]
  obtain c s' par e where w: "walk (lookup (diskRead D) junk) names_of parents_of nms n s = Some (Some c, s')" "idle look (fsdev s')"
      "nodes (vfs s') c = Some (child_of img dk par e)" "inode_at img dk (d_inode e) = f"
    using walk_leads [where good = "idle look", OF R drive(3,4) pth(6,5) mounted(4) drive(2)] by blast
  have "p \<noteq> []" using pth(2) by (auto simp: components.simps)
  moreover have "nchilds rt \<noteq> []" using mounted(3) by auto
  ultimately have "resolve (diskRead D) junk p s = Some (Some c, s')"
    using resolvePath_walk [OF pth(1), of "lookup (diskRead D) junk" names_of parents_of s] pth(2-4) mounted(1-3) w(1)
    by (simp add: resolve_def resolve_step_def lookup_def)
  moreover have nd: "nodes (vfs s') c = Some \<lparr>nname = d_name e, nparent = par, ntype = NODE_FILE, nchilds = [], nclass = NodeEXT2 dk (d_inode e) f\<rparr>"
    using w(3,4) cont(1) by (simp add: child_of_def Let_def)
  moreover obtain d where "ext2ReadFile (diskRead D) junk dk f (fsdev s') = Some (take (unat (iSize f)) (inode_bytes img dk f), d)"
    using ext2ReadFile_bytes [where good = "idle look" and d = "fsdev s'" and junk = junk and ino = f, OF R drive(3) w(2) cont(2)] drive(4) cont(3) by auto
  ultimately show ?thesis
    using buf by (auto simp: getSize_def ext2_getSize_def read_node_def ext2_read_def Let_def)
qed

subsection \<open>A disk with a directory and a file\<close>

definition place :: "nat \<Rightarrow> u8 list \<Rightarrow> (nat \<Rightarrow> u8) \<Rightarrow> nat \<Rightarrow> u8" where
  "place a bs img x = (if a \<le> x \<and> x < a + length bs then bs ! (x - a) else img x)"

lemma slice_place: "n = length bs \<Longrightarrow> slice (place a bs img) a n = bs"
  by (rule nth_equalityI) (simp_all add: slice_def place_def)

lemma slice_place_other: "b + n \<le> a \<or> a + length bs \<le> b \<Longrightarrow> slice (place a bs img) b n = slice img b n"
  by (auto simp: slice_def place_def)

definition dir2 :: "dentry list" where
  "dir2 = [\<lparr>d_inode = 2, d_type = 2, d_name = [DOT], d_slack = [0, 0, 0]\<rparr>, \<lparr>d_inode = 2, d_type = 2, d_name = [DOT, DOT], d_slack = [0, 0]\<rparr>,
     \<lparr>d_inode = 12, d_type = 1, d_name = [0x73, 0x68], d_slack = replicate 990 0\<rparr>]"

definition file_inode :: "u8 list" where
  "file_inode = [0xA4, 0x81, 0, 0, 3, 0, 0, 0] @ replicate 32 0 @ [41, 0, 0, 0] @ replicate 84 0"

definition img2 :: "nat \<Rightarrow> u8" where
  "img2 = place 1055104 file_inode (place 1089536 (dir_bytes dir2) (place 1090560 ([0x7F, 0x45, 0x4C] @ replicate 1021 0) (\<lambda>_. 0)))"

definition disk2 :: Ext2Disk where
  "disk2 = \<lparr>device = 0, part = \<lparr>startLba = 2048, sizeLba = 65536, diskId = 0, ptype = LINUX\<rparr>,
     sb = (superblock_of (replicate 104 0))\<lparr>sInodesPerGroup := 16, sInodeSize := 128\<rparr>,
     blocksize = 1024, groups = 1, gd = [(group_desc_of (replicate 32 0))\<lparr>bgInodeTable := 5\<rparr>]\<rparr>"

definition inode2 :: ext2Inode where
  "inode2 = (inode_of (replicate 128 0))\<lparr>iMode := 0x41ED, iSize := 1024, iBlock := 40 # replicate 14 0\<rparr>"

definition fs2 :: "pio ata fs" where
  "fs2 = \<lparr>vfs = \<lparr>nodes = [root \<mapsto> \<lparr>nname = [], nparent = root, ntype = 0, nchilds = [1], nclass = Base\<rparr>,
       1 \<mapsto> \<lparr>nname = [0x30], nparent = root, ntype = NODE_ROOT, nchilds = [], nclass = NodeEXT2 disk2 2 inode2\<rparr>], next_node = 2\<rparr>,
     fsdev = \<lparr>regConfigInfo = [CONFIG_ATA, CONFIG_NONE], dev = \<lparr>p_sn = 0, p_cl = 0, p_ch = 0, p_dr = 0, p_busy = 0, p_addr = 0, p_left = 0, p_err = False\<rparr>\<rparr>\<rparr>"

lemma disk2_facts: "device disk2 = 0" "blocksize disk2 = 1024" "block_offset disk2 40 = 1089536" "block_offset disk2 41 = 1090560"
  "inode_pos disk2 12 = 1055104" "has_inode (2 ^ 33) disk2 12"
  by (simp_all add: disk2_def block_offset_def part_base_def has_inode_def inode_pos_def)

lemma one_block:
  assumes "iBlock ino = b # replicate 14 0" "b \<noteq> 0"
  shows "file_blocks img dk ino = [b]" "file_reads img dk ino = [block_offset dk b]"
proof -
  have "nonzero (b # take 11 (replicate 14 0)) = [b]" using assms(2) by (simp add: nonzero_def)
  then show "file_blocks img dk ino = [b]" "file_reads img dk ino = [block_offset dk b]"
    by (simp_all add: assms file_blocks_def file_reads_def table_blocks_def indirect_blocks_def double_tables_def triple_tables_def)
qed

lemma dir2_facts: "length (dir_bytes dir2) = 1024" "\<forall>e \<in> set dir2. dentry_ok e" "map d_inode (visible dir2) = [12]"
    "map d_name (visible dir2) = [[0x73, 0x68]]"
  by (simp_all add: length_dir_bytes dir2_def d_size_def dentry_ok_def visible_def DOT_def)

lemma img2_dir: "slice img2 1089536 1024 = dir_bytes dir2"
  by (simp add: img2_def slice_place_other file_inode_def slice_place dir2_facts(1))

lemma img2_file: "slice img2 1090560 1024 = [0x7F, 0x45, 0x4C] @ replicate 1021 0"
  by (simp add: img2_def slice_place_other file_inode_def slice_place dir2_facts(1))

lemma inode_12: "inode_at img2 disk2 12 = inode_of file_inode"
proof -
  have "slice img2 1055104 128 = file_inode" unfolding img2_def by (rule slice_place) (simp add: file_inode_def)
  then show ?thesis by (simp add: inode_at_def disk2_facts(5))
qed

lemma file_inode_facts: "iBlock (inode_of file_inode) = 41 # replicate 14 0" "iSize (inode_of file_inode) = 3" "\<not> isDirectory (inode_of file_inode)"
  by code_simp+

lemma holds_dir2: "holds_dir img2 (2 ^ 33) disk2 inode2 dir2"
proof -
  have b: "iBlock inode2 = 40 # replicate 14 0" by (simp add: inode2_def)
  note one = one_block [OF b]
  have "inode_bytes img2 disk2 inode2 = dir_bytes dir2"
    by (simp add: inode_bytes_def one block_bytes_def disk2_facts img2_dir)
  moreover have "\<forall>e \<in> set (visible dir2). d_inode e = 12" using dir2_facts(3) by (simp add: dir2_def visible_def DOT_def)
  moreover have "unat (iSize inode2) = 1024" "isDirectory inode2" by (simp_all add: inode2_def isDirectory_def)
  ultimately show ?thesis
    using dir2_facts(1,2) disk2_facts(6) by (simp add: holds_dir_def one within_def disk2_facts)
qed

lemma fs2_live: "live_dir (vfs fs2) 1 disk2 2 inode2"
  by (simp add: live_dir_def fs2_def delete_no_nodes root_def)

lemma fs2_drive: "pio_drive (drive_of img2 {}) (device disk2) img2 {} id" "idle id (fsdev fs2)" "blocksize disk2 \<noteq> 0"
  by (simp_all add: disk2_facts drive_of_contract idle_def fs2_def)

theorem ext2_directory_lists_witness:
  "\<exists>cs s'. lookup (diskRead (drive_of img2 {})) (\<lambda>n. replicate n 0) 1 fs2 = Some (cs, s') \<and> map (names_of s') cs = [Some [0x73, 0x68]]"
proof -
  obtain cs s' where l: "lookup (diskRead (drive_of img2 {})) (\<lambda>n. replicate n 0) 1 fs2 = Some (cs, s')"
      "map (nodes (vfs s')) cs = map (\<lambda>e. Some (child_of img2 disk2 1 e)) (visible dir2)"
    using ext2_directory_lists [OF fs2_drive _ fs2_live holds_dir2, of "\<lambda>n. replicate n 0"]
    unfolding visible_def [symmetric] by (auto simp: dir2_def)
  have "map (names_of s') cs = map (map_option nname) (map (nodes (vfs s')) cs)" by (simp add: getName_def)
  also have "\<dots> = map Some (map d_name (visible dir2))" unfolding l(2) by (simp add: child_of_def Let_def)
  finally show ?thesis using l(1) unfolding dir2_facts(4) by auto
qed

theorem ext2_file_by_path_witness:
  "\<exists>c s' s''. resolve (diskRead (drive_of img2 {})) (\<lambda>n. replicate n 0) [SLASH, 0x30, SLASH, 0x73, 0x68] fs2 = Some (Some c, s') \<and>
    getSize c s' = Some 3 \<and> read_node (diskRead (drive_of img2 {})) (\<lambda>n. replicate n 0) c 3 [0, 0, 0] s' = Some (3, [0x7F, 0x45, 0x4C], s'')"
proof -
  let ?f = "inode_of file_inode"
  have e: "find (\<lambda>e. d_name e = [0x73, 0x68]) (visible dir2) = Some (dir2 ! 2)" "d_inode (dir2 ! 2) = 12"
    by (simp_all add: dir2_def visible_def DOT_def)
  have "leads img2 (2 ^ 33) disk2 inode2 [[0x73, 0x68]] ?f"
    by (rule leads.down [OF holds_dir2 _ _ e(1)]) (simp_all add: DOT_def e(2) inode_12 leads.here)
  moreover have "components [SLASH, 0x30, SLASH, 0x73, 0x68] = [[0x30], [0x73, 0x68]]"
    by (simp add: components.simps SLASH_def Let_def)
  moreover have bytes: "inode_bytes img2 disk2 ?f = [0x7F, 0x45, 0x4C] @ replicate 1021 0"
    by (simp add: inode_bytes_def one_block [OF file_inode_facts(1)] block_bytes_def disk2_facts img2_file)
  moreover have "\<forall>off \<in> set (file_reads img2 disk2 ?f). within (2 ^ 33) disk2 off"
    by (simp add: one_block [OF file_inode_facts(1)] within_def disk2_facts)
  moreover have "take 3 ([0x7F, 0x45, 0x4C] @ replicate 1021 0) = [0x7F, 0x45, 0x4C :: u8]" by (simp add: numeral_3_eq_3)
  moreover have "unat (iSize ?f) = 3" "(ucast (iSize ?f) :: u64) = 3" by (simp_all add: file_inode_facts(2))
  moreover have "nodes (vfs fs2) root = Some \<lparr>nname = [], nparent = root, ntype = 0, nchilds = [1], nclass = Base\<rparr>" "names_of fs2 1 = Some [0x30]"
    by (simp_all add: fs2_def root_def getName_def)
  ultimately show ?thesis
    using ext2_file_by_path [OF fs2_drive _ _ _ _ fs2_live, of "\<lambda>n. replicate n 0" _ "[0x30]" "[SLASH, 0x30, SLASH, 0x73, 0x68]" "[[0x73, 0x68]]" ?f "[0, 0, 0]"]
      file_inode_facts(3) by (simp add: SLASH_def DOT_def)
qed
end
