(* ===== verification/Keyboard.thy ===== *)
theory Keyboard
  imports VgaText
begin

section \<open>The keyboard: \<open>src/kernel/keyboard.cpp\<close> and its interrupt handler\<close>

text \<open>
  A reader (\<open>scan\<close> or \<open>nget\<close>) takes the lock, stores the request and spins until
  \<open>input\<close>, called from the keyboard interrupt, releases the lock.  The model has the request
  and the key presses as steps of one machine; the wait is that the reader's \<open>finish\<close> step
  is only possible once the lock is free again.  \<open>input\<close> stores through the reader's pointer in
  whatever address space the processor is in when the key arrives: \<open>kmemory\<close> is that space, and
  \<open>Kernel\<close> puts the current task's there for each interrupt.  The theorems of this theory are about
  keys that arrive in one space.  Forwarding to the screen is the value \<open>input\<close> returns.
\<close>

record keyboard =
  ilock :: bool
  ubuf :: u64
  pos :: u32
  stop :: "32 word"
  logInput :: bool
  kmemory :: mem

definition keyboard0 :: "mem \<Rightarrow> keyboard" where
  "keyboard0 m = \<lparr>ilock = False, ubuf = 0, pos = 0, stop = -2, logInput = False, kmemory = m\<rparr>"

definition unlock :: "keyboard \<Rightarrow> keyboard" where
  "unlock k = k\<lparr>ilock := False, ubuf := 0, stop := -2, pos := 0\<rparr>"

definition setLogInput :: "bool \<Rightarrow> keyboard \<Rightarrow> keyboard" where
  "setLogInput st k = k\<lparr>logInput := st\<rparr>"

text \<open>Lines 14--20 and 27--33; the reader spins while the lock is taken.\<close>

definition scan_request :: "u64 \<Rightarrow> keyboard \<Rightarrow> keyboard option" where
  "scan_request buf k =
     (if ilock k then None else Some (k\<lparr>ilock := True, ubuf := buf, pos := 0, stop := -1\<rparr>))"

definition nget_request :: "u64 \<Rightarrow> u32 \<Rightarrow> keyboard \<Rightarrow> keyboard option" where
  "nget_request buf n k =
     (if ilock k then None else Some (k\<lparr>ilock := True, ubuf := buf, pos := 0, stop := n\<rparr>))"

text \<open>Storing a key: lines 43--56 and again 65--77.\<close>

definition kb_store :: "u8 \<Rightarrow> keyboard \<Rightarrow> keyboard" where
  "kb_store c k =
     (if c = 8 then
        (if pos k \<noteq> 0 then k\<lparr>pos := pos k - 1\<rparr> else k\<lparr>kmemory := (kmemory k)(ubuf k := 0)\<rparr>)
      else
        let m = (kmemory k)(ubuf k + ucast (pos k) := c);
            p = pos k + 1
        in k\<lparr>kmemory := m(ubuf k + ucast p := 0), pos := p\<rparr>)"

definition is_newline :: "u8 \<Rightarrow> bool" where
  "is_newline c \<longleftrightarrow> c = 10 \<or> c = 13"

definition kb_consume :: "u8 \<Rightarrow> keyboard \<Rightarrow> keyboard" where
  "kb_consume c k =
     (if ilock k \<and> ubuf k \<noteq> 0 \<and> stop k \<noteq> -2 then
        if stop k <s 0 then
          (let k = kb_store c k in if is_newline c then unlock k else k)
        else if stop k = 0 then unlock k
        else
          (let k = kb_store c k;
               k = k\<lparr>stop := stop k - 1\<rparr>;
               k = (if is_newline c then k\<lparr>stop := 0\<rparr> else k)
           in if stop k = 0 then unlock k else k)
      else k)"

text \<open>Whether a key is stored: not when it ends an \<open>nget\<close> of nothing or is a backspace that only moves back.\<close>

definition kb_stores :: "u8 \<Rightarrow> keyboard \<Rightarrow> bool" where
  "kb_stores c k \<longleftrightarrow> ilock k \<and> ubuf k \<noteq> 0 \<and> stop k \<noteq> -2 \<and> stop k \<noteq> 0 \<and> \<not> (c = 8 \<and> pos k \<noteq> 0)"

lemma kb_stores_memory: "\<not> kb_stores c k \<Longrightarrow> kmemory (kb_consume c k) = kmemory k"
  by (auto simp: kb_consume_def kb_stores_def kb_store_def unlock_def Let_def)

text \<open>The second result is the character handed to \<open>VGAText::put\<close>, if any.\<close>

definition kb_input :: "u8 \<Rightarrow> keyboard \<Rightarrow> keyboard \<times> u8 option" where
  "kb_input c k = (let k = kb_consume c k in (k, if logInput k then Some c else None))"

subsection \<open>The interrupt handler: \<open>isr_kbd_int\<close> in \<open>src/kernel/interrupt.cpp\<close>\<close>

definition kbdmap :: "u8 list" where
  "kbdmap = [
     0x1B, 0x1B, 0x1B, 0x1B, 0x31, 0x21, 0x31, 0x31, 0x32, 0x40, 0x32, 0x32, 0x33, 0x23, 0x33, 0x33,
     0x34, 0x24, 0x34, 0x34, 0x35, 0x25, 0x35, 0x35, 0x36, 0x5E, 0x36, 0x36, 0x37, 0x26, 0x37, 0x37,
     0x38, 0x2A, 0x38, 0x38, 0x39, 0x28, 0x39, 0x39, 0x30, 0x29, 0x30, 0x30, 0x2D, 0x5F, 0x2D, 0x2D,
     0x3D, 0x2B, 0x3D, 0x3D, 0x08, 0x08, 0x7F, 0x08, 0x09, 0x09, 0x09, 0x09, 0x71, 0x51, 0x71, 0x71,
     0x77, 0x57, 0x77, 0x77, 0x65, 0x45, 0x65, 0x65, 0x72, 0x52, 0x72, 0x72, 0x74, 0x54, 0x74, 0x74,
     0x79, 0x59, 0x79, 0x79, 0x75, 0x55, 0x75, 0x75, 0x69, 0x49, 0x69, 0x69, 0x6F, 0x4F, 0x6F, 0x6F,
     0x70, 0x50, 0x70, 0x70, 0x5B, 0x7B, 0x5B, 0x5B, 0x5D, 0x7D, 0x5D, 0x5D, 0x0A, 0x0A, 0x0A, 0x0A,
     0xFF, 0xFF, 0xFF, 0xFF, 0x61, 0x41, 0x61, 0x61, 0x73, 0x53, 0x73, 0x73, 0x64, 0x44, 0x64, 0x64,
     0x66, 0x46, 0x66, 0x66, 0x67, 0x47, 0x67, 0x67, 0x68, 0x48, 0x68, 0x68, 0x6A, 0x4A, 0x6A, 0x6A,
     0x6B, 0x4B, 0x6B, 0x6B, 0x6C, 0x4C, 0x6C, 0x6C, 0x3B, 0x3A, 0x3B, 0x3B, 0x27, 0x22, 0x27, 0x27,
     0x60, 0x7E, 0x60, 0x60, 0xFF, 0xFF, 0xFF, 0xFF, 0x5C, 0x7C, 0x5C, 0x5C, 0x7A, 0x5A, 0x7A, 0x7A,
     0x78, 0x58, 0x78, 0x78, 0x63, 0x43, 0x63, 0x63, 0x76, 0x56, 0x76, 0x76, 0x62, 0x42, 0x62, 0x62,
     0x6E, 0x4E, 0x6E, 0x6E, 0x6D, 0x4D, 0x6D, 0x6D, 0x2C, 0x3C, 0x2C, 0x2C, 0x2E, 0x3E, 0x2E, 0x2E,
     0x2F, 0x3F, 0x2F, 0x2F, 0xFF, 0xFF, 0xFF, 0xFF, 0x2A, 0xFF, 0xFF, 0xFF, 0xFF, 0xFF, 0xFF, 0xFF,
     0x20, 0x20, 0x20, 0x20, 0xFF, 0xFF, 0xFF, 0xFF, 0xFF, 0xFF, 0xFF, 0xFF, 0xFF, 0xFF, 0xFF, 0xFF,
     0xFF, 0xFF, 0xFF, 0xFF, 0xFF, 0xFF, 0xFF, 0xFF, 0xFF, 0xFF, 0xFF, 0xFF, 0xFF, 0xFF, 0xFF, 0xFF,
     0xFF, 0xFF, 0xFF, 0xFF, 0xFF, 0xFF, 0xFF, 0xFF, 0xFF, 0xFF, 0xFF, 0xFF, 0xFF, 0xFF, 0xFF, 0xFF,
     0xFF, 0xFF, 0xFF, 0xFF, 0xFF, 0xFF, 0xFF, 0xFF, 0x37, 0xFF, 0xFF, 0xFF, 0x38, 0xFF, 0xFF, 0xFF,
     0x39, 0xFF, 0xFF, 0xFF, 0x2D, 0xFF, 0xFF, 0xFF, 0x34, 0xFF, 0xFF, 0xFF, 0x35, 0xFF, 0xFF, 0xFF,
     0x36, 0xFF, 0xFF, 0xFF, 0x2B, 0xFF, 0xFF, 0xFF, 0x31, 0xFF, 0xFF, 0xFF, 0x32, 0xFF, 0xFF, 0xFF,
     0x33, 0xFF, 0xFF, 0xFF, 0x30, 0xFF, 0xFF, 0xFF, 0x2E, 0xFF, 0xFF, 0xFF, 0xFF, 0xFF, 0xFF, 0xFF,
     0xFF, 0xFF, 0xFF, 0xFF, 0xFF, 0xFF, 0xFF, 0xFF, 0xFF, 0xFF, 0xFF, 0xFF, 0xFF, 0xFF, 0xFF, 0xFF,
     0xFF, 0xFF, 0xFF, 0xFF, 0xFF, 0xFF, 0xFF, 0xFF, 0xFF, 0xFF, 0xFF, 0xFF, 0xFF, 0xFF, 0xFF, 0xFF,
     0xFF, 0xFF, 0xFF, 0xFF, 0xFF, 0xFF, 0xFF, 0xFF, 0xFF, 0xFF, 0xFF, 0xFF, 0xFF, 0xFF, 0xFF, 0xFF,
     0xFF, 0xFF, 0xFF, 0xFF]"

record kbd_keys =
  lshift_enable :: bool
  rshift_enable :: bool
  alt_enable :: bool
  ctrl_enable :: bool

datatype kbd_action = KReboot | KHalt | KPrintStats | KScroll int | KInput u8 | KNothing

text \<open>
  What the handler does with the byte it reads from port \<open>0x60\<close>.  The polling of the status
  port before it is left out.  \<open>None\<close> is a read outside \<open>kbdmap\<close>.
\<close>

definition kbd_int :: "u8 \<Rightarrow> kbd_keys \<Rightarrow> (kbd_action \<times> kbd_keys) option" where
  "kbd_int scancode k =
     (let i = scancode - 1 in
      if i < 0x80 then
        if i = 0x00 then Some (if ctrl_enable k \<or> alt_enable k then KReboot else KHalt, k)
        else if i = 0x29 then Some (KNothing, k\<lparr>lshift_enable := True\<rparr>)
        else if i = 0x35 then Some (KNothing, k\<lparr>rshift_enable := True\<rparr>)
        else if i = 0x1C then Some (KNothing, k\<lparr>ctrl_enable := True\<rparr>)
        else if i = 0x37 then Some (KNothing, k\<lparr>alt_enable := True\<rparr>)
        else if i = 0x44 then Some (KPrintStats, k)
        else if i = 0x48 then Some (KScroll (-1), k)
        else if i = 0x50 then Some (KScroll 1, k)
        else
          let idx = unat i * 4 + (if lshift_enable k \<or> rshift_enable k then 1 else 0)
          in if idx < length kbdmap then Some (KInput (kbdmap ! idx), k) else None
      else
        let i = i - 0x80 in
        Some (KNothing,
          if i = 0x29 then k\<lparr>lshift_enable := False\<rparr>
          else if i = 0x35 then k\<lparr>rshift_enable := False\<rparr>
          else if i = 0x1C then k\<lparr>ctrl_enable := False\<rparr>
          else if i = 0x37 then k\<lparr>alt_enable := False\<rparr>
          else k))"

subsection \<open>The machine of requests and keys\<close>

datatype kb_event = Scan u64 | Nget u64 u32 | Key u8

inductive kb_step :: "keyboard \<Rightarrow> kb_event \<Rightarrow> keyboard \<Rightarrow> bool" where
  step_scan: "scan_request buf k = Some k' \<Longrightarrow> kb_step k (Scan buf) k'"
| step_nget: "nget_request buf n k = Some k' \<Longrightarrow> kb_step k (Nget buf n) k'"
| step_key: "kb_step k (Key c) (fst (kb_input c k))"

inductive_cases kb_step_scanE: "kb_step k (Scan buf) k'"
inductive_cases kb_step_ngetE: "kb_step k (Nget buf n) k'"
inductive_cases kb_step_keyE: "kb_step k (Key c) k'"

inductive kb_steps :: "keyboard \<Rightarrow> kb_event list \<Rightarrow> keyboard \<Rightarrow> bool" where
  steps_Nil: "kb_steps k [] k"
| steps_Cons: "kb_step k e k1 \<Longrightarrow> kb_steps k1 es k2 \<Longrightarrow> kb_steps k (e # es) k2"


inductive_simps kb_step_key_iff [simp]: "kb_step k (Key c) k'"
inductive_simps kb_step_nget_iff [simp]: "kb_step k (Nget buf n) k'"
inductive_simps kb_steps_Nil_iff [simp]: "kb_steps k [] k'"
inductive_simps kb_steps_Cons_iff [simp]: "kb_steps k (e # es) k'"

subsection \<open>What a reader of at most \<open>n\<close> characters can rely on\<close>

text \<open>The state while \<open>nget buf n\<close> waits, with \<open>r\<close> characters to go.\<close>

definition reading :: "u64 \<Rightarrow> nat \<Rightarrow> nat \<Rightarrow> keyboard \<Rightarrow> bool" where
  "reading buf n r k \<longleftrightarrow> ilock k \<and> ubuf k = buf \<and> 0 < r \<and> unat (stop k) = r \<and> unat (pos k) + r \<le> n"

definition only_in :: "u64 \<Rightarrow> nat \<Rightarrow> keyboard \<Rightarrow> keyboard \<Rightarrow> bool" where
  "only_in buf n k k' \<longleftrightarrow> (\<forall>x. n < unat (x - buf) \<longrightarrow> kmemory k' x = kmemory k x)"

lemma only_in_refl [simp]: "only_in buf n k k"
  by (simp add: only_in_def)

lemma only_in_trans: "only_in buf n k k' \<Longrightarrow> only_in buf n k' k'' \<Longrightarrow> only_in buf n k k''"
  by (simp add: only_in_def)

lemma unlock_sel [simp]: "\<not> ilock (unlock k)" "kmemory (unlock k) = kmemory k"
  by (simp_all add: unlock_def)

lemma kb_store_sel [simp]:
  "ilock (kb_store c k) = ilock k" "ubuf (kb_store c k) = ubuf k" "stop (kb_store c k) = stop k"
  "logInput (kb_store c k) = logInput k"
  by (simp_all add: kb_store_def Let_def)

lemma kb_store_reading:
  assumes "reading buf n r k" "n < 2 ^ 31"
  shows "only_in buf n k (kb_store c k)" "unat (pos (kb_store c k)) + (r - 1) \<le> n"
proof -
  have p: "unat (pos k) < n" "ubuf k = buf" "unat (pos k) + r \<le> n" "0 < r" using assms(1) by (auto simp: reading_def)
  have suc: "unat (pos k + 1) = unat (pos k) + 1"
    using p assms(2) by (simp add: unat_word_ariths)
  have offs: "unat (ucast (pos k) :: u64) < n" "unat (ucast (pos k + 1) :: u64) \<le> n"
    using p suc by simp_all
  have "x \<noteq> buf + ucast (pos k)" "x \<noteq> buf + ucast (pos k + 1)" "x \<noteq> buf" if "n < unat (x - buf)" for x
    using that offs by auto
  then show "only_in buf n k (kb_store c k)"
    using p by (auto simp: only_in_def kb_store_def Let_def)
  show "unat (pos (kb_store c k)) + (r - 1) \<le> n"
    using p suc unat_minus_one [of "pos k"] by (auto simp: kb_store_def Let_def)
qed

lemma reading_consume:
  assumes "reading buf n r k" "n < 2 ^ 31" "buf \<noteq> 0"
  shows "only_in buf n k (kb_consume c k) \<and>
    (if r = 1 \<or> is_newline c then \<not> ilock (kb_consume c k) else reading buf n (r - 1) (kb_consume c k))"
proof -
  have r: "ilock k" "ubuf k = buf" "unat (stop k) = r" "0 < r" "r < 2 ^ 31" "unat (pos k) + r \<le> n"
    using assms by (auto simp: reading_def)
  have s: "\<not> stop k <s 0" "stop k \<noteq> -2" "stop k \<noteq> 0" "unat (stop k - 1) = r - 1" "stop k - 1 = 0 \<longleftrightarrow> r = 1"
    using r unat_minus_one [of "stop k"] by (auto simp: negative_32 word_unat_eq_iff unat_sub_if')
  note st = kb_store_reading [OF assms(1,2), of c]
  have "kb_consume c k =
     (let k1 = (kb_store c k)\<lparr>stop := stop k - 1\<rparr>; k2 = (if is_newline c then k1\<lparr>stop := 0\<rparr> else k1)
      in if stop k2 = 0 then unlock k2 else k2)"
    using r s(1-3) assms(3) by (simp add: kb_consume_def Let_def)
  then show ?thesis
    using st r s(4,5) by (auto simp: Let_def only_in_def reading_def)
qed

lemma consume_unlocked: "\<not> ilock k \<Longrightarrow> kb_consume c k = k"
  by (simp add: kb_consume_def)

lemma kb_input_fst [simp]: "fst (kb_input c k) = kb_consume c k"
  by (simp add: kb_input_def Let_def)

lemma kb_steps_keys [simp]: "kb_steps k (map Key cs) k' \<longleftrightarrow> k' = fold kb_consume cs k"
  by (induction cs arbitrary: k) auto

lemma fold_unlocked: "\<not> ilock k \<Longrightarrow> fold kb_consume cs k = k"
  by (induction cs) (simp_all add: consume_unlocked)

lemma reading_keys:
  assumes "reading buf n r k" "n < 2 ^ 31" "buf \<noteq> 0"
  shows "only_in buf n k (fold kb_consume cs k) \<and> (r \<le> length cs \<longrightarrow> \<not> ilock (fold kb_consume cs k))"
  using assms(1)
proof (induction cs arbitrary: k r)
  case Nil
  then show ?case by (simp add: reading_def)
next
  case (Cons c cs)
  note step = reading_consume [OF Cons.prems assms(2,3), of c]
  show ?case
  proof (cases "r = 1 \<or> is_newline c")
    case True
    then show ?thesis using step by (simp add: fold_unlocked)
  next
    case False
    then have "reading buf n (r - 1) (kb_consume c k)" using step by simp
    from Cons.IH [OF this] step show ?thesis by (auto intro: only_in_trans)
  qed
qed

lemma nget_outside:
  assumes "kb_steps k (Nget buf n # map Key cs) k'" "unat n < 2 ^ 31" "buf \<noteq> 0"
    and "unat n < unat (x - buf)"
  shows "kmemory k' x = kmemory k x"
proof -
  obtain k1 where k1: "nget_request buf n k = Some k1" "k' = fold kb_consume cs k1"
    using assms(1) by auto
  then have m: "kmemory k1 = kmemory k" "ilock k1" "ubuf k1 = buf" "pos k1 = 0" "stop k1 = n"
    by (auto simp: nget_request_def split: if_splits)
  show ?thesis
  proof (cases "n = 0")
    case True
    have "kmemory (fold kb_consume cs k1) = kmemory k1"
    proof (cases cs)
      case (Cons c cs')
      have "kb_consume c k1 = unlock k1" using m True assms(3) by (simp add: kb_consume_def)
      then show ?thesis using Cons by (simp add: fold_unlocked)
    qed simp
    then show ?thesis using k1 m by simp
  next
    case False
    then have "reading buf (unat n) (unat n) k1" using m by (simp add: reading_def unat_gt_0)
    then show ?thesis using reading_keys [of buf "unat n" "unat n" k1 cs] assms k1(2) m(1) by (simp add: only_in_def)
  qed
qed

text \<open>The state of a request for \<open>n\<close> characters into \<open>buf\<close>, at any time until it is over.\<close>

definition in_request :: "u64 \<Rightarrow> nat \<Rightarrow> keyboard \<Rightarrow> bool" where
  "in_request buf n k \<longleftrightarrow> \<not> ilock k \<or> ubuf k = buf \<and> stop k = 0 \<or> (\<exists>r. reading buf n r k)"

lemma in_request_cong [simp]: "in_request buf n (k\<lparr>kmemory := m\<rparr>) = in_request buf n k"
  by (simp add: in_request_def reading_def)

lemma request_starts: "nget_request buf n k = Some k' \<Longrightarrow> in_request buf (unat n) k'"
  by (cases "n = 0") (auto simp: nget_request_def in_request_def reading_def unat_gt_0 split: if_splits)

lemma request_consume:
  assumes "in_request buf n k" "n < 2 ^ 31" "buf \<noteq> 0"
  shows "in_request buf n (kb_consume c k) \<and> only_in buf n k (kb_consume c k)"
proof -
  consider "\<not> ilock k" | "ilock k" "ubuf k = buf" "stop k = 0" | r where "reading buf n r k"
    using assms(1) by (auto simp: in_request_def)
  then show ?thesis
  proof cases
    case 1
    then show ?thesis using assms(1) by (simp add: consume_unlocked)
  next
    case 2
    then have "kb_consume c k = unlock k" using assms(3) by (simp add: kb_consume_def)
    then show ?thesis by (simp add: in_request_def only_in_def)
  next
    case 3
    then show ?thesis using reading_consume [OF 3 assms(2,3), of c] by (auto simp: in_request_def split: if_splits)
  qed
qed

text \<open>
  C31: A reader that asks for at most \<open>n\<close> characters gives a buffer of \<open>n + 1\<close> bytes, and no key
  pressed afterwards, before or after the request is served, writes anywhere else.
\<close>

theorem nget_stays_in_buffer:
  assumes "kb_steps k (Nget buf n # map Key cs) k'" "unat n < 2 ^ 31" "buf \<noteq> 0"
    and "unat n < unat (x - buf)"
  shows "kmemory k' x = kmemory k x"
  using assms by (rule nget_outside)

text \<open>
  C32: A request for at most \<open>n\<close> characters is over after \<open>n\<close> keys, or after the first one if
  \<open>n\<close> is 0: the lock is free again.
\<close>

theorem nget_ends:
  assumes "kb_steps k (Nget buf n # map Key cs) k'" "unat n < 2 ^ 31" "buf \<noteq> 0"
    and "max 1 (unat n) \<le> length cs"
  shows "\<not> ilock k'"
proof -
  obtain k1 where k1: "nget_request buf n k = Some k1" "k' = fold kb_consume cs k1"
    using assms(1) by auto
  then have m: "ilock k1" "ubuf k1 = buf" "pos k1 = 0" "stop k1 = n"
    by (auto simp: nget_request_def split: if_splits)
  show ?thesis
  proof (cases "n = 0")
    case True
    obtain c cs' where cs: "cs = c # cs'" using assms(4) by (cases cs) auto
    have "kb_consume c k1 = unlock k1" using m True assms(3) by (simp add: kb_consume_def)
    then show ?thesis using cs k1(2) by (simp add: fold_unlocked)
  next
    case False
    then have "reading buf (unat n) (unat n) k1" using m by (simp add: reading_def unat_gt_0)
    then show ?thesis using reading_keys [of buf "unat n" "unat n" k1 cs] assms k1(2) by simp
  qed
qed


subsection \<open>What a typed line leaves in the buffer\<close>

definition plain :: "u8 \<Rightarrow> bool" where
  "plain c \<longleftrightarrow> c \<noteq> 8 \<and> c \<noteq> 10 \<and> c \<noteq> 13"

definition listening :: "u64 \<Rightarrow> nat \<Rightarrow> keyboard \<Rightarrow> bool" where
  "listening buf r k \<longleftrightarrow> ilock k \<and> ubuf k = buf \<and> buf \<noteq> 0 \<and>
     (stop k <s 0 \<and> stop k \<noteq> -2 \<or> \<not> stop k <s 0 \<and> r < unat (stop k))"

lemma kb_store_plain:
  assumes "c \<noteq> 8" "unat (pos k) + 1 < 2 ^ 32"
  shows "kmemory (kb_store c k) = wr (kmemory k) (ubuf k + of_nat (unat (pos k))) [c, 0]"
    "unat (pos (kb_store c k)) = unat (pos k) + 1"
proof -
  have suc: "unat (pos k + 1) = unat (pos k) + 1" using assms(2) by (simp add: unat_word_ariths)
  have "(ucast (pos k + 1) :: u64) = ucast (pos k) + 1"
    using assms(2) suc by (simp add: word_unat_eq_iff unat_word_ariths)
  moreover have "(of_nat (unat (pos k)) :: u64) = ucast (pos k)"
    by (simp add: word_unat_eq_iff unat_of_nat take_bit_nat_eq_self)
  ultimately show "kmemory (kb_store c k) = wr (kmemory k) (ubuf k + of_nat (unat (pos k))) [c, 0]"
    using assms(1) by (simp add: kb_store_def Let_def wr_Cons add.assoc)
  show "unat (pos (kb_store c k)) = unat (pos k) + 1"
    using assms(1) suc by (simp add: kb_store_def Let_def)
qed

lemma consume_plain:
  assumes "listening buf (Suc r) k" "plain c"
  shows "kb_consume c k = (if stop k <s 0 then kb_store c k else (kb_store c k)\<lparr>stop := stop k - 1\<rparr>)"
    "listening buf r (kb_consume c k)"
proof -
  have s: "unat (stop k - 1) = unat (stop k) - 1" "stop k \<noteq> 0" "stop k - 1 \<noteq> 0" if "\<not> stop k <s 0"
    using assms(1) that unat_minus_one [of "stop k"] by (auto simp: listening_def word_unat_eq_iff)
  have m2: "(- 2 :: u32) <s 0" by code_simp
  show eq: "kb_consume c k = (if stop k <s 0 then kb_store c k else (kb_store c k)\<lparr>stop := stop k - 1\<rparr>)"
    using assms s m2 by (auto simp: kb_consume_def listening_def plain_def is_newline_def Let_def)
  have "\<not> stop k - 1 <s 0" if "\<not> stop k <s 0"
    using s [OF that] that by (simp add: negative_32)
  then show "listening buf r (kb_consume c k)"
    unfolding eq using assms(1) s by (auto simp: listening_def)
qed

lemma typed_plain:
  assumes "listening buf (length cs) k" "\<forall>c \<in> set cs. plain c" "unat (pos k) + length cs < 2 ^ 32"
  shows "listening buf 0 (fold kb_consume cs k) \<and> unat (pos (fold kb_consume cs k)) = unat (pos k) + length cs \<and>
    rd (kmemory (fold kb_consume cs k)) (buf + of_nat (unat (pos k))) (length cs) = cs \<and>
    (\<forall>i < unat (pos k). kmemory (fold kb_consume cs k) (buf + of_nat i) = kmemory k (buf + of_nat i))"
  using assms
proof (induction cs arbitrary: k)
  case Nil
  then show ?case by simp
next
  case (Cons c cs)
  let ?k = "kb_consume c k"
  have lis: "listening buf (Suc (length cs)) k" and pl: "plain c" using Cons.prems by simp_all
  note c = consume_plain [OF lis pl]
  have small: "unat (pos k) + 1 < 2 ^ 32" using Cons.prems(3) by simp
  have c8: "c \<noteq> 8" using pl by (simp add: plain_def)
  have ub: "ubuf k = buf" using lis by (simp add: listening_def)
  have m: "kmemory ?k = wr (kmemory k) (buf + of_nat (unat (pos k))) [c, 0]" "unat (pos ?k) = unat (pos k) + 1"
    unfolding c(1) using kb_store_plain [OF c8 small] ub by simp_all
  have IH: "listening buf 0 (fold kb_consume cs ?k)" "unat (pos (fold kb_consume cs ?k)) = unat (pos k) + 1 + length cs"
    "rd (kmemory (fold kb_consume cs ?k)) (buf + of_nat (unat (pos k) + 1)) (length cs) = cs"
    "\<And>i. i < unat (pos k) + 1 \<Longrightarrow> kmemory (fold kb_consume cs ?k) (buf + of_nat i) = kmemory ?k (buf + of_nat i)"
    using Cons.IH [OF c(2)] Cons.prems(2,3) m(2) by simp_all
  have old: "kmemory ?k (buf + of_nat i) = kmemory k (buf + of_nat i)" if "i < unat (pos k)" for i
  proof -
    have "unat (of_nat i - of_nat (unat (pos k)) :: u64) = 2 ^ 64 + i - unat (pos k)"
      using that small by (simp add: unat_sub_if' unat_of_nat take_bit_nat_eq_self)
    then have "\<not> unat (of_nat i - of_nat (unat (pos k)) :: u64) < 2" using small by simp
    then show ?thesis by (simp add: m(1) wr_def)
  qed
  have here: "kmemory ?k (buf + of_nat (unat (pos k))) = c" by (simp add: m(1) wr_def)
  have "rd (kmemory (fold kb_consume cs ?k)) (buf + of_nat (unat (pos k))) (Suc (length cs)) = c # cs"
    using rd_append [of "kmemory (fold kb_consume cs ?k)" "buf + of_nat (unat (pos k))" 1 "length cs"]
      IH(3) IH(4) [of "unat (pos k)"] here by (simp add: add_ac)
  then show ?case using IH(1,2,4) old by simp
qed


lemma consume_newline:
  assumes "listening buf 0 k" "is_newline c"
  shows "\<not> ilock (kb_consume c k)" "kmemory (kb_consume c k) = kmemory (kb_store c k)"
proof -
  have "(- 2 :: u32) <s 0" by code_simp
  then have "ilock k" "ubuf k \<noteq> 0" "stop k \<noteq> -2" "stop k <s 0 \<or> stop k \<noteq> 0"
    using assms(1) by (auto simp: listening_def)
  then show "\<not> ilock (kb_consume c k)" "kmemory (kb_consume c k) = kmemory (kb_store c k)"
    using assms(2) by (auto simp: kb_consume_def Let_def)
qed

lemma nget_request_listens:
  assumes "nget_request buf n k = Some k1" "buf \<noteq> 0" "n \<noteq> -2" "2 ^ 31 \<le> unat n \<or> r < unat n"
  shows "listening buf r k1" "pos k1 = 0" "stop k1 = n"
  using assms by (auto simp: nget_request_def listening_def negative_32 split: if_splits)

lemma nget_line:
  assumes "kb_steps k (Nget buf n # map Key (cs @ [nl])) k'" "buf \<noteq> 0" "unat n < 2 ^ 31"
    and "\<forall>c \<in> set cs. plain c" "is_newline nl" "length cs < unat n"
  shows "\<not> ilock k' \<and> rd (kmemory k') buf (length cs + 2) = cs @ [nl, 0]"
proof -
  obtain k1 where k1: "nget_request buf n k = Some k1" "kb_steps k1 (map Key (cs @ [nl])) k'"
    using assms(1) by (auto simp del: map_append kb_steps_keys)
  then have k': "k' = kb_consume nl (fold kb_consume cs k1)" by (simp del: map_append)
  have n2: "n \<noteq> -2" using assms(3) by auto
  let ?k = "fold kb_consume cs k1"
  note req = nget_request_listens [OF k1(1) assms(2) n2, of "length cs"]
  have t: "listening buf 0 ?k" "unat (pos ?k) = length cs" "rd (kmemory ?k) buf (length cs) = cs"
    using typed_plain [OF req(1) assms(4)] req(2) assms(3,6) by auto
  have nl: "nl \<noteq> 8" using assms(5) by (auto simp: is_newline_def)
  have lim: "length cs + 2 < 2 ^ 32" using assms(3,6) by simp
  have "kmemory k' = wr (kmemory ?k) (buf + of_nat (length cs)) [nl, 0]"
    using consume_newline(2) [OF t(1) assms(5)] kb_store_plain(1) [OF nl, of ?k] t(1,2) lim
    by (simp add: k' listening_def)
  then have "rd (kmemory k') buf (length cs + 2) = cs @ [nl, 0]"
    using rd_wr_behind [of "length cs" "[nl, 0]" "kmemory ?k" buf] t(3) lim by simp
  then show ?thesis using consume_newline(1) [OF t(1) assms(5)] k' by simp
qed

text \<open>
  C33: A line typed to a reader that asked for more characters than the line has: the newline ends
  the request and the buffer holds the line, the newline and a terminator.
\<close>

theorem nget_reads_line:
  assumes "kb_steps k (Nget buf n # map Key (cs @ [nl])) k'" "buf \<noteq> 0" "unat n < 2 ^ 31"
    and "\<forall>c \<in> set cs. plain c" "is_newline nl" "length cs < unat n"
  shows "\<not> ilock k' \<and> rd (kmemory k') buf (length cs + 2) = cs @ [nl, 0]"
  using assms by (rule nget_line)


text \<open>
  A request for 2 GiB or more (other than the reserved value -2) has no limit: its count is
  negative, so the keyboard serves it as a line of any length, and every plain key goes one byte
  further into memory.
\<close>

theorem nget_negative_unbounded:
  assumes "kb_steps k (Nget buf n # map Key cs) k'" "buf \<noteq> 0" "2 ^ 31 \<le> unat n" "n \<noteq> -2"
    and "\<forall>c \<in> set cs. plain c" "length cs < 2 ^ 32"
  shows "ilock k' \<and> rd (kmemory k') buf (length cs) = cs"
proof -
  obtain k1 where k1: "nget_request buf n k = Some k1" "k' = fold kb_consume cs k1"
    using assms(1) by auto
  have neg: "2 ^ 31 \<le> unat n \<or> length cs < unat n" using assms(3) by simp
  note req = nget_request_listens [OF k1(1) assms(2,4) neg]
  show ?thesis
    using typed_plain [OF req(1) assms(5)] req(2) assms(6) k1(2) by (simp add: listening_def)
qed

lemma length_kbdmap: "length kbdmap = 388"
  by (simp add: kbdmap_def)

text \<open>
  The handler indexes the keyboard table outside its 388 bytes exactly for the scan codes
  0x62 to 0x80; every other code has an entry or a meaning of its own.
\<close>

theorem keyboard_table_overrun:
  "kbd_int scancode keys = None \<longleftrightarrow> 0x62 \<le> scancode \<and> scancode \<le> 0x80"
proof -
  let ?i = "scancode - 1"
  have lt: "?i < 0x80 \<longleftrightarrow> unat ?i < 128" by (simp add: word_less_nat_alt)
  have special: "?i \<notin> {0, 0x29, 0x35, 0x1C, 0x37, 0x44, 0x48, 0x50}" if "97 \<le> unat ?i"
    using that by auto
  have idx: "unat ?i * 4 + (if b then 1 else 0) < length kbdmap \<longleftrightarrow> unat ?i < 97" for b
    by (auto simp: length_kbdmap)
  have none: "kbd_int scancode keys = None \<longleftrightarrow> unat ?i < 128 \<and> 97 \<le> unat ?i"
    using special by (auto simp: kbd_int_def Let_def lt idx not_less)
  show ?thesis
  proof (cases "scancode = 0")
    case False
    then have "unat ?i = unat scancode - 1" "0 < unat scancode" by (simp_all add: unat_minus_one unat_gt_0)
    then show ?thesis unfolding none by (auto simp: word_le_nat_alt)
  next
    case True
    moreover have "unat (- 1 :: u8) = 255" by code_simp
    ultimately show ?thesis unfolding none by simp
  qed
qed

lemma nget_witness_steps:
  "kb_steps (keyboard0 m) (Nget 0x1000 n # map Key cs) (fold kb_consume cs
     \<lparr>ilock = True, ubuf = 0x1000, pos = 0, stop = n, logInput = False, kmemory = m\<rparr>)"
  by (simp add: nget_request_def keyboard0_def)

theorem nget_stays_in_buffer_witness:
  "kmemory (fold kb_consume [65, 8, 66, 67, 68, 10, 69]
     \<lparr>ilock = True, ubuf = 0x1000, pos = 0, stop = 4, logInput = False, kmemory = (\<lambda>_. 1)\<rparr>) 0x1005 = 1"
  using nget_stays_in_buffer [OF nget_witness_steps [of "\<lambda>_. 1" 4], of "0x1005" "[65, 8, 66, 67, 68, 10, 69]"]
  by (simp add: keyboard0_def)

theorem nget_ends_witness:
  "\<not> ilock (fold kb_consume [65, 8, 66, 67]
     \<lparr>ilock = True, ubuf = 0x1000, pos = 0, stop = 4, logInput = False, kmemory = (\<lambda>_. 1)\<rparr>)"
  by (rule nget_ends [OF nget_witness_steps]) simp_all

theorem nget_reads_line_witness:
  "\<not> ilock (fold kb_consume ([72, 105] @ [10])
      \<lparr>ilock = True, ubuf = 0x1000, pos = 0, stop = 16, logInput = False, kmemory = (\<lambda>_. 1)\<rparr>) \<and>
   rd (kmemory (fold kb_consume ([72, 105] @ [10])
      \<lparr>ilock = True, ubuf = 0x1000, pos = 0, stop = 16, logInput = False, kmemory = (\<lambda>_. 1)\<rparr>)) 0x1000
     (length [72 :: u8, 105] + 2) = [72, 105] @ [10, 0]"
  by (rule nget_reads_line [OF nget_witness_steps]) (simp_all add: plain_def is_newline_def)

theorem nget_negative_unbounded_witness:
  "ilock (fold kb_consume [72, 105, 33]
      \<lparr>ilock = True, ubuf = 0x1000, pos = 0, stop = 0x80000000, logInput = False, kmemory = (\<lambda>_. 1)\<rparr>) \<and>
   rd (kmemory (fold kb_consume [72, 105, 33]
      \<lparr>ilock = True, ubuf = 0x1000, pos = 0, stop = 0x80000000, logInput = False, kmemory = (\<lambda>_. 1)\<rparr>)) 0x1000
     (length [72 :: u8, 105, 33]) = [72, 105, 33]"
  by (rule nget_negative_unbounded [OF nget_witness_steps]) (simp_all add: plain_def)

end
