(* ===== verification/Arch.thy ===== *)
theory Arch
  imports Prelude
begin

section \<open>Processor tables and small devices: \<open>src/kernel/arch\<close>, \<open>debug.cpp\<close>, \<open>power.cpp\<close>\<close>

text \<open>
  The interrupt descriptor table in memory, the segment descriptor \<open>TSS::init\<close> writes, the
  interrupt controller and timer as the bytes sent to their ports, the debug registers, and the
  reboot sequence.  Addresses the linker chooses (the assembly entry points, the TSS) are
  arguments.  Loading a table register (\<open>lidt\<close>, \<open>ltr\<close>) changes no modelled state.  The texts the
  timer and the breakpoint routines hand to \<open>error\<close> are collected in order.
\<close>

subsection \<open>Selectors, \<open>gdt.h\<close>\<close>

definition SS_DATA :: u16 where "SS_DATA = 8 * 1"
definition SS_CODE64 :: u16 where "SS_CODE64 = 8 * 2"
definition SS_USRDATA :: u16 where "SS_USRDATA = 8 * 6 + 0b11"
definition SS_USRSTACK :: u16 where "SS_USRSTACK = 8 * 7 + 0b11"
definition SS_USRCODE32 :: u16 where "SS_USRCODE32 = 8 * 9 + 0b11"
definition SS_TSS :: u16 where "SS_TSS = 8 * 10"

definition GDTBASE :: u64 where "GDTBASE = 0x5000"
definition IDTBASE :: u64 where "IDTBASE = 0x5800"
definition IDTSIZE :: nat where "IDTSIZE = 0xFF"
definition RING0_STACK_LIM :: u64 where "RING0_STACK_LIM = 0x6000"
definition RING0_STACK :: u64 where "RING0_STACK = 0x6FF8"

subsection \<open>The interrupt descriptor table, \<open>idt.cpp\<close>\<close>

definition INTGATE :: u16 where "INTGATE = 0x8E00"
definition TRAPGATE :: u16 where "TRAPGATE = 0xEF00"

record IDTDesc =
  offset0_15 :: u16
  select :: u16
  type :: u16
  offset16_31 :: u16
  offset32_63 :: u32
  reserved :: u32

definition initDescriptor :: "u16 \<Rightarrow> u64 \<Rightarrow> u16 \<Rightarrow> IDTDesc" where
  "initDescriptor selct offset ty =
     \<lparr>offset0_15 = ucast (offset AND 0xffff), select = selct, type = ty,
      offset16_31 = ucast (drop_bit 16 (offset AND 0xffff0000)),
      offset32_63 = ucast (drop_bit 32 offset), reserved = 0\<rparr>"

definition desc_bytes :: "IDTDesc \<Rightarrow> u8 list" where
  "desc_bytes d = le_bytes 2 (offset0_15 d) @ le_bytes 2 (select d) @ le_bytes 2 (type d) @
     le_bytes 2 (offset16_31 d) @ le_bytes 4 (offset32_63 d) @ le_bytes 4 (reserved d)"

text \<open>The entry points of \<open>interruptWrapper.asm\<close>.\<close>

datatype isr = default_int | reserved_int | exc_DIV0 | exc_DEBUG | exc_BP | exc_NOMATH | exc_MF
  | exc_TSS | exc_SWAP | exc_AC | exc_MC | exc_XM | exc_NMI | exc_OVRFLW | exc_BOUNDS | exc_OPCODE
  | exc_DOUBLEF | exc_STACKF | exc_GP | exc_PF | irq_0 | irq_1 | irq_7 | irq_8
  | irq_hd_op_complete | syscalls

definition idt_named :: "(nat \<times> isr \<times> u16) list" where
  "idt_named =
     [(0, exc_DIV0, INTGATE), (1, exc_DEBUG, INTGATE), (2, exc_NMI, INTGATE), (3, exc_BP, INTGATE),
      (4, exc_OVRFLW, INTGATE), (5, exc_BOUNDS, INTGATE), (6, exc_OPCODE, INTGATE), (7, exc_NOMATH, INTGATE),
      (8, exc_DOUBLEF, INTGATE OR 1), (9, exc_MF, INTGATE), (10, exc_TSS, INTGATE), (11, exc_SWAP, INTGATE),
      (12, exc_STACKF, INTGATE), (13, exc_GP, INTGATE), (14, exc_PF, INTGATE), (16, exc_MF, INTGATE),
      (17, exc_AC, INTGATE), (18, exc_MC, INTGATE), (19, exc_XM, INTGATE),
      (32, irq_0, INTGATE), (33, irq_1, INTGATE), (39, irq_7, INTGATE), (112, irq_8, INTGATE),
      (118, irq_hd_op_complete, INTGATE), (119, irq_hd_op_complete, INTGATE), (48, syscalls, TRAPGATE)]"

definition idt_writes :: "(nat \<times> isr \<times> u16) list" where
  "idt_writes = map (\<lambda>i. (i, reserved_int, INTGATE)) [0..<32] @
     map (\<lambda>i. (i, default_int, INTGATE)) [32..<IDTSIZE] @ idt_named"

definition idt_addr :: "nat \<Rightarrow> u64" where
  "idt_addr i = IDTBASE + of_nat (16 * i)"

definition write_gate :: "(isr \<Rightarrow> u64) \<Rightarrow> nat \<times> isr \<times> u16 \<Rightarrow> mem \<Rightarrow> mem" where
  "write_gate entry = (\<lambda>(i, h, ty) m.
     wr m (idt_addr i) (desc_bytes (initDescriptor SS_CODE64 (ucast (ucast (entry h) :: u32)) ty)))"

text \<open>\<open>idtr\<close> is the base and limit given to the processor.\<close>

definition idtr_limit :: u16 where "idtr_limit = of_nat (IDTSIZE * 8 - 1)"

definition idt_init :: "(isr \<Rightarrow> u64) \<Rightarrow> mem \<Rightarrow> mem" where
  "idt_init entry m =
     (let m = fold (write_gate entry) idt_writes m in memcpy m IDTBASE IDTBASE (unat idtr_limit))"

subsection \<open>The task state segment, \<open>tss.cpp\<close> and \<open>writeDescriptor\<close> of \<open>gdt.asm\<close>\<close>

record TSS =
  rsp0 :: u64
  rsp1 :: u64
  rsp2 :: u64
  ist1 :: u64
  io_map :: u16

text \<open>
  \<open>writeDescriptor\<close>, instruction by instruction: \<open>rdi\<close> holds the base in its high half and
  the limit in its low 20 bits.
\<close>

definition writeDescriptor :: "u64 \<Rightarrow> u8 \<Rightarrow> u8 \<Rightarrow> nat \<Rightarrow> mem \<Rightarrow> mem" where
  "writeDescriptor baseLimite access flags index m =
     (let a = GDTBASE + of_nat (8 * index);
          eax = (drop_bit 16 baseLimite AND NOT (mask 16)) OR (baseLimite AND mask 16);
          m = wr m a (le_bytes 4 eax);
          rdi = word_rotl 16 baseLimite;
          si = push_bit 8 (ucast access) OR (rdi AND mask 8);
          m = wr m (a + 4) (le_bytes 2 si);
          rdx = (push_bit 20 (ucast flags) AND NOT (mask 16)) OR (rdi AND mask 16);
          rdi = drop_bit 32 rdi;
          rdx = word_rotr 16 rdx;
          rdx = rdx OR (rdi AND mask 8)
      in wr m (a + 6) (le_bytes 2 rdx))"

definition tss_init :: "u64 \<Rightarrow> TSS \<Rightarrow> mem \<Rightarrow> TSS \<times> mem" where
  "tss_init addr t m =
     (t\<lparr>io_map := 0, rsp0 := RING0_STACK, rsp1 := RING0_STACK, rsp2 := RING0_STACK, ist1 := addr + 4\<rparr>,
      writeDescriptor (RING0_STACK_LIM div 4096) 0b10010111 0b1101 12
        (writeDescriptor 0 0 0 11
          (writeDescriptor (push_bit 32 addr OR 0x67) 0b11101001 0b0 10 m)))"

subsection \<open>The interrupt controller and the timer, \<open>pic.cpp\<close>\<close>

record pic =
  frequency :: u32
  ready :: bool
  pic_ports :: "(u16 \<times> u8) list"
  pic_errors :: "u8 list list"

definition pic_out :: "(u16 \<times> u8) list \<Rightarrow> pic \<Rightarrow> pic" where
  "pic_out ws p = p\<lparr>pic_ports := pic_ports p @ ws\<rparr>"

definition pic_init :: "pic \<Rightarrow> pic" where
  "pic_init p =
     (pic_out [(0x20, 0x11), (0xA0, 0x11), (0x21, 0x20), (0xA1, 0x70), (0x21, 0x04), (0xA1, 0x02),
        (0x21, 0x01), (0xA1, 0x01), (0x21, 0), (0xA1, 0)] p)\<lparr>ready := True\<rparr>"

definition setFrequency :: "u32 \<Rightarrow> pic \<Rightarrow> pic" where
  "setFrequency hz p =
     (let p = (if \<not> ready p then p\<lparr>pic_errors := pic_errors p @
                 [map of_char ''PIC::setFrequency: The PIC is not ready, call init() first.'' @ [10]]\<rparr> else p);
          divisor = (if hz \<noteq> 0 then 1193180 div hz else 0)
      in (pic_out [(0x43, 0x36), (0x40, ucast (divisor AND 0xFF)), (0x40, ucast (signed_drop_bit 8 divisor))] p)
           \<lparr>frequency := hz\<rparr>)"

definition getFrequency :: "pic \<Rightarrow> u32" where "getFrequency p = frequency p"

subsection \<open>Debug registers, \<open>debug.cpp\<close>\<close>

record debug_regs =
  dr_addr :: "u64 list"
  dr6 :: u64
  dr7 :: u64
  dr_errors :: "u8 list list"

definition dr_error :: "u8 list \<Rightarrow> debug_regs \<Rightarrow> debug_regs" where
  "dr_error msg d = d\<lparr>dr_errors := dr_errors d @ [msg]\<rparr>"

definition enableBreakpoint :: "u8 \<Rightarrow> debug_regs \<Rightarrow> debug_regs" where
  "enableBreakpoint regNum d =
     (if regNum > 3 then dr_error (map of_char ''enableBreakpoint: regNum must be 0,1,2 or 3'') d
      else d\<lparr>dr7 := (dr7 d OR push_bit (2 * unat regNum) 0b11) OR 0x700\<rparr>)"

definition disableBreakpoint :: "u8 \<Rightarrow> debug_regs \<Rightarrow> debug_regs" where
  "disableBreakpoint regNum d =
     (if regNum > 3 then dr_error (map of_char ''disableBreakpoint: regNum must be 0,1,2 or 3'') d
      else d\<lparr>dr7 := dr7 d AND (0xFFFF0FFF - push_bit (2 * unat regNum) 0b11)\<rparr>)"

definition clearBreakpointDR6 :: "debug_regs \<Rightarrow> debug_regs" where
  "clearBreakpointDR6 d = d\<lparr>dr6 := 0xFFFF0FF0\<rparr>"

text \<open>The mask that keeps the other registers' fields of \<open>dr7\<close>; \<open>mode\<close> 0 is \<open>BP_INST\<close>.\<close>

definition bp_mask :: "u8 \<Rightarrow> u64" where
  "bp_mask regNum = (if regNum = 0 then 0xFFF00FFF else if regNum = 1 then 0xFF0F0FFF
     else if regNum = 2 then 0xF0FF0FFF else 0x0FFF0FFF)"

definition setBreakpoint :: "u8 \<Rightarrow> u64 \<Rightarrow> u64 \<Rightarrow> u64 \<Rightarrow> debug_regs \<Rightarrow> debug_regs" where
  "setBreakpoint regNum addr len mode d =
     (if regNum > 3 then dr_error (map of_char ''setBreakpoint: regNum must be 0,1,2 or 3'') d
      else if len > 3 then dr_error (map of_char ''setBreakpoint: len must be 0,1,2 or 3'') d
      else if mode > 3 then dr_error (map of_char ''setBreakpoint: mode must be 0,1,2 or 3'') d
      else if mode = 0 \<and> len \<noteq> 0 then
        dr_error (map of_char ''setBreakpoint: In BP_INST mode the length must be BP_BYTE. Breakpoint not set.'' @ [10]) d
      else
        let lenRw = push_bit (16 + 4 * unat regNum) (push_bit 2 len OR mode)
        in enableBreakpoint regNum
             (d\<lparr>dr_addr := (dr_addr d)[unat regNum := addr],
                dr7 := (dr7 d AND bp_mask regNum) OR lenRw\<rparr>))"

text \<open>\<open>isr_exc_DEBUG\<close>: the register the handler takes the breakpoint from.\<close>

definition breakpoint_hit :: "debug_regs \<Rightarrow> nat option" where
  "breakpoint_hit d =
     (if dr6 d AND 0b1111 = 0 then None
      else if dr6 d AND 0b0001 \<noteq> 0 then Some 0
      else if dr6 d AND 0b0010 \<noteq> 0 then Some 1
      else if dr6 d AND 0b0100 \<noteq> 0 then Some 2
      else Some 3)"

subsection \<open>Rebooting, \<open>power.cpp\<close>\<close>

text \<open>
  The answers of the status port are a stream, read from front to back.  \<open>outb\<close> takes the
  port first and the value second; the calls here pass them the other way round, and the model
  keeps the order the macro uses.  The delays are left out.
\<close>

fun wait_input_clear :: "nat \<Rightarrow> (nat \<Rightarrow> u8) \<Rightarrow> nat \<Rightarrow> nat" where
  "wait_input_clear 0 status n = n"
| "wait_input_clear (Suc j) status n =
     (if status n AND 2 = 0 then Suc n else wait_input_clear j status (Suc n))"

fun keyboard_reset :: "nat \<Rightarrow> (nat \<Rightarrow> u8) \<Rightarrow> nat \<Rightarrow> (u16 \<times> u8) list \<Rightarrow> nat \<times> (u16 \<times> u8) list" where
  "keyboard_reset 0 status n ws = (n, ws)"
| "keyboard_reset (Suc i) status n ws =
     keyboard_reset i status (wait_input_clear 0x10000 status n) (ws @ [(0xfe, 0x64)])"

definition erase_tables :: "mem \<Rightarrow> mem" where
  "erase_tables m = fold (\<lambda>i m. wr m (IDTBASE + of_nat i) (le_bytes 4 (0 :: u32))) [0..<1024] m"

definition reboot :: "(nat \<Rightarrow> u8) \<Rightarrow> u8 \<Rightarrow> mem \<Rightarrow> (u16 \<times> u8) list \<times> mem" where
  "reboot status cf9_in m =
     (let ws = snd (keyboard_reset 10 status 0 []);
          cf9 = cf9_in AND NOT 6 :: u8
      in (ws @ [(ucast (cf9 OR 2), 0xf9), (ucast (cf9 OR 6), 0xf9)], erase_tables m))"


subsection \<open>What the processor finds in the interrupt table\<close>

text \<open>The address a gate at \<open>a\<close> leads to, put together as the processor does, and its type.\<close>

definition gate_target :: "mem \<Rightarrow> u64 \<Rightarrow> u64" where
  "gate_target m a = (le_word (rd m a 2) OR push_bit 16 (le_word (rd m (a + 6) 2))) OR push_bit 32 (le_word (rd m (a + 8) 4))"

definition gate_type :: "mem \<Rightarrow> u64 \<Rightarrow> u16" where
  "gate_type m a = le_word (rd m (a + 4) 2)"

text \<open>Which handler the source means for each vector.\<close>

definition isr_at :: "nat \<Rightarrow> isr \<times> u16" where
  "isr_at i = (case map_of idt_named i of Some g \<Rightarrow> g | None \<Rightarrow> (if i < 32 then reserved_int else default_int, INTGATE))"

lemma length_desc_bytes [simp]: "length (desc_bytes d) = 16"
  by (simp add: desc_bytes_def)

lemma desc_gate:
  assumes "rd m a 16 = desc_bytes (initDescriptor cs off ty)"
  shows "gate_target m a = off" "gate_type m a = ty"
proof -
  let ?d = "initDescriptor cs off ty"
  have r: "rd m a 2 = take 2 (desc_bytes ?d)" "rd m (a + 4) 2 = take 2 (drop 4 (desc_bytes ?d))"
    "rd m (a + 6) 2 = take 2 (drop 6 (desc_bytes ?d))" "rd m (a + 8) 4 = take 4 (drop 8 (desc_bytes ?d))"
    using rd_slice [of 0 2 16 m a] rd_slice [of 4 2 16 m a] rd_slice [of 6 2 16 m a] rd_slice [of 8 4 16 m a] assms
    by simp_all
  have m: "(0xffff :: u64) = mask 16" "(0xffff0000 :: u64) = push_bit 16 (mask 16)"
    by (simp_all add: mask_eq_exp_minus_1 push_bit_eq_mult)
  show "gate_type m a = ty"
    by (simp add: gate_type_def r desc_bytes_def initDescriptor_def le_word_le_bytes_full)
  have parts: "le_word (rd m a 2) = (take_bit 16 off)" "le_word (rd m (a + 6) 2) = take_bit 16 (drop_bit 16 off)"
    "le_word (rd m (a + 8) 4) = drop_bit 32 off"
    by (auto simp: r m desc_bytes_def initDescriptor_def le_word_le_bytes_ucast bit_simps intro!: bit_eqI)
      (drule bit_imp_le_length, simp)
  show "gate_target m a = off"
    unfolding gate_target_def parts
  proof (rule bit_eqI)
    fix n
    show "bit ((take_bit 16 off OR push_bit 16 (take_bit 16 (drop_bit 16 off))) OR push_bit 32 (drop_bit 32 off)) n = bit off n"
      by (cases "n < 32") (auto simp: bit_or_iff bit_push_bit_iff bit_take_bit_iff bit_drop_bit_eq dest: bit_imp_le_length)
  qed
qed

lemma idt_addr_apart: "i < 255 \<Longrightarrow> j < 255 \<Longrightarrow> i \<noteq> j \<Longrightarrow> apart (idt_addr i) 16 (idt_addr j) 16"
proof -
  assume ij: "i < 255" "j < 255" "i \<noteq> j"
  have u: "unat (idt_addr n) = 0x5800 + 16 * n" if "n < 255" for n
    using that by (simp add: idt_addr_def IDTBASE_def unat_word_ariths unat_of_nat take_bit_nat_eq_self)
  show ?thesis
  proof (cases "i < j")
    case True
    then show ?thesis using ij by (intro apart_nat) (simp_all add: u)
  next
    case False
    then have "apart (idt_addr j) 16 (idt_addr i) 16" using ij by (intro apart_nat) (simp_all add: u)
    then show ?thesis by (simp add: apart_sym)
  qed
qed

definition gate_bytes :: "(isr \<Rightarrow> u64) \<Rightarrow> isr \<times> u16 \<Rightarrow> u8 list" where
  "gate_bytes entry = (\<lambda>(h, ty). desc_bytes (initDescriptor SS_CODE64 (ucast (ucast (entry h) :: u32)) ty))"

lemma write_gates:
  assumes "\<forall>(i, g) \<in> set ws. i < 255" "i < 255"
  shows "rd (fold (write_gate entry) ws m) (idt_addr i) 16 =
    (case map_of (rev ws) i of Some g \<Rightarrow> gate_bytes entry g | None \<Rightarrow> rd m (idt_addr i) 16)"
  using assms
proof (induction ws rule: rev_induct)
  case (snoc w ws)
  obtain j h ty where w: "w = (j, h, ty)" by (cases w) auto
  have j: "j < 255" using snoc.prems(1) w by simp
  have wg: "fold (write_gate entry) (ws @ [w]) m = wr (fold (write_gate entry) ws m) (idt_addr j) (gate_bytes entry (h, ty))"
    by (simp add: w write_gate_def gate_bytes_def)
  have len: "length (gate_bytes entry (h, ty)) = 16" by (simp add: gate_bytes_def)
  show ?case
  proof (cases "i = j")
    case True
    have "rd (wr (fold (write_gate entry) ws m) (idt_addr j) (gate_bytes entry (h, ty))) (idt_addr j) 16 =
        gate_bytes entry (h, ty)"
      using rd_wr_same [of "gate_bytes entry (h, ty)"] by (simp add: len)
    then show ?thesis unfolding wg using True by (simp add: w)
  next
    case False
    then have a: "apart (idt_addr j) (length (gate_bytes entry (h, ty))) (idt_addr i) 16"
      using idt_addr_apart [of j i] j snoc.prems(2) len by simp
    show ?thesis unfolding wg using snoc False by (simp add: w rd_wr_apart [OF a])
  qed
qed simp

lemma idt_named_ok: "\<forall>(i, g) \<in> set idt_named. i < 255" "distinct (map fst idt_named)"
  by (simp_all add: idt_named_def)

lemma idt_writes_ok: "\<forall>(i, g) \<in> set idt_writes. i < 255"
  using idt_named_ok(1) by (auto simp: idt_writes_def IDTSIZE_def)

lemma idt_writes_isr_at: "i < 255 \<Longrightarrow> map_of (rev idt_writes) i = Some (isr_at i)"
proof -
  assume "i < 255"
  have "map_of (rev idt_named) = map_of idt_named" using idt_named_ok(2) by (rule map_of_rev_distinct)
  with \<open>i < 255\<close> show ?thesis
    unfolding idt_writes_def isr_at_def rev_append map_of_append map_add_def map_of_tabulate IDTSIZE_def
    by (simp split: option.split)
qed

lemma idt_init_bytes: "i < 255 \<Longrightarrow> rd (idt_init entry m) (idt_addr i) 16 = gate_bytes entry (isr_at i)"
  using write_gates [OF idt_writes_ok, of i entry m] idt_writes_isr_at [of i] by (simp add: idt_init_def Let_def memcpy_self)

text \<open>
  C40: After \<open>IDT::init\<close> every one of the 255 gates leads to the handler the source names for its
  vector (the low 32 bits of its address), with the type given there: a later assignment to an
  entry wins over the default, and no gate overwrites another.
\<close>

theorem idt_gates:
  assumes "i < IDTSIZE"
  shows "gate_target (idt_init entry m) (idt_addr i) = ucast (ucast (entry (fst (isr_at i))) :: u32) \<and>
    gate_type (idt_init entry m) (idt_addr i) = snd (isr_at i)"
  using desc_gate [OF idt_init_bytes [unfolded gate_bytes_def case_prod_beta]] assms by (simp add: IDTSIZE_def)

theorem idt_gates_witness:
  "gate_target (idt_init (\<lambda>h. if h = syscalls then 0x9100 else 0x8200) (\<lambda>_. 0)) (idt_addr 48) = 0x9100"
  using idt_gates [of 48 "\<lambda>h. if h = syscalls then 0x9100 else 0x8200" "\<lambda>_. 0"]
  by (simp add: IDTSIZE_def isr_at_def idt_named_def)

text \<open>
  The table has 16-byte gates but its limit counts 8 bytes for each: the processor sees only the
  first 127 of its 255 gates, and those from vector 128 on lie in the stack of ring 0.
\<close>

theorem idt_limit_short:
  assumes "i < IDTSIZE"
  shows "(16 * i + 15 \<le> unat idtr_limit) = (i < 127) \<and> (RING0_STACK_LIM \<le> idt_addr i) = (128 \<le> i) \<and>
    idt_addr i + 15 < RING0_STACK"
  using assms
  by (auto simp: IDTSIZE_def idtr_limit_def idt_addr_def IDTBASE_def RING0_STACK_LIM_def RING0_STACK_def
      word_le_nat_alt word_less_nat_alt unat_word_ariths unat_of_nat take_bit_nat_eq_self simp del: of_nat_mult)

theorem idt_limit_short_witness: "RING0_STACK_LIM \<le> idt_addr 254 \<and> \<not> 16 * 254 + 15 \<le> unat idtr_limit"
  using idt_limit_short [of 254] by (simp add: IDTSIZE_def)

subsection \<open>The segment descriptor of the TSS\<close>

text \<open>The base and the limit the processor reads from an 8-byte descriptor.\<close>

definition seg_base :: "mem \<Rightarrow> u64 \<Rightarrow> u32" where
  "seg_base m a = (le_word (rd m (a + 2) 3) OR push_bit 24 (ucast (m (a + 7))))"

definition seg_limit :: "mem \<Rightarrow> u64 \<Rightarrow> u32" where
  "seg_limit m a = (le_word (rd m a 2) OR push_bit 16 (ucast (m (a + 6) AND 0xF)))"

definition seg_access :: "mem \<Rightarrow> u64 \<Rightarrow> u8" where "seg_access m a = m (a + 5)"

definition descriptor_bytes :: "u64 \<Rightarrow> u8 \<Rightarrow> u8 \<Rightarrow> u8 list" where
  "descriptor_bytes bl acc fl =
     [ucast bl, ucast (drop_bit 8 bl), ucast (drop_bit 32 bl), ucast (drop_bit 40 bl), ucast (drop_bit 48 bl), acc,
      ucast (push_bit 4 (ucast fl :: u64) OR drop_bit 16 bl), ucast (drop_bit 4 fl)]"

lemma length_descriptor_bytes [simp]: "length (descriptor_bytes bl acc fl) = 8"
  by (simp add: descriptor_bytes_def)

lemma writeDescriptor_bytes:
  "writeDescriptor bl acc fl index m = wr m (GDTBASE + of_nat (8 * index)) (descriptor_bytes bl acc fl)"
proof -
  let ?a = "GDTBASE + of_nat (8 * index) :: u64"
  let ?eax = "(drop_bit 16 bl AND NOT (mask 16)) OR (bl AND mask 16)"
  let ?rdi = "word_rotl 16 bl"
  let ?si = "push_bit 8 (ucast acc) OR (?rdi AND mask 8) :: u64"
  let ?dx = "word_rotr 16 ((push_bit 20 (ucast fl) AND NOT (mask 16)) OR (?rdi AND mask 16)) OR (drop_bit 32 ?rdi AND mask 8) :: u64"
  have rot: "bit ?rdi n = bit bl (if n < 16 then n + 48 else n - 16)" if "n < 64" for n
    using that by (auto simp: bit_word_rotl_iff mod_if)
  have rot2: "bit (word_rotr 16 w) n = bit w (if n < 48 then n + 16 else n - 48)" if "n < 64" for n and w :: u64
    using that by (auto simp: bit_word_rotr_iff mod_if)
  have e: "ucast ?eax = (ucast bl :: u8)" "ucast (drop_bit 8 ?eax) = (ucast (drop_bit 8 bl) :: u8)"
    "ucast (drop_bit 16 ?eax) = (ucast (drop_bit 32 bl) :: u8)" "ucast (drop_bit 24 ?eax) = (ucast (drop_bit 40 bl) :: u8)"
    by (auto simp: bit_simps intro!: bit_eqI)
  have s: "ucast ?si = (ucast (drop_bit 48 bl) :: u8)" "ucast (drop_bit 8 ?si) = (acc :: u8)"
    by (auto simp: bit_simps rot add.commute [of 48] intro!: bit_eqI)
  have d: "ucast ?dx = (ucast (push_bit 4 (ucast fl :: u64) OR drop_bit 16 bl) :: u8)"
    "ucast (drop_bit 8 ?dx) = (ucast (drop_bit 4 fl) :: u8)"
    by (auto simp: bit_simps rot rot2 mod_if add.commute [of 48] intro!: bit_eqI)
  have b: "le_bytes 4 ?eax @ le_bytes 2 ?si @ le_bytes 2 ?dx = descriptor_bytes bl acc fl"
    using e s d by (simp add: descriptor_bytes_def eval_nat_numeral)
  show ?thesis
    unfolding writeDescriptor_def Let_def b [symmetric] by (simp add: wr_append add.assoc)
qed

text \<open>
  The descriptor the assembly routine writes: the processor reads back the access byte and the
  20 bits of the limit, but only the low 24 of the 32 bits of the base.
\<close>

theorem writeDescriptor_reads:
  assumes "fl < 16"
  shows "seg_base (writeDescriptor bl acc fl index m) (GDTBASE + of_nat (8 * index)) = take_bit 24 (ucast (drop_bit 32 bl)) \<and>
   seg_limit (writeDescriptor bl acc fl index m) (GDTBASE + of_nat (8 * index)) = take_bit 20 (ucast bl) \<and>
   seg_access (writeDescriptor bl acc fl index m) (GDTBASE + of_nat (8 * index)) = acc"
proof -
  let ?m = "writeDescriptor bl acc fl index m" and ?a = "GDTBASE + of_nat (8 * index) :: u64"
  have r: "rd ?m ?a 8 = descriptor_bytes bl acc fl"
    using rd_wr_same [of "descriptor_bytes bl acc fl" m ?a] by (simp add: writeDescriptor_bytes)
  have r2: "rd ?m ?a 2 = take 2 (descriptor_bytes bl acc fl)" "rd ?m (?a + 2) 3 = take 3 (drop 2 (descriptor_bytes bl acc fl))"
    using rd_slice [of 0 2 8 ?m ?a] rd_slice [of 2 3 8 ?m ?a] r by simp_all
  have "rd ?m (?a + 5) 1 = take 1 (drop 5 (descriptor_bytes bl acc fl))"
    "rd ?m (?a + 6) 1 = take 1 (drop 6 (descriptor_bytes bl acc fl))"
    "rd ?m (?a + 7) 1 = take 1 (drop 7 (descriptor_bytes bl acc fl))"
    using rd_slice [of 5 1 8 ?m ?a] rd_slice [of 6 1 8 ?m ?a] rd_slice [of 7 1 8 ?m ?a] r by simp_all
  then have m: "?m (?a + 5) = acc" "?m (?a + 6) = ucast (push_bit 4 (ucast fl :: u64) OR drop_bit 16 bl)"
    "?m (?a + 7) = ucast (drop_bit 4 fl)"
    by (simp_all add: descriptor_bytes_def rd_1 eval_nat_numeral)
  have fl: "drop_bit 4 fl = 0" using assms by (simp add: drop_bit_eq_div word_less_nat_alt word_arith_nat_div)
  have "seg_base ?m ?a = (ucast (ucast (drop_bit 32 bl) :: u8) OR push_bit 8 (ucast (ucast (drop_bit 40 bl) :: u8) OR
      push_bit 8 (ucast (ucast (drop_bit 48 bl) :: u8) OR push_bit 8 0)))"
    unfolding seg_base_def r2 m fl by (simp add: descriptor_bytes_def eval_nat_numeral)
  also have "... = take_bit 24 (ucast (drop_bit 32 bl))"
    by (rule bit_eqI, simp only: bit_simps) auto
  finally have base: "seg_base ?m ?a = take_bit 24 (ucast (drop_bit 32 bl))" .
  have "seg_limit ?m ?a = (ucast (ucast bl :: u8) OR push_bit 8 (ucast (ucast (drop_bit 8 bl) :: u8) OR push_bit 8 0)) OR
     push_bit 16 (ucast ((ucast (push_bit 4 (ucast fl :: u64) OR drop_bit 16 bl) :: u8) AND mask 4))"
    unfolding seg_limit_def r2 m by (simp add: descriptor_bytes_def mask_eq_exp_minus_1)
  also have "... = take_bit 20 (ucast bl)"
    by (rule bit_eqI, simp only: bit_simps) auto
  finally show ?thesis using base m by (simp add: seg_access_def)
qed

theorem writeDescriptor_reads_witness:
  "seg_base (writeDescriptor 0x8123456000000067 0xE9 0 10 (\<lambda>_. 0)) (GDTBASE + of_nat (8 * 10)) = 0x234560"
  using writeDescriptor_reads [of 0 "0x8123456000000067" "0xE9" 10 "\<lambda>_. 0"] by simp

subsection \<open>The timer\<close>

text \<open>
  \<open>PIC::setFrequency\<close> sends the mode byte and then both bytes of the divisor 1193180 / hz,
  low byte first and modulo 2^16.
\<close>

theorem setFrequency_divisor:
  "\<exists>lo hi. pic_ports (setFrequency hz p) = pic_ports p @ [(0x43, 0x36), (0x40, lo), (0x40, hi)] \<and>
     unat lo + 256 * unat hi = (1193180 div unat hz) mod 65536 \<and> getFrequency (setFrequency hz p) = hz"
proof -
  define d where "d = (if hz \<noteq> 0 then 1193180 div hz else 0)"
  have d: "unat d = 1193180 div unat hz" by (simp add: d_def unat_div)
  have hi: "ucast (signed_drop_bit 8 d) = (ucast (drop_bit 8 d) :: u8)"
    by (auto simp: bit_simps intro!: bit_eqI)
  have "unat (ucast (d AND 0xFF) :: u8) + 256 * unat (ucast (drop_bit 8 d) :: u8) = unat d mod 65536"
  proof -
    have "d AND 0xFF = take_bit 8 d" by (simp add: take_bit_eq_mask mask_eq_exp_minus_1)
    then have "unat (ucast (d AND 0xFF) :: u8) = unat d mod 256"
      by (simp add: unsigned_ucast_eq unsigned_take_bit_eq take_bit_eq_mod unat_mod)
    moreover have "unat (ucast (drop_bit 8 d) :: u8) = unat d div 256 mod 256"
      by (simp add: unsigned_ucast_eq unsigned_drop_bit_eq take_bit_eq_mod drop_bit_eq_div unat_div)
    moreover have "unat d mod (256 * 256) = 256 * (unat d div 256 mod 256) + unat d mod 256" by (rule mod_mult2_eq)
    ultimately show ?thesis by simp
  qed
  then show ?thesis by (simp add: setFrequency_def pic_out_def Let_def d_def [symmetric] hi d getFrequency_def)
qed

subsection \<open>Rebooting\<close>

lemma keyboard_reset_ports: "fst ` set (snd (keyboard_reset i status n ws)) \<subseteq> fst ` set ws \<union> {0xfe}"
  by (induction i status n ws rule: keyboard_reset.induct) auto

text \<open>
  The reset commands never reach the devices: no byte goes to port 0x64 of the keyboard
  controller or to port 0xcf9, because the port and the value are exchanged in every \<open>outb\<close>.
\<close>

theorem reboot_misses_ports: "fst ` set (fst (reboot status cf9 m)) \<inter> {0x64, 0xcf9} = {}"
proof -
  have b: "bit (ucast (w OR 2) :: u16) 1" "bit (ucast (w OR 6) :: u16) 1" for w :: u8
    by (simp_all add: bit_simps)
  have "ucast (w OR 2) \<noteq> (0x64 :: u16)" "ucast (w OR 6) \<noteq> (0x64 :: u16)" "ucast (w OR 2) \<noteq> (0xcf9 :: u16)"
    "ucast (w OR 6) \<noteq> (0xcf9 :: u16)" for w :: u8
    using b [of w] by (auto dest: arg_cong [of _ _ "\<lambda>x. bit x 1"])
  then show ?thesis
    using keyboard_reset_ports [of 10 status 0 "[]"] by (auto simp: reboot_def Let_def)
qed

end
