(* ===== verification/HumanReadable.thy ===== *)
theory HumanReadable
  imports Prelude
begin

section \<open>Sizes as text: \<open>src/kernel/lib/humanReadable.cpp\<close>\<close>

text \<open>
  Both routines fill the caller's buffer from its end and return a pointer to the first
  character.  \<open>store_back\<close> is \<open>buf[cidx--] = c\<close>.
\<close>

definition store_back :: "u64 \<Rightarrow> u8 \<Rightarrow> mem \<times> int \<Rightarrow> mem \<times> int" where
  "store_back buf c = (\<lambda>(m, cidx). (m(buf + of_int cidx := c), cidx - 1))"

function scale_down :: "u64 \<Rightarrow> u64 \<Rightarrow> nat \<Rightarrow> u64 \<times> nat" where
  "scale_down unit sz idx =
     (if 1 < unit \<and> sz > 10 * unit then scale_down unit (sz div unit) (Suc idx) else (sz, idx))"
  by pat_completeness auto
termination
proof (relation "measure (\<lambda>(unit, sz, idx). unat sz)", goal_cases)
  case (2 unit sz idx)
  have "1 < unat unit" "0 < unat sz"
    using 2 by (auto simp: word_less_nat_alt)
  then show ?case by (simp add: unat_div)
qed simp

function digits_back :: "u64 \<Rightarrow> u64 \<Rightarrow> mem \<times> int \<Rightarrow> mem \<times> int" where
  "digits_back buf sz s =
     (if sz > 0 then digits_back buf (sz div 10) (store_back buf (of_char CHR ''0'' + ucast (sz mod 10)) s) else s)"
  by pat_completeness auto
termination
  by (relation "measure (\<lambda>(buf, sz, s). unat sz)") (auto simp: unat_div word_less_nat_alt)

declare scale_down.simps [simp del] digits_back.simps [simp del]

definition number_back :: "u64 \<Rightarrow> u64 \<Rightarrow> mem \<times> int \<Rightarrow> mem \<times> int" where
  "number_back buf sz s = (if sz = 0 then store_back buf (of_char CHR ''0'') s else digits_back buf sz s)"

definition iec_indexes :: "u8 list" where "iec_indexes = map of_char '' KMGTPE''"
definition si_indexes :: "u8 list" where "si_indexes = map of_char '' kMGTPE''"

definition toIEC :: "mem \<Rightarrow> u64 \<Rightarrow> u32 \<Rightarrow> u64 \<Rightarrow> mem \<times> u64" where
  "toIEC m buf bufSize sz =
     (let (sz, idx) = scale_down 1024 sz 0;
          s = store_back buf (of_char CHR ''B'') (store_back buf 0 (m, sint (bufSize - 1)));
          s = (if idx \<noteq> 0 then store_back buf (iec_indexes ! idx) (store_back buf (of_char CHR ''i'') s) else s);
          (m, cidx) = number_back buf sz (store_back buf (of_char CHR '' '') s)
      in (m, buf + of_int cidx + 1))"

definition toSI :: "mem \<Rightarrow> u64 \<Rightarrow> u32 \<Rightarrow> u64 \<Rightarrow> mem \<times> u64" where
  "toSI m buf bufSize sz =
     (let (sz, idx) = scale_down 1000 sz 0;
          s = store_back buf (of_char CHR ''B'') (store_back buf 0 (m, sint (bufSize - 1)));
          s = (if idx \<noteq> 0 then store_back buf (si_indexes ! idx) s else s);
          (m, cidx) = number_back buf sz (store_back buf (of_char CHR '' '') s)
      in (m, buf + of_int cidx + 1))"

end
