(* ===== verification/Lists.thy ===== *)
theory Lists
  imports Prelude
begin

section \<open>The linked list: \<open>src/kernel/lib/llist.h\<close>\<close>

text \<open>
  A list is a header cell followed by one cell per element, linked both ways; \<open>0\<close> is the null
  pointer.  The cells live in an explicit store, so that aliasing and use of a deleted cell
  show: an access through a null or deleted pointer is \<open>None\<close>, as is \<open>fatalError\<close>.  The data
  of a header cell is never initialised by the source and never read.
\<close>

record 'a cell =
  nxt :: nat
  prv :: nat
  dat :: 'a

record 'a store =
  cells :: "nat \<Rightarrow> 'a cell option"
  fresh :: nat

definition get_cell :: "nat \<Rightarrow> 'a store \<Rightarrow> 'a cell option" where
  "get_cell p h = (if p = 0 then None else cells h p)"

definition put_nxt :: "nat \<Rightarrow> nat \<Rightarrow> 'a store \<Rightarrow> 'a store option" where
  "put_nxt p v h = do { c \<leftarrow> get_cell p h; Some (h\<lparr>cells := (cells h)(p \<mapsto> c\<lparr>nxt := v\<rparr>)\<rparr>) }"

definition put_prv :: "nat \<Rightarrow> nat \<Rightarrow> 'a store \<Rightarrow> 'a store option" where
  "put_prv p v h = do { c \<leftarrow> get_cell p h; Some (h\<lparr>cells := (cells h)(p \<mapsto> c\<lparr>prv := v\<rparr>)\<rparr>) }"

definition delete_cell :: "nat \<Rightarrow> 'a store \<Rightarrow> 'a store option" where
  "delete_cell p h = do { _ \<leftarrow> get_cell p h; Some (h\<lparr>cells := (cells h)(p := None)\<rparr>) }"

text \<open>\<open>new llist\<close> and the assignments to the new cell that follow it.\<close>

definition new_cell :: "nat \<Rightarrow> nat \<Rightarrow> 'a \<Rightarrow> 'a store \<Rightarrow> nat \<times> 'a store" where
  "new_cell n p x h =
     (fresh h, h\<lparr>cells := (cells h)(fresh h \<mapsto> \<lparr>nxt = n, prv = p, dat = x\<rparr>), fresh := Suc (fresh h)\<rparr>)"

subsection \<open>Observers\<close>

partial_function (option) count_from :: "nat \<Rightarrow> u32 \<Rightarrow> 'a store \<Rightarrow> u32 option" where
  "count_from i j h = do {
     c \<leftarrow> get_cell i h;
     if nxt c = 0 then Some j else count_from (nxt c) (j + 1) h }"

definition llist_size :: "nat \<Rightarrow> 'a store \<Rightarrow> u32 option" where
  "llist_size this h = do {
     c \<leftarrow> get_cell this h;
     if nxt c = 0 then Some 0 else count_from this 0 h }"

definition isEmpty :: "nat \<Rightarrow> 'a store \<Rightarrow> bool option" where
  "isEmpty this h = do { c \<leftarrow> get_cell this h; Some (nxt c = 0) }"

text \<open>The bounds-checked walk of \<open>at\<close> and \<open>removeAt\<close>: the cell \<open>n\<close> links further.\<close>

fun seek_checked :: "nat \<Rightarrow> nat \<Rightarrow> 'a store \<Rightarrow> nat option" where
  "seek_checked i 0 h = Some i"
| "seek_checked i (Suc n) h = do {
     c \<leftarrow> get_cell i h;
     if nxt c = 0 then None else seek_checked (nxt c) n h }"

text \<open>\<open>at\<close> of an empty list returns \<open>0\<close>, which the argument \<open>zero\<close> stands for.\<close>

definition at :: "'a \<Rightarrow> nat \<Rightarrow> u32 \<Rightarrow> 'a store \<Rightarrow> 'a option" where
  "at zero this pos h = do {
     c \<leftarrow> get_cell this h;
     if nxt c = 0 then Some zero else do {
       i \<leftarrow> seek_checked (nxt c) (unat pos) h;
       c \<leftarrow> get_cell i h;
       Some (dat c) } }"

fun seek :: "nat \<Rightarrow> nat \<Rightarrow> 'a store \<Rightarrow> nat option" where
  "seek i 0 h = Some i"
| "seek i (Suc n) h = do { c \<leftarrow> get_cell i h; seek (nxt c) n h }"

definition index :: "nat \<Rightarrow> u32 \<Rightarrow> 'a store \<Rightarrow> 'a option" where
  "index this pos h = do {
     c \<leftarrow> get_cell this h;
     i \<leftarrow> seek (nxt c) (unat pos) h;
     c \<leftarrow> get_cell i h;
     Some (dat c) }"

subsection \<open>Insertion\<close>

definition prepend :: "nat \<Rightarrow> 'a \<Rightarrow> 'a store \<Rightarrow> 'a store option" where
  "prepend this x h = do {
     c \<leftarrow> get_cell this h;
     let (n, h) = new_cell (nxt c) this x h;
     h \<leftarrow> (if nxt c \<noteq> 0 then put_prv (nxt c) n h else Some h);
     put_nxt this n h }"

partial_function (option) last_cell :: "nat \<Rightarrow> 'a store \<Rightarrow> nat option" where
  "last_cell i h = do {
     c \<leftarrow> get_cell i h;
     if nxt c = 0 then Some i else last_cell (nxt c) h }"

definition append_list :: "nat \<Rightarrow> 'a \<Rightarrow> 'a store \<Rightarrow> 'a store option" where
  "append_list this x h = do {
     c \<leftarrow> get_cell this h;
     i \<leftarrow> (if nxt c = 0 then Some this else last_cell (nxt c) h);
     let (n, h) = new_cell 0 i x h;
     put_nxt i n h }"

text \<open>The walk of \<open>insert\<close>; the second result says that the new element goes behind the cell.\<close>

fun insert_seek :: "nat \<Rightarrow> nat \<Rightarrow> 'a store \<Rightarrow> (nat \<times> bool) option" where
  "insert_seek i 0 h = Some (i, False)"
| "insert_seek i (Suc n) h = do {
     c \<leftarrow> get_cell i h;
     if nxt c = 0 then (if n = 0 then Some (i, True) else None) else insert_seek (nxt c) n h }"

definition insert_at :: "nat \<Rightarrow> u32 \<Rightarrow> 'a \<Rightarrow> 'a store \<Rightarrow> 'a store option" where
  "insert_at this pos x h =
     (if pos = 0 then prepend this x h else do {
        c \<leftarrow> get_cell this h;
        if nxt c = 0 then Some h else do {
          (i, behind) \<leftarrow> insert_seek (nxt c) (unat pos) h;
          if behind then (let (n, h) = new_cell 0 i x h in put_nxt i n h)
          else do {
            c \<leftarrow> get_cell i h;
            let (n, h) = new_cell i (prv c) x h;
            h \<leftarrow> put_nxt (prv c) n h;
            put_prv i n h } } })"

subsection \<open>Removal\<close>

definition removeLast :: "nat \<Rightarrow> 'a store \<Rightarrow> 'a store option" where
  "removeLast this h = do {
     c \<leftarrow> get_cell this h;
     if nxt c = 0 then Some h else do {
       i \<leftarrow> last_cell (nxt c) h;
       c \<leftarrow> get_cell i h;
       h \<leftarrow> put_nxt (prv c) 0 h;
       delete_cell i h } }"

definition removeFirst :: "nat \<Rightarrow> 'a store \<Rightarrow> 'a store option" where
  "removeFirst this h = do {
     c \<leftarrow> get_cell this h;
     first \<leftarrow> get_cell (nxt c) h;
     if nxt first \<noteq> 0 then do {
       h \<leftarrow> put_nxt this (nxt first) h;
       second \<leftarrow> get_cell (nxt first) h;
       h \<leftarrow> delete_cell (prv second) h;
       put_prv (nxt first) this h }
     else do {
       h \<leftarrow> delete_cell (nxt c) h;
       put_nxt this 0 h } }"

definition removeAt :: "nat \<Rightarrow> u32 \<Rightarrow> 'a store \<Rightarrow> 'a store option" where
  "removeAt this ix h = do {
     c \<leftarrow> get_cell this h;
     if nxt c = 0 then Some h
     else if ix = 0 then removeFirst this h
     else do {
       i \<leftarrow> seek_checked (nxt c) (unat ix) h;
       c \<leftarrow> get_cell i h;
       h \<leftarrow> put_nxt (prv c) (nxt c) h;
       h \<leftarrow> (if nxt c \<noteq> 0 then put_prv (nxt c) (prv c) h else Some h);
       delete_cell i h } }"

partial_function (option) empty_list :: "nat \<Rightarrow> 'a store \<Rightarrow> 'a store option" where
  "empty_list this h = do {
     n \<leftarrow> llist_size this h;
     if n = 0 then Some h else do { h \<leftarrow> removeFirst this h; empty_list this h } }"


subsection \<open>Linked segments of the store\<close>

text \<open>
  \<open>dseg q p ps xs q' p' h\<close>: starting from the pointer \<open>p\<close> found in the cell \<open>q\<close>, the cells
  \<open>ps\<close> hold the elements \<open>xs\<close>, each linked back to the one before; the last cell is \<open>q'\<close>,
  and the pointer it holds is \<open>p'\<close>.
\<close>

fun dseg :: "nat \<Rightarrow> nat \<Rightarrow> nat list \<Rightarrow> 'a list \<Rightarrow> nat \<Rightarrow> nat \<Rightarrow> 'a store \<Rightarrow> bool" where
  "dseg q p [] [] q' p' h \<longleftrightarrow> q = q' \<and> p = p'"
| "dseg q p (a # ps) (x # xs) q' p' h \<longleftrightarrow>
     p = a \<and> a \<noteq> 0 \<and> (\<exists>n. cells h a = Some \<lparr>nxt = n, prv = q, dat = x\<rparr> \<and> dseg a n ps xs q' p' h)"
| "dseg q p _ _ q' p' h \<longleftrightarrow> False"

definition list_cells :: "nat \<Rightarrow> nat list \<Rightarrow> 'a list \<Rightarrow> 'a store \<Rightarrow> bool" where
  "list_cells this ps xs h \<longleftrightarrow> this \<noteq> 0 \<and> distinct (this # ps) \<and> fresh h \<noteq> 0 \<and> (\<forall>p \<ge> fresh h. cells h p = None) \<and>
     (\<exists>c l. cells h this = Some c \<and> dseg this (nxt c) ps xs l 0 h)"

definition list_at :: "nat \<Rightarrow> 'a list \<Rightarrow> 'a store \<Rightarrow> bool" where
  "list_at this xs h \<longleftrightarrow> (\<exists>ps. list_cells this ps xs h)"

lemma dseg_length: "dseg q p ps xs q' p' h \<Longrightarrow> length ps = length xs"
  by (induction q p ps xs q' p' h rule: dseg.induct) auto

lemma dseg_append:
  "length ps = length xs \<Longrightarrow>
   dseg q p (ps @ rs) (xs @ ys) q' p' h \<longleftrightarrow> (\<exists>m n. dseg q p ps xs m n h \<and> dseg m n rs ys q' p' h)"
  by (induction ps xs arbitrary: q p rule: list_induct2) auto

lemma dseg_frame:
  assumes "\<And>a. a \<in> set ps \<Longrightarrow> cells h' a = cells h a"
  shows "dseg q p ps xs q' p' h' = dseg q p ps xs q' p' h"
  using assms by (induction q p ps xs q' p' h rule: dseg.induct) auto

lemma dseg_upd [simp]: "a \<notin> set ps \<Longrightarrow> dseg q p ps xs q' p' (h\<lparr>cells := (cells h)(a := v)\<rparr>) = dseg q p ps xs q' p' h"
  by (rule dseg_frame) auto

lemma dseg_fresh [simp]: "dseg q p ps xs q' p' (h\<lparr>fresh := n\<rparr>) = dseg q p ps xs q' p' h"
  by (rule dseg_frame) auto

lemma dseg_cells: "dseg q p ps xs q' p' h \<Longrightarrow> a \<in> set ps \<Longrightarrow> a \<noteq> 0 \<and> cells h a \<noteq> None"
  by (induction q p ps xs q' p' h rule: dseg.induct) auto

lemma dseg_first: "dseg q p ps xs q' p' h \<Longrightarrow> p = (if ps = [] then p' else hd ps)"
  by (induction q p ps xs q' p' h rule: dseg.induct) auto

lemma dseg_last: "dseg q p ps xs q' p' h \<Longrightarrow> q' = last (q # ps)"
  by (induction q p ps xs q' p' h rule: dseg.induct) auto

lemma dseg_end_zero: "dseg q p ps xs q' 0 h \<Longrightarrow> p = 0 \<longleftrightarrow> ps = []"
  by (cases ps; cases xs) auto

lemma count_from_dseg:
  "dseg q p ps xs l 0 h \<Longrightarrow> q \<noteq> 0 \<Longrightarrow> cells h q = Some c \<Longrightarrow> nxt c = p \<Longrightarrow> count_from q j h = Some (j + of_nat (length xs))"
proof (induction ps arbitrary: q p xs c j)
  case Nil
  then show ?case by (cases xs; subst count_from.simps) (simp_all add: get_cell_def)
next
  case (Cons a ps)
  then obtain x ys where xs: "xs = x # ys" by (cases xs) auto
  with Cons.prems obtain n where n: "p = a" "a \<noteq> 0" "cells h a = Some \<lparr>nxt = n, prv = q, dat = x\<rparr>" "dseg a n ps ys l 0 h" by auto
  have "count_from a (j + 1) h = Some (j + 1 + of_nat (length ys))" by (rule Cons.IH [OF n(4) n(2,3)]) simp
  then show ?case using Cons.prems(2-4) n(1,2) by (subst count_from.simps) (simp add: get_cell_def xs)
qed

lemma last_cell_dseg:
  "dseg q p ps xs l 0 h \<Longrightarrow> ps \<noteq> [] \<Longrightarrow> last_cell p h = Some l"
proof (induction ps arbitrary: q p xs)
  case (Cons a ps)
  then obtain x ys where xs: "xs = x # ys" by (cases xs) auto
  with Cons.prems obtain n where n: "p = a" "a \<noteq> 0" "cells h a = Some \<lparr>nxt = n, prv = q, dat = x\<rparr>" "dseg a n ps ys l 0 h" by auto
  show ?case
  proof (cases "ps = []")
    case True
    then show ?thesis using n by (cases ys; subst last_cell.simps) (auto simp: get_cell_def)
  next
    case False
    have "n \<noteq> 0" using dseg_end_zero [OF n(4)] False by simp
    then show ?thesis using n Cons.IH [OF n(4) False] by (subst last_cell.simps) (simp add: get_cell_def)
  qed
qed simp

lemma dseg_split:
  assumes "dseg q p ps xs l e h" "n \<le> length xs"
  obtains m r where "dseg q p (take n ps) (take n xs) m r h" "dseg m r (drop n ps) (drop n xs) l e h"
  using assms dseg_append [of "take n ps" "take n xs" q p "drop n ps" "drop n xs" l e h] dseg_length [OF assms(1)]
  by auto

lemma seek_dseg:
  "dseg q p ps xs m r h \<Longrightarrow> seek p (length xs + n) h = seek r n h"
  by (induction q p ps xs m r h rule: dseg.induct) (auto simp: get_cell_def)

lemma dseg_nonzero: "dseg q p ps xs m r h \<Longrightarrow> r \<noteq> 0 \<Longrightarrow> p \<noteq> 0"
  by (induction q p ps xs m r h rule: dseg.induct) auto

lemma seek_checked_dseg:
  "dseg q p ps xs m r h \<Longrightarrow> r \<noteq> 0 \<Longrightarrow> seek_checked p (length xs + n) h = seek_checked r n h"
  by (induction q p ps xs m r h rule: dseg.induct) (auto simp: get_cell_def dest: dseg_nonzero)

lemma insert_seek_dseg:
  "dseg q p ps xs m r h \<Longrightarrow> r \<noteq> 0 \<Longrightarrow> insert_seek p (length xs + n) h = insert_seek r n h"
  by (induction q p ps xs m r h rule: dseg.induct) (auto simp: get_cell_def dest: dseg_nonzero)


subsection \<open>The operations on a list\<close>

lemma list_cellsE:
  assumes "list_cells this ps xs h"
  obtains c l where "get_cell this h = Some c" "cells h this = Some c" "dseg this (nxt c) ps xs l 0 h" "this \<noteq> 0"
    "this \<notin> set ps" "distinct ps" "nxt c = 0 \<longleftrightarrow> xs = []" "length ps = length xs" "fresh h \<noteq> 0" "cells h (fresh h) = None"
    "fresh h \<noteq> this" "fresh h \<notin> set ps" "\<forall>p \<ge> fresh h. cells h p = None"
proof -
  from assms obtain c l where c: "cells h this = Some c" "dseg this (nxt c) ps xs l 0 h" "this \<noteq> 0" "distinct (this # ps)"
    "fresh h \<noteq> 0" "\<forall>p \<ge> fresh h. cells h p = None"
    by (auto simp: list_cells_def)
  have "nxt c = 0 \<longleftrightarrow> xs = []" using dseg_end_zero [OF c(2)] dseg_length [OF c(2)] by auto
  moreover have "cells h (fresh h) = None" using c(6) by simp
  moreover from this have "fresh h \<noteq> this" "fresh h \<notin> set ps" using c(1) dseg_cells [OF c(2), of "fresh h"] by auto
  ultimately show thesis using that [of c l] c dseg_length [OF c(2)] by (auto simp: get_cell_def)
qed

lemma size_list: "list_at this xs h \<Longrightarrow> llist_size this h = Some (of_nat (length xs))"
  unfolding list_at_def
  by (elim exE list_cellsE) (auto simp: llist_size_def count_from_dseg)

lemma isEmpty_list: "list_at this xs h \<Longrightarrow> isEmpty this h = Some (xs = [])"
  unfolding list_at_def by (elim exE list_cellsE) (auto simp: isEmpty_def)

lemma seek_nth:
  assumes "dseg q p ps xs l 0 h" "n < length xs"
  obtains m r r' where "seek p n h = Some (ps ! n)" "seek_checked p n h = Some (ps ! n)"
    "dseg q p (take n ps) (take n xs) m (ps ! n) h" "ps ! n \<noteq> 0"
    "cells h (ps ! n) = Some \<lparr>nxt = r', prv = m, dat = xs ! n\<rparr>" "dseg (ps ! n) r' (drop (Suc n) ps) (drop (Suc n) xs) l 0 h"
proof -
  obtain m r where mr: "dseg q p (take n ps) (take n xs) m r h" "dseg m r (drop n ps) (drop n xs) l 0 h"
    using dseg_split [of q p ps xs l 0 h n] assms by auto
  have l: "length ps = length xs" using dseg_length [OF assms(1)] .
  then have d: "drop n ps = ps ! n # drop (Suc n) ps" "drop n xs = xs ! n # drop (Suc n) xs"
    using assms(2) by (simp_all add: Cons_nth_drop_Suc)
  from mr(2) obtain r' where r: "r = ps ! n" "ps ! n \<noteq> 0" "cells h (ps ! n) = Some \<lparr>nxt = r', prv = m, dat = xs ! n\<rparr>"
    "dseg (ps ! n) r' (drop (Suc n) ps) (drop (Suc n) xs) l 0 h" by (auto simp: d)
  show thesis
    using that [of m r'] r mr(1) seek_dseg [OF mr(1), of 0] seek_checked_dseg [OF mr(1), of 0] assms(2) by (simp add: min_def)
qed

lemma seek_checked_out:
  "dseg q p ps xs l 0 h \<Longrightarrow> xs \<noteq> [] \<Longrightarrow> length xs \<le> n \<Longrightarrow> seek_checked p n h = None"
proof (induction q p ps xs l "0 :: nat" h arbitrary: n rule: dseg.induct)
  case (2 q p a ps x xs l h)
  then obtain k r where n: "n = Suc k" and r: "p = a" "a \<noteq> 0" "cells h a = Some \<lparr>nxt = r, prv = q, dat = x\<rparr>" "dseg a r ps xs l 0 h"
    by (cases n) auto
  then show ?case using 2 dseg_end_zero [OF r(4)] dseg_length [OF r(4)] by (cases "xs = []") (auto simp: get_cell_def)
qed auto

lemma seek_out: "dseg q p ps xs l 0 h \<Longrightarrow> length xs \<le> n \<Longrightarrow> do { i \<leftarrow> seek p n h; get_cell i h } = None"
proof (induction n arbitrary: q p ps xs)
  case 0
  then show ?case by (cases ps; cases xs) (auto simp: get_cell_def)
next
  case (Suc n)
  show ?case
  proof (cases ps)
    case Nil
    then show ?thesis using Suc.prems by (cases xs) (auto simp: get_cell_def)
  next
    case (Cons a qs)
    then obtain x ys where "xs = x # ys" using Suc.prems by (cases xs) auto
    then show ?thesis using Suc Cons by (auto simp: get_cell_def)
  qed
qed

lemma at_list:
  assumes "list_at this xs h"
  shows "at zero this pos h = (if xs = [] then Some zero else if unat pos < length xs then Some (xs ! unat pos) else None)"
proof -
  from assms obtain ps where "list_cells this ps xs h" by (auto simp: list_at_def)
  then obtain c l where c: "get_cell this h = Some c" "dseg this (nxt c) ps xs l 0 h" "nxt c = 0 \<longleftrightarrow> xs = []"
    by (elim list_cellsE)
  show ?thesis
  proof (cases "unat pos < length xs")
    case True
    show ?thesis by (rule seek_nth [OF c(2) True]) (use True c(1,3) in \<open>auto simp: at_def get_cell_def\<close>)
  next
    case False
    then show ?thesis using seek_checked_out [OF c(2), of "unat pos"] c(1,3) by (auto simp: at_def)
  qed
qed

lemma index_list:
  assumes "list_at this xs h"
  shows "index this pos h = (if unat pos < length xs then Some (xs ! unat pos) else None)"
proof -
  from assms obtain ps where "list_cells this ps xs h" by (auto simp: list_at_def)
  then obtain c l where c: "get_cell this h = Some c" "dseg this (nxt c) ps xs l 0 h" by (elim list_cellsE)
  show ?thesis
  proof (cases "unat pos < length xs")
    case True
    show ?thesis by (rule seek_nth [OF c(2) True]) (use True c(1) in \<open>auto simp: index_def get_cell_def\<close>)
  next
    case False
    then show ?thesis using seek_out [OF c(2), of "unat pos"] c(1) by (auto simp: index_def bind_eq_None_conv)
  qed
qed


text \<open>Splicing a fresh cell in behind the cell \<open>m\<close>, and taking a cell out.\<close>

lemma dseg_set_nxt:
  assumes "dseg q p ps xs l e h" "ps \<noteq> []" "distinct ps" "q \<notin> set ps"
    and c: "cells h l = Some c"
  shows "dseg q p ps xs l e' (h\<lparr>cells := (cells h)(l \<mapsto> c\<lparr>nxt := e'\<rparr>)\<rparr>)"
  using assms
proof (induction q p ps xs l e h rule: dseg.induct)
  case (2 q p a ps x xs q' p' h)
  then obtain n where n: "p = a" "a \<noteq> 0" "cells h a = Some \<lparr>nxt = n, prv = q, dat = x\<rparr>" "dseg a n ps xs q' p' h" by auto
  have l: "q' = last (a # ps)" by (rule dseg_last [OF n(4)])
  show ?case
  proof (cases "ps = []")
    case True
    then show ?thesis using n 2 by (cases xs) auto
  next
    case False
    then have "q' \<in> set ps" using l by simp
    then show ?thesis using 2 False n by auto
  qed
qed auto

text \<open>A list in the store, cut at a cell: the part before ends in \<open>m\<close>, which points to \<open>r\<close>.\<close>

definition cut :: "nat \<Rightarrow> nat list \<Rightarrow> 'a list \<Rightarrow> nat \<Rightarrow> nat \<Rightarrow> 'a store \<Rightarrow> bool" where
  "cut this ps xs m r h \<longleftrightarrow> this \<noteq> 0 \<and> distinct (this # ps) \<and> (\<exists>c. cells h this = Some c \<and> dseg this (nxt c) ps xs m r h)"

lemma cut_member: "cut this ps xs m r h \<Longrightarrow> m \<in> set (this # ps) \<and> m \<noteq> 0 \<and> cells h m \<noteq> None"
  unfolding cut_def using dseg_last dseg_cells by fastforce

lemma cut_put_nxt:
  assumes "cut this ps xs m r h"
  obtains c where "get_cell m h = Some c" "put_nxt m r' h = Some (h\<lparr>cells := (cells h)(m \<mapsto> c\<lparr>nxt := r'\<rparr>)\<rparr>)"
    "cut this ps xs m r' (h\<lparr>cells := (cells h)(m \<mapsto> c\<lparr>nxt := r'\<rparr>)\<rparr>)"
proof -
  from assms obtain c0 where c0: "this \<noteq> 0" "distinct (this # ps)" "cells h this = Some c0" "dseg this (nxt c0) ps xs m r h"
    by (auto simp: cut_def)
  obtain c where c: "cells h m = Some c" "m \<noteq> 0" "m \<in> set (this # ps)" using cut_member [OF assms] by auto
  have "cut this ps xs m r' (h\<lparr>cells := (cells h)(m \<mapsto> c\<lparr>nxt := r'\<rparr>)\<rparr>)"
  proof (cases "ps = []")
    case True
    then show ?thesis using c0 c by (cases xs) (auto simp: cut_def)
  next
    case False
    then have "m \<in> set ps" using dseg_last [OF c0(4)] by simp
    then show ?thesis using c0 False dseg_set_nxt [OF c0(4) False _ _ c(1)] by (auto simp: cut_def)
  qed
  then show thesis using that c by (simp add: put_nxt_def get_cell_def)
qed

lemma cut_frame: "(\<And>a. a \<in> set (this # ps) \<Longrightarrow> cells h' a = cells h a) \<Longrightarrow> cut this ps xs m r h' = cut this ps xs m r h"
  using dseg_frame [of ps h' h] by (simp add: cut_def)

lemma list_cells_cut:
  assumes "cut this ps xs m r h" "dseg m r rs ys l 0 h" "distinct (this # ps @ rs)" "fresh h \<noteq> 0" "\<forall>p \<ge> fresh h. cells h p = None"
  shows "list_at this (xs @ ys) h"
proof -
  from assms(1) obtain c where "this \<noteq> 0" "cells h this = Some c" "dseg this (nxt c) ps xs m r h" by (auto simp: cut_def)
  then show ?thesis using assms(2-) dseg_append [OF dseg_length] unfolding list_at_def list_cells_def by blast
qed

lemma list_at_cut:
  assumes "list_at this xs h" "n \<le> length xs"
  obtains ps rs m r l where "cut this ps (take n xs) m r h" "dseg m r rs (drop n xs) l 0 h" "distinct (this # ps @ rs)"
    "length ps = n" "fresh h \<noteq> 0" "\<forall>p \<ge> fresh h. cells h p = None" "fresh h \<notin> set (this # ps @ rs)"
proof -
  from assms(1) obtain ps where ps: "list_cells this ps xs h" by (auto simp: list_at_def)
  then obtain c l where c: "cells h this = Some c" "dseg this (nxt c) ps xs l 0 h" "this \<noteq> 0" "this \<notin> set ps" "distinct ps"
    "length ps = length xs" "fresh h \<noteq> 0" "fresh h \<noteq> this" "fresh h \<notin> set ps" "\<forall>p \<ge> fresh h. cells h p = None"
    by (elim list_cellsE)
  obtain m r where "dseg this (nxt c) (take n ps) (take n xs) m r h" "dseg m r (drop n ps) (drop n xs) l 0 h"
    using dseg_split [OF c(2) assms(2)] .
  moreover have "set (take n ps) \<subseteq> set ps" by (rule set_take_subset)
  moreover have "take n ps @ drop n ps = ps" by simp
  ultimately show thesis
    using that [of "take n ps" m r "drop n ps" l] c assms(2) by (simp add: cut_def subset_iff) blast
qed


lemma dseg_set_prv:
  assumes "dseg q p ps xs l e h" "distinct ps" "cells h p = Some c" "ps \<noteq> []"
  shows "dseg q' p ps xs l e (h\<lparr>cells := (cells h)(p \<mapsto> c\<lparr>prv := q'\<rparr>)\<rparr>)"
  using assms by (cases ps; cases xs) auto

lemma put_prv_opt:
  assumes "dseg q p ps xs l 0 h" "distinct ps"
  obtains c where "p \<noteq> 0 \<Longrightarrow> get_cell p h = Some c" "p \<noteq> 0 \<Longrightarrow> p \<in> set ps"
    "\<exists>l. dseg q' p ps xs l 0 (if p = 0 then h else h\<lparr>cells := (cells h)(p \<mapsto> c\<lparr>prv := q'\<rparr>)\<rparr>)"
proof (cases "ps = []")
  case True
  then show thesis using assms that by (cases xs) auto
next
  case False
  then have p: "p \<noteq> 0" "p \<in> set ps" using dseg_end_zero [OF assms(1)] dseg_first [OF assms(1)] by auto
  then obtain c where "cells h p = Some c" using dseg_cells [OF assms(1)] by auto
  then show thesis using that [of c] p dseg_set_prv [OF assms(1,2) _ False] by (auto simp: get_cell_def)
qed

text \<open>The pointer writes that put the fresh cell between \<open>m\<close> and \<open>r\<close>, in both orders the code uses.\<close>

lemma insert_between:
  assumes cut: "cut this ps xs m r h" and rest: "dseg m r rs ys l 0 h" and d: "distinct (this # ps @ rs)"
    and f: "fresh h \<noteq> 0" "\<forall>p \<ge> fresh h. cells h p = None" "fresh h \<notin> set (this # ps @ rs)"
    and h1: "new_cell r m x h = (a, h1)"
  obtains h2 h3 h4 where "(if r \<noteq> 0 then put_prv r a h1 else Some h1) = Some h2" "put_nxt m a h2 = Some h3"
    "put_nxt m a h1 = Some h4" "r \<noteq> 0 \<Longrightarrow> put_prv r a h4 = Some h3" "r = 0 \<Longrightarrow> h4 = h3" "list_at this (xs @ x # ys) h3"
proof -
  have a: "a = fresh h" "h1 = h\<lparr>cells := (cells h)(a \<mapsto> \<lparr>nxt = r, prv = m, dat = x\<rparr>), fresh := Suc a\<rparr>"
    using h1 by (auto simp: new_cell_def)
  obtain cm where cm: "get_cell m h = Some cm" "cut this ps xs m a (h\<lparr>cells := (cells h)(m \<mapsto> cm\<lparr>nxt := a\<rparr>)\<rparr>)"
    by (rule cut_put_nxt [OF cut])
  have m: "m \<in> set (this # ps)" "m \<noteq> 0" using cut_member [OF cut] by auto
  obtain cr l' where cr: "r \<noteq> 0 \<Longrightarrow> get_cell r h = Some cr" "r \<noteq> 0 \<Longrightarrow> r \<in> set rs"
    "dseg a r rs ys l' 0 (if r = 0 then h else h\<lparr>cells := (cells h)(r \<mapsto> cr\<lparr>prv := a\<rparr>)\<rparr>)"
    using put_prv_opt [OF rest, of a] d by (metis distinct.simps(2) distinct_append)
  have ne: "a \<noteq> m" "r \<noteq> 0 \<Longrightarrow> a \<noteq> r \<and> r \<noteq> m" "r \<noteq> 0 \<Longrightarrow> r \<notin> set (this # ps)" "m \<notin> set rs"
    using a(1) f(3) m cr(2) d by auto
  define h3 where "h3 = h\<lparr>cells := (cells h)(m \<mapsto> cm\<lparr>nxt := a\<rparr>, a \<mapsto> \<lparr>nxt = r, prv = m, dat = x\<rparr>,
      r := if r = 0 then cells h 0 else Some (cr\<lparr>prv := a\<rparr>)), fresh := Suc a\<rparr>"
  have c0: "a \<noteq> 0" using f(1) a(1) by simp
  have below: "m < fresh h" "r \<noteq> 0 \<Longrightarrow> r < fresh h"
    using f(2) cut_member [OF cut] dseg_cells [OF rest cr(2)] by (metis not_le_imp_less)+
  have "cut this ps xs m a h3"
    using cm(2) by (rule cut_frame [THEN iffD1, rotated]) (use ne m(2) a(1) f(3) cut in \<open>auto simp: h3_def cut_def dest: dseg_cells\<close>)
  moreover have "dseg a r rs ys l' 0 h3"
    using cr(3) by (rule dseg_frame [THEN iffD1, rotated])
      (use ne a(1) f(3) dseg_cells [OF rest] in \<open>auto simp: h3_def\<close>)
  then have "dseg m a (a # rs) (x # ys) l' 0 h3"
    using ne(1,2) c0 dseg_end_zero [OF rest] by (auto simp: h3_def)
  ultimately have "list_at this (xs @ x # ys) h3"
    by (rule list_cells_cut) (use d f a(1) ne cr(1,2) m below in \<open>auto simp: h3_def\<close>)
  moreover note cells = cm(1) cr(1) m(2) ne
  ultimately show thesis
  proof (cases "r = 0")
    case True
    then have "put_nxt m a h1 = Some h3"
      using cells by (auto simp: put_nxt_def get_cell_def a(2) h3_def fun_upd_twist c0)
    then show thesis using that [of h1 h3 h3] \<open>list_at this (xs @ x # ys) h3\<close> True by simp
  next
    case False
    let ?h2 = "h1\<lparr>cells := (cells h1)(r \<mapsto> cr\<lparr>prv := a\<rparr>)\<rparr>" and ?h4 = "h1\<lparr>cells := (cells h1)(m \<mapsto> cm\<lparr>nxt := a\<rparr>)\<rparr>"
    have "put_prv r a h1 = Some ?h2" "put_nxt m a h1 = Some ?h4"
      using cells False by (auto simp: put_nxt_def put_prv_def get_cell_def a(2))
    moreover have "put_nxt m a ?h2 = Some h3" "put_prv r a ?h4 = Some h3"
      using cells False by (auto simp: put_nxt_def put_prv_def get_cell_def a(2) h3_def fun_upd_twist)
    ultimately show thesis using that [of ?h2 h3 ?h4] \<open>list_at this (xs @ x # ys) h3\<close> False by simp
  qed
qed


lemma prepend_list:
  assumes "list_at this xs h"
  obtains h' where "prepend this x h = Some h'" "list_at this (x # xs) h'"
proof -
  obtain ps rs m r l where c: "cut this ps (take 0 xs) m r h" "dseg m r rs (drop 0 xs) l 0 h" "distinct (this # ps @ rs)"
    "length ps = 0" "fresh h \<noteq> 0" "\<forall>p \<ge> fresh h. cells h p = None" "fresh h \<notin> set (this # ps @ rs)"
    by (rule list_at_cut [OF assms, of 0]) auto
  obtain a h1 where h1: "new_cell r m x h = (a, h1)" by fastforce
  show thesis
    by (rule insert_between [OF c(1,2,3,5,6,7) h1])
      (use c(1,4) h1 that in \<open>auto simp: prepend_def cut_def get_cell_def split: if_splits\<close>)
qed

lemma append_list_list:
  assumes "list_at this xs h"
  obtains h' where "append_list this x h = Some h'" "list_at this (xs @ [x]) h'"
proof -
  obtain ps rs m r l where c: "cut this ps (take (length xs) xs) m r h" "dseg m r rs (drop (length xs) xs) l 0 h"
    "distinct (this # ps @ rs)" "length ps = length xs" "fresh h \<noteq> 0" "\<forall>p \<ge> fresh h. cells h p = None"
    "fresh h \<notin> set (this # ps @ rs)"
    by (rule list_at_cut [OF assms, of "length xs"]) auto
  then have r: "r = 0" "rs = []" by (cases rs; simp)+
  obtain c0 where c0: "this \<noteq> 0" "cells h this = Some c0" "dseg this (nxt c0) ps xs m 0 h" using c(1) r by (auto simp: cut_def)
  have i: "(if nxt c0 = 0 then Some this else last_cell (nxt c0) h) = Some m"
    using dseg_end_zero [OF c0(3)] last_cell_dseg [OF c0(3)] c0(3) c(4) by (cases ps; cases xs) auto
  obtain a h1 where h1: "new_cell r m x h = (a, h1)" by fastforce
  show thesis
    by (rule insert_between [OF c(1,2,3,5,6,7) h1])
      (use c0 i h1 r that in \<open>auto simp: append_list_def get_cell_def\<close>)
qed


text \<open>The writes that take the cell \<open>r\<close> out, in the orders of \<open>removeAt\<close> and \<open>removeFirst\<close>.\<close>

lemma remove_between:
  assumes cut: "cut this ps xs m r h" and rest: "dseg m r (r # rs) (y # ys) l 0 h" and d: "distinct (this # ps @ r # rs)"
    and f: "fresh h \<noteq> 0" "\<forall>p \<ge> fresh h. cells h p = None"
  obtains n h1 h2 h3 h4 h5 c2 where "get_cell r h = Some \<lparr>nxt = n, prv = m, dat = y\<rparr>" "put_nxt m n h = Some h1"
    "(if n \<noteq> 0 then put_prv n m h1 else Some h1) = Some h2" "delete_cell r h2 = Some h3"
    "n \<noteq> 0 \<Longrightarrow> get_cell n h1 = Some c2 \<and> prv c2 = r" "n \<noteq> 0 \<Longrightarrow> delete_cell r h1 = Some h4 \<and> put_prv n m h4 = Some h3"
    "n = 0 \<Longrightarrow> delete_cell r h = Some h5 \<and> put_nxt m 0 h5 = Some h3" "n = 0 \<longleftrightarrow> ys = []"
    "list_at this (xs @ ys) h3"
proof -
  from rest obtain n where r: "r \<noteq> 0" "cells h r = Some \<lparr>nxt = n, prv = m, dat = y\<rparr>" "dseg r n rs ys l 0 h" by auto
  obtain cm where cm: "get_cell m h = Some cm" "cut this ps xs m n (h\<lparr>cells := (cells h)(m \<mapsto> cm\<lparr>nxt := n\<rparr>)\<rparr>)"
    by (rule cut_put_nxt [OF cut])
  have m: "m \<in> set (this # ps)" "m \<noteq> 0" using cut_member [OF cut] by auto
  obtain cn l' where cn: "n \<noteq> 0 \<Longrightarrow> get_cell n h = Some cn" "n \<noteq> 0 \<Longrightarrow> n \<in> set rs"
    "dseg m n rs ys l' 0 (if n = 0 then h else h\<lparr>cells := (cells h)(n \<mapsto> cn\<lparr>prv := m\<rparr>)\<rparr>)"
    using put_prv_opt [OF r(3), of m] d by (metis distinct.simps(2) distinct_append)
  have ne: "m \<noteq> r" "n \<noteq> 0 \<Longrightarrow> n \<noteq> r \<and> n \<noteq> m" "n \<noteq> 0 \<Longrightarrow> n \<notin> set (this # ps)" "m \<notin> set rs" "r \<notin> set (this # ps)" "r \<notin> set rs"
    using m cn(2) d by auto
  have prvn: "prv cn = r" if "n \<noteq> 0"
    using that cn(1) r(3) by (cases rs; cases ys) (auto simp: get_cell_def)
  have nys: "n = 0 \<longleftrightarrow> ys = []" using dseg_end_zero [OF r(3)] dseg_length [OF r(3)] by auto
  define h3 where "h3 = h\<lparr>cells := (cells h)(m \<mapsto> cm\<lparr>nxt := n\<rparr>,
      n := if n = 0 then cells h 0 else Some (cn\<lparr>prv := m\<rparr>), r := None)\<rparr>"
  have below: "m < fresh h" "n \<noteq> 0 \<Longrightarrow> n < fresh h"
    using f(2) cut_member [OF cut] dseg_cells [OF r(3) cn(2)] by (metis not_le_imp_less)+
  have "cut this ps xs m n h3"
    using cm(2) by (rule cut_frame [THEN iffD1, rotated]) (use ne m(2) cut in \<open>auto simp: h3_def cut_def dest: dseg_cells\<close>)
  moreover have "dseg m n rs ys l' 0 h3"
    using cn(3) by (rule dseg_frame [THEN iffD1, rotated]) (use ne dseg_cells [OF r(3)] in \<open>auto simp: h3_def\<close>)
  ultimately have l3: "list_at this (xs @ ys) h3"
    by (rule list_cells_cut) (use d f below in \<open>auto simp: h3_def\<close>)
  note cells = cm(1) cn(1) m(2) ne r(1,2)
  show thesis
  proof (cases "n = 0")
    case True
    let ?h1 = "h\<lparr>cells := (cells h)(m \<mapsto> cm\<lparr>nxt := n\<rparr>)\<rparr>" and ?h5 = "h\<lparr>cells := (cells h)(r := None)\<rparr>"
    have "put_nxt m n h = Some ?h1" "delete_cell r ?h1 = Some h3" "delete_cell r h = Some ?h5" "put_nxt m n ?h5 = Some h3"
      using cells True by (auto simp: put_nxt_def delete_cell_def get_cell_def h3_def fun_upd_twist)
    then show thesis using that [of n ?h1 ?h1 h3 cm h3 ?h5] l3 True r nys by (auto simp: get_cell_def)
  next
    case False
    let ?h1 = "h\<lparr>cells := (cells h)(m \<mapsto> cm\<lparr>nxt := n\<rparr>)\<rparr>"
    let ?h2 = "?h1\<lparr>cells := (cells ?h1)(n \<mapsto> cn\<lparr>prv := m\<rparr>)\<rparr>" and ?h4 = "?h1\<lparr>cells := (cells ?h1)(r := None)\<rparr>"
    have "put_nxt m n h = Some ?h1" "put_prv n m ?h1 = Some ?h2" "delete_cell r ?h2 = Some h3" "get_cell n ?h1 = Some cn"
      "delete_cell r ?h1 = Some ?h4" "put_prv n m ?h4 = Some h3"
      using cells False by (auto simp: put_nxt_def put_prv_def delete_cell_def get_cell_def h3_def fun_upd_twist)
    then show thesis using that [of n ?h1 ?h2 h3 cn ?h4 h] l3 False r nys prvn by (auto simp: get_cell_def)
  qed
qed

lemma list_at_cut_cell:
  assumes "list_at this xs h" "n < length xs"
  obtains ps rs m r l where "cut this ps (take n xs) m r h" "dseg m r (r # rs) (xs ! n # drop (Suc n) xs) l 0 h"
    "distinct (this # ps @ r # rs)" "length ps = n" "fresh h \<noteq> 0" "\<forall>p \<ge> fresh h. cells h p = None" "fresh h \<notin> set (this # ps @ r # rs)"
proof -
  obtain ps rs m r l where c: "cut this ps (take n xs) m r h" "dseg m r rs (drop n xs) l 0 h" "distinct (this # ps @ rs)"
    "length ps = n" "fresh h \<noteq> 0" "\<forall>p \<ge> fresh h. cells h p = None" "fresh h \<notin> set (this # ps @ rs)"
    by (rule list_at_cut [OF assms(1), of n]) (use assms(2) in auto)
  have d: "drop n xs = xs ! n # drop (Suc n) xs" using assms(2) by (simp add: Cons_nth_drop_Suc)
  with c(2) obtain rs' where "rs = r # rs'" by (cases rs) auto
  then show thesis using that [of ps m r rs' l] c d by simp
qed


lemma removeFirst_list:
  assumes "list_at this (x # xs) h"
  obtains h' where "removeFirst this h = Some h'" "list_at this xs h'"
proof -
  obtain ps rs m r l where c: "cut this ps (take 0 (x # xs)) m r h" "dseg m r (r # rs) ((x # xs) ! 0 # drop (Suc 0) (x # xs)) l 0 h"
    "distinct (this # ps @ r # rs)" "length ps = 0" "fresh h \<noteq> 0" "\<forall>p \<ge> fresh h. cells h p = None"
    by (rule list_at_cut_cell [OF assms, of 0]) auto
  from c(1,4) obtain c0 where c0: "this \<noteq> 0" "cells h this = Some c0" "m = this" "nxt c0 = r" by (auto simp: cut_def)
  show thesis
    by (rule remove_between [OF c(1,2,3,5,6)]) (use c0 that in \<open>auto simp: removeFirst_def get_cell_def split: if_splits\<close>)
qed

lemma removeFirst_empty: "list_at this [] h \<Longrightarrow> removeFirst this h = None"
  unfolding list_at_def by (elim exE list_cellsE) (auto simp: removeFirst_def get_cell_def)

lemma removeLast_list:
  assumes "list_at this xs h" "xs \<noteq> []"
  obtains h' where "removeLast this h = Some h'" "list_at this (butlast xs) h'"
proof -
  let ?n = "length xs - 1"
  obtain ps rs m r l where c: "cut this ps (take ?n xs) m r h" "dseg m r (r # rs) (xs ! ?n # drop (Suc ?n) xs) l 0 h"
    "distinct (this # ps @ r # rs)" "length ps = ?n" "fresh h \<noteq> 0" "\<forall>p \<ge> fresh h. cells h p = None"
    by (rule list_at_cut_cell [OF assms(1), of ?n]) (use assms(2) in auto)
  have rs: "rs = []" "drop (Suc ?n) xs = []" using c(2) assms(2) by (auto dest: dseg_length)
  then have l: "l = r" using dseg_last [OF c(2)] by simp
  from c(1) obtain c0 where c0: "this \<noteq> 0" "cells h this = Some c0" "dseg this (nxt c0) ps (take ?n xs) m r h" by (auto simp: cut_def)
  have "dseg this (nxt c0) (ps @ [r]) (take ?n xs @ [xs ! ?n]) r 0 h"
    using c0(3) c(2) rs l by (subst dseg_append) (auto simp: dseg_length)
  then have i: "last_cell (nxt c0) h = Some r" "nxt c0 \<noteq> 0" using last_cell_dseg dseg_end_zero by fastforce+
  have b: "take ?n xs @ drop (Suc ?n) xs = butlast xs" using rs by (simp add: butlast_conv_take)
  show thesis
    by (rule remove_between [OF c(1,2,3,5,6)]) (use c0 i rs b that in \<open>auto simp: removeLast_def get_cell_def split: if_splits\<close>)
qed

lemma removeAt_list:
  assumes "list_at this xs h" "unat ix < length xs"
  obtains h' where "removeAt this ix h = Some h'" "list_at this (take (unat ix) xs @ drop (Suc (unat ix)) xs) h'"
proof (cases "ix = 0")
  case True
  then obtain x ys where "xs = x # ys" using assms(2) by (cases xs) auto
  then show thesis using removeFirst_list [of this x ys h] assms(1) that True isEmpty_list [OF assms(1)]
    by (auto simp: removeAt_def isEmpty_def split: Option.bind_splits)
next
  case False
  obtain ps rs m r l where c: "cut this ps (take (unat ix) xs) m r h" "dseg m r (r # rs) (xs ! unat ix # drop (Suc (unat ix)) xs) l 0 h"
    "distinct (this # ps @ r # rs)" "length ps = unat ix" "fresh h \<noteq> 0" "\<forall>p \<ge> fresh h. cells h p = None"
    by (rule list_at_cut_cell [OF assms]) auto
  from c(1) obtain c0 where c0: "this \<noteq> 0" "cells h this = Some c0" "dseg this (nxt c0) ps (take (unat ix) xs) m r h"
    by (auto simp: cut_def)
  have r: "r \<noteq> 0" using c(2) by simp
  have i: "seek_checked (nxt c0) (unat ix) h = Some r" "nxt c0 \<noteq> 0"
    using seek_checked_dseg [OF c0(3) r, of 0] dseg_nonzero [OF c0(3) r] assms(2) by (simp_all add: min_def)
  show thesis
    by (rule remove_between [OF c(1,2,3,5,6)])
      (use False c0 i r that in \<open>auto simp: removeAt_def get_cell_def split: if_splits\<close>)
qed

lemma removeAt_out:
  assumes "list_at this xs h" "length xs \<le> unat ix"
  shows "removeAt this ix h = (if xs = [] then Some h else None)"
proof -
  from assms obtain ps where "list_cells this ps xs h" by (auto simp: list_at_def)
  then obtain c l where c: "get_cell this h = Some c" "dseg this (nxt c) ps xs l 0 h" "nxt c = 0 \<longleftrightarrow> xs = []"
    by (elim list_cellsE)
  then show ?thesis using seek_checked_out [OF c(2) _ assms(2)] assms(2) by (auto simp: removeAt_def)
qed

lemma insert_at_list:
  assumes "list_at this xs h" "pos = 0 \<or> xs \<noteq> [] \<and> unat pos \<le> length xs"
  obtains h' where "insert_at this pos x h = Some h'" "list_at this (take (unat pos) xs @ x # drop (unat pos) xs) h'"
proof (cases "pos = 0")
  case True
  then show thesis using prepend_list [OF assms(1), of x] that by (auto simp: insert_at_def)
next
  case False
  then have xs: "xs \<noteq> []" "unat pos \<le> length xs" "0 < unat pos" using assms(2) by (auto simp: unat_gt_0)
  obtain ps rs m r l where c: "cut this ps (take (unat pos) xs) m r h" "dseg m r rs (drop (unat pos) xs) l 0 h" "distinct (this # ps @ rs)"
    "length ps = unat pos" "fresh h \<noteq> 0" "\<forall>p \<ge> fresh h. cells h p = None" "fresh h \<notin> set (this # ps @ rs)"
    by (rule list_at_cut [OF assms(1) xs(2)])
  from c(1) obtain c0 where c0: "this \<noteq> 0" "cells h this = Some c0" "dseg this (nxt c0) ps (take (unat pos) xs) m r h"
    by (auto simp: cut_def)
  have n0: "nxt c0 \<noteq> 0" using dseg_first [OF c0(3)] dseg_cells [OF c0(3)] c(4) xs(3) by (cases ps) auto
  obtain a h1 where h1: "new_cell r m x h = (a, h1)" by fastforce
  have "insert_seek (nxt c0) (unat pos) h = Some (if r = 0 then m else r, r = 0) \<and>
      (r \<noteq> 0 \<longrightarrow> (\<exists>n y. get_cell r h = Some \<lparr>nxt = n, prv = m, dat = y\<rparr>))"
  proof (cases "r = 0")
    case False
    have "length (take (unat pos) xs) = unat pos" using xs(2) by simp
    then have "insert_seek (nxt c0) (unat pos) h = Some (r, False)"
      using insert_seek_dseg [OF c0(3) False, of 0] by simp
    then show ?thesis using False c(2) by (cases rs; cases "drop (unat pos) xs") (auto simp: get_cell_def)
  next
    case True
    then have "rs = []" "unat pos = length xs" using c(2) xs(2) dseg_end_zero [OF c(2)[unfolded True]] dseg_length [OF c(2)] by auto
    then have d: "dseg this (nxt c0) ps xs m 0 h" using c0(3) True by simp
    let ?k = "length xs - 1"
    obtain m' r' where k: "dseg this (nxt c0) (take ?k ps) (take ?k xs) m' (ps ! ?k) h" "ps ! ?k \<noteq> 0"
      "cells h (ps ! ?k) = Some \<lparr>nxt = r', prv = m', dat = xs ! ?k\<rparr>" "dseg (ps ! ?k) r' (drop (Suc ?k) ps) (drop (Suc ?k) xs) m 0 h"
      by (rule seek_nth [OF d, of ?k]) (use xs(1) in auto)
    have "r' = 0" "ps ! ?k = m" using k(4) dseg_length [OF d] xs(1) by auto
    moreover have "length (take ?k xs) + 1 = unat pos" using \<open>unat pos = length xs\<close> xs(1) by (cases xs) simp_all
    then have "insert_seek (nxt c0) (unat pos) h = insert_seek (ps ! ?k) (Suc 0) h"
      using insert_seek_dseg [OF k(1,2), of 1] by simp
    ultimately show ?thesis using True k(3) k(2) by (simp add: get_cell_def)
  qed
  then have i: "insert_seek (nxt c0) (unat pos) h = Some (if r = 0 then m else r, r = 0)"
    "r \<noteq> 0 \<Longrightarrow> \<exists>n y. get_cell r h = Some \<lparr>nxt = n, prv = m, dat = y\<rparr>" by auto
  have c0': "get_cell this h = Some c0" using c0 by (simp add: get_cell_def)
  obtain h3 h4 where h: "put_nxt m a h1 = Some h4" "r \<noteq> 0 \<longrightarrow> put_prv r a h4 = Some h3" "r = 0 \<longrightarrow> h4 = h3"
    "list_at this (take (unat pos) xs @ x # drop (unat pos) xs) h3"
    by (rule insert_between [OF c(1,2,3,5,6,7) h1]) blast
  have "insert_at this pos x h = Some h3"
  proof (cases "r = 0")
    case True
    then show ?thesis using False c0' n0 i(1) h1 h(1,3) by (simp add: insert_at_def)
  next
    case r: False
    then obtain n y where "get_cell r h = Some \<lparr>nxt = n, prv = m, dat = y\<rparr>" using i(2) by blast
    then show ?thesis using False r c0' n0 i(1) h1 h(1,2) by (simp add: insert_at_def)
  qed
  then show thesis using h(4) that by blast
qed


lemma insert_at_out:
  assumes "list_at this xs h" "pos \<noteq> 0" "xs = [] \<or> length xs < unat pos"
  shows "insert_at this pos x h = (if xs = [] then Some h else None)"
proof -
  have *: "insert_seek p n h = None" if "dseg q p ps ys l 0 h" "ys \<noteq> []" "length ys < n" for q p ps n l and ys :: "'a list"
    using that
  proof (induction n arbitrary: q p ps ys)
    case (Suc n)
    then obtain a qs y zs where s: "ps = a # qs" "ys = y # zs" by (cases ps; cases ys) auto
    with Suc.prems(1) obtain r where r: "p = a" "a \<noteq> 0" "cells h a = Some \<lparr>nxt = r, prv = q, dat = y\<rparr>" "dseg a r qs zs l 0 h" by auto
    show ?case using Suc s r dseg_end_zero [OF r(4)] dseg_length [OF r(4)] by (cases "zs = []") (auto simp: get_cell_def)
  qed simp
  from assms obtain ps where "list_cells this ps xs h" by (auto simp: list_at_def)
  then obtain c l where c: "get_cell this h = Some c" "dseg this (nxt c) ps xs l 0 h" "nxt c = 0 \<longleftrightarrow> xs = []"
    by (elim list_cellsE)
  then show ?thesis using *[OF c(2)] assms(2,3) by (auto simp: insert_at_def)
qed

lemma empty_list_list:
  assumes "list_at this xs h" "length xs < 2 ^ 32"
  obtains h' where "empty_list this h = Some h'" "list_at this [] h'"
  using assms
proof (induction xs arbitrary: h thesis)
  case Nil
  have "empty_list this h = Some h" using size_list [OF Nil(2)] by (subst empty_list.simps) simp
  then show ?case using Nil by blast
next
  case (Cons x xs)
  obtain h1 where h1: "removeFirst this h = Some h1" "list_at this xs h1" by (rule removeFirst_list [OF Cons.prems(2)])
  obtain n :: u32 where n: "llist_size this h = Some n" "n = of_nat (length (x # xs))" using size_list [OF Cons.prems(2)] by blast
  then have "n \<noteq> 0"
    unfolding n(2) word_of_nat_eq_0_iff using Cons.prems(3) by (intro nat_dvd_not_less) simp_all
  then have "empty_list this h = empty_list this h1"
    using n(1) h1(1) by (subst empty_list.simps) simp
  moreover obtain h' where "empty_list this h1 = Some h'" "list_at this [] h'"
    by (rule Cons.IH [OF _ h1(2)]) (use Cons.prems(3) in auto)
  ultimately show ?case using Cons.prems(1) by simp
qed


subsection \<open>The contract of a sequence, and what its users may rely on\<close>

text \<open>
  The operations the rest of the kernel uses, by the list they hold: the pushes and pops at both
  ends and reading by position.  What follows from the contract alone is proved inside the locales.
\<close>

locale sequence =
  fixes holds :: "'a list \<Rightarrow> 's \<Rightarrow> bool"
    and push_front push_back :: "'a \<Rightarrow> 's \<Rightarrow> 's option"
    and pop_front pop_back :: "'s \<Rightarrow> 's option"
  assumes push_front: "holds xs s \<Longrightarrow> \<exists>s'. push_front x s = Some s' \<and> holds (x # xs) s'"
    and push_back: "holds xs s \<Longrightarrow> \<exists>s'. push_back x s = Some s' \<and> holds (xs @ [x]) s'"
    and pop_front: "holds (x # xs) s \<Longrightarrow> \<exists>s'. pop_front s = Some s' \<and> holds xs s'"
    and pop_back: "holds (xs @ [x]) s \<Longrightarrow> \<exists>s'. pop_back s = Some s' \<and> holds xs s'"
begin

lemma fill: "holds xs s \<Longrightarrow> \<exists>s'. for_each push_back ys s = Some s' \<and> holds (xs @ ys) s'"
proof (induction ys arbitrary: xs s)
  case (Cons y ys)
  obtain s1 where "push_back y s = Some s1" "holds (xs @ [y]) s1" using push_back [OF Cons.prems] by blast
  with Cons.IH [of "xs @ [y]" s1] show ?case by auto
qed simp

lemma stack: "holds xs s \<Longrightarrow> \<exists>s'. for_each push_front ys s = Some s' \<and> holds (rev ys @ xs) s'"
proof (induction ys arbitrary: xs s)
  case (Cons y ys)
  obtain s1 where "push_front y s = Some s1" "holds (y # xs) s1" using push_front [OF Cons.prems] by blast
  with Cons.IH [of "y # xs" s1] show ?case by auto
qed simp

lemma drain: "holds (ys @ xs) s \<Longrightarrow> \<exists>s'. for_each (\<lambda>_. pop_front) ys s = Some s' \<and> holds xs s'"
proof (induction ys arbitrary: s)
  case (Cons y ys)
  obtain s1 where "pop_front s = Some s1" "holds (ys @ xs) s1" using pop_front Cons.prems by fastforce
  with Cons.IH [of s1] show ?case by auto
qed simp

lemma undo: "holds (xs @ ys) s \<Longrightarrow> \<exists>s'. for_each (\<lambda>_. pop_back) ys s = Some s' \<and> holds xs s'"
proof (induction ys arbitrary: s rule: rev_induct)
  case (snoc y ys)
  obtain s1 where "pop_back s = Some s1" "holds (xs @ ys) s1" using pop_back [of "xs @ ys" y s] snoc.prems by auto
  moreover have "for_each (\<lambda>_. f) (ys @ [y]) s = for_each (\<lambda>_. f) (y # ys) s" for f :: "'s \<Rightarrow> 's option"
    by (induction ys arbitrary: s) (auto split: Option.bind_split)
  ultimately show ?case using snoc.IH [of s1] by simp
qed simp

text \<open>First in, first out; last in, first out.\<close>

lemma fifo:
  assumes "holds [] s"
  shows "\<exists>s' s''. for_each push_back (ys @ zs) s = Some s' \<and> for_each (\<lambda>_. pop_front) ys s' = Some s'' \<and> holds zs s''"
  using fill [OF assms, of "ys @ zs"] drain [of ys zs] by auto

lemma fill_undo:
  assumes "holds xs s"
  shows "\<exists>s' s''. for_each push_back ys s = Some s' \<and> for_each (\<lambda>_. pop_back) ys s' = Some s'' \<and> holds xs s''"
  using fill [OF assms, of ys] undo [of xs ys] by blast

end

locale indexed_sequence = sequence +
  fixes count :: "'s \<Rightarrow> u32 option" and read :: "u32 \<Rightarrow> 's \<Rightarrow> 'a option"
  assumes count: "holds xs s \<Longrightarrow> count s = Some (of_nat (length xs))"
    and read: "holds xs s \<Longrightarrow> unat i < length xs \<Longrightarrow> read i s = Some (xs ! unat i)"
begin

lemma fill_read:
  assumes "holds xs s" "length xs + length ys < 2 ^ 32" "i < length ys"
  shows "\<exists>s'. for_each push_back ys s = Some s' \<and> read (of_nat (length xs + i)) s' = Some (ys ! i) \<and>
    count s' = Some (of_nat (length xs + length ys))"
proof -
  obtain s' where s': "for_each push_back ys s = Some s'" "holds (xs @ ys) s'" using fill [OF assms(1)] by blast
  have "unat (of_nat (length xs + i) :: u32) = length xs + i"
    using assms(2,3) by (simp add: unat_of_nat take_bit_nat_eq_self del: of_nat_add)
  then show ?thesis using s' read [OF s'(2), of "of_nat (length xs + i)"] count [OF s'(2)] assms(3)
    by (simp add: nth_append del: of_nat_add)
qed

end

interpretation llist: indexed_sequence "list_at this" "prepend this" "append_list this" "removeFirst this" "removeLast this"
  "llist_size this" "index this" for this :: nat
proof unfold_locales
  show "list_at this xs s \<Longrightarrow> \<exists>s'. prepend this x s = Some s' \<and> list_at this (x # xs) s'" for xs s and x :: 'a
    using prepend_list by metis
  show "list_at this xs s \<Longrightarrow> \<exists>s'. append_list this x s = Some s' \<and> list_at this (xs @ [x]) s'" for xs s and x :: 'a
    using append_list_list by metis
  show "list_at this (x # xs) s \<Longrightarrow> \<exists>s'. removeFirst this s = Some s' \<and> list_at this xs s'" for xs s and x :: 'a
    using removeFirst_list by metis
  show "list_at this (xs @ [x]) s \<Longrightarrow> \<exists>s'. removeLast this s = Some s' \<and> list_at this xs s'" for xs s and x :: 'a
    using removeLast_list by (metis butlast_snoc snoc_eq_iff_butlast)
qed (simp_all add: size_list index_list)

subsection \<open>Properties\<close>

definition llist_new :: "'a \<Rightarrow> 'a store \<Rightarrow> nat \<times> 'a store" where
  "llist_new junk h = new_cell 0 0 junk h"

lemma llist_new_at: "fresh h \<noteq> 0 \<Longrightarrow> \<forall>p \<ge> fresh h. cells h p = None \<Longrightarrow> llist_new j h = (this, h') \<Longrightarrow> list_at this [] h'"
  unfolding list_at_def by (rule exI [of _ "[]"]) (auto simp: llist_new_def new_cell_def list_cells_def)


text \<open>
  C27: On a list that holds \<open>xs\<close>, \<open>insert\<close> puts the new element in front of position \<open>pos\<close>, at the
  end for \<open>pos\<close> equal to the size; a larger position ends in the fatal error, except that on an
  empty list every position but 0 is ignored.
\<close>

theorem insert_at_refines:
  assumes "list_at this xs h"
  shows "if pos = 0 \<or> xs \<noteq> [] \<and> unat pos \<le> length xs
    then \<exists>h'. insert_at this pos x h = Some h' \<and> list_at this (take (unat pos) xs @ x # drop (unat pos) xs) h'
    else insert_at this pos x h = (if xs = [] then Some h else None)"
proof (cases "pos = 0 \<or> xs \<noteq> [] \<and> unat pos \<le> length xs")
  case True
  then obtain h' where "insert_at this pos x h = Some h'" "list_at this (take (unat pos) xs @ x # drop (unat pos) xs) h'"
    using insert_at_list [OF assms] by metis
  then show ?thesis using True by auto
next
  case False
  then show ?thesis using insert_at_out [OF assms, of pos] by auto
qed

text \<open>
  C35: \<open>removeAt\<close> takes out exactly the element at the given position; beyond the end of the list it
  ends in the fatal error, and on an empty list it does nothing.
\<close>

theorem removeAt_refines:
  assumes "list_at this xs h"
  shows "if unat ix < length xs
    then \<exists>h'. removeAt this ix h = Some h' \<and> list_at this (take (unat ix) xs @ drop (Suc (unat ix)) xs) h'
    else removeAt this ix h = (if xs = [] then Some h else None)"
proof (cases "unat ix < length xs")
  case True
  then obtain h' where "removeAt this ix h = Some h'" "list_at this (take (unat ix) xs @ drop (Suc (unat ix)) xs) h'"
    using removeAt_list [OF assms] by metis
  then show ?thesis using True by auto
next
  case False
  then show ?thesis using removeAt_out [OF assms, of ix] by auto
qed

text \<open>
  \<open>at\<close> checks its bounds: it reads the element at a position of the list, gives 0 for an empty
  list whatever the position, and ends in the fatal error beyond the end of any other.
\<close>

theorem at_checks_bounds:
  assumes "list_at this xs h"
  shows "at zero this pos h = (if xs = [] then Some zero else if unat pos < length xs then Some (xs ! unat pos) else None)"
  using assms by (rule at_list)

text \<open>
  Elements appended one after the other to a new list are read back by position, and counted.
\<close>

theorem append_then_index:
  assumes "fresh h \<noteq> 0" "\<forall>p \<ge> fresh h. cells h p = None" "llist_new junk h = (this, h1)"
    and "length ys < 2 ^ 32" "i < length ys"
  shows "\<exists>h2. for_each (append_list this) ys h1 = Some h2 \<and> index this (of_nat i) h2 = Some (ys ! i) \<and>
    llist_size this h2 = Some (of_nat (length ys))"
  using llist.fill_read [OF llist_new_at [OF assms(1-3)], of ys i] assms(4,5) by simp

text \<open>
  Emptying a list of fewer than 2^32 elements ends, and leaves it empty.
\<close>

theorem empty_list_ends:
  assumes "list_at this xs h" "length xs < 2 ^ 32"
  shows "\<exists>h'. empty_list this h = Some h' \<and> isEmpty this h' = Some True"
  using empty_list_list [OF assms] isEmpty_list [of this "[]"] by metis

definition store0 :: "nat store" where
  "store0 = \<lparr>cells = Map.empty(1 \<mapsto> \<lparr>nxt = 2, prv = 0, dat = 0\<rparr>, 2 \<mapsto> \<lparr>nxt = 3, prv = 1, dat = 7\<rparr>, 3 \<mapsto> \<lparr>nxt = 0, prv = 2, dat = 9\<rparr>), fresh = 4\<rparr>"

lemma store0_list: "list_at 1 [7, 9] store0"
  unfolding list_at_def by (rule exI [of _ "[2, 3]"]) (auto simp: list_cells_def store0_def)

theorem insert_at_refines_witness:
  "\<exists>h'. insert_at 1 1 8 store0 = Some h' \<and> list_at 1 [7, 8, 9] h'"
  using insert_at_refines [OF store0_list, of 1 8] by simp

theorem removeAt_refines_witness: "(\<exists>h'. removeAt 1 1 store0 = Some h' \<and> list_at 1 [7] h') \<and> removeAt 1 2 store0 = None"
  using removeAt_refines [OF store0_list, of 1] removeAt_refines [OF store0_list, of 2] by simp

theorem at_checks_bounds_witness: "at 0 1 1 store0 = Some 9 \<and> at 0 1 2 store0 = None"
  using at_checks_bounds [OF store0_list, of 0 1] at_checks_bounds [OF store0_list, of 0 2] by simp

theorem append_then_index_witness:
  "\<exists>h2. for_each (append_list 4) [5, 6] (snd (llist_new 0 store0)) = Some h2 \<and> index 4 1 h2 = Some 6 \<and> llist_size 4 h2 = Some 2"
  using append_then_index [of store0 0 4 "snd (llist_new 0 store0)" "[5, 6]" 1]
  by (simp add: store0_def llist_new_def new_cell_def)

theorem empty_list_ends_witness: "\<exists>h'. empty_list 1 store0 = Some h' \<and> isEmpty 1 h' = Some True"
  using empty_list_ends [OF store0_list] by simp

end
