(* ===== verification/UserTables.thy ===== *)
theory UserTables
  imports PageSpace
begin

section \<open>The page tables of the user spaces: \<open>src/kernel/mm/paging.cpp\<close>\<close>

text \<open>
  The page tables of the tasks.  A present entry is never overwritten.  From \<open>createPageDir\<close> on, the
  tables below the directories form trees that share no page (\<open>user_tables\<close>), so that a store into
  one entry changes one translation of one directory.
\<close>

subsection \<open>Entries in use stay\<close>

text \<open>\<open>stable\<close>: what is allocated stays allocated, and no present entry that the kernel owns changes.\<close>

definition stable :: "kmem \<Rightarrow> kmem \<Rightarrow> bool" where
  "stable k k' \<longleftrightarrow> (\<exists>W A. keeps W A k k') \<and>
     (\<forall>s. owned_slot k s \<longrightarrow> present (rd64 (phys k) s) \<longrightarrow> rd64 (phys k') s = rd64 (phys k) s)"

lemma stable_keeps: "keeps {} A k k' \<Longrightarrow> stable k k'"
  by (auto simp: stable_def intro: rd64_keeps)

lemma stable_owned: "stable k k' \<Longrightarrow> owned_slot k s \<Longrightarrow> owned_slot k' s"
  by (auto simp: stable_def intro: owned_slot_keeps)

lemma stable_ok: "stable k k' \<Longrightarrow> paging_ok k \<Longrightarrow> paging_ok k'"
  by (auto simp: stable_def intro: paging_ok_keeps)

lemma stable_read: "stable k k' \<Longrightarrow> owned_slot k s \<Longrightarrow> present (rd64 (phys k) s) \<Longrightarrow> rd64 (phys k') s = rd64 (phys k) s"
  by (simp add: stable_def)

lemma stable_trans:
  assumes "stable k k1" "stable k1 k2"
  shows "stable k k2"
proof -
  have "\<exists>W A. keeps W A k k2" using assms keeps_trans unfolding stable_def by blast
  moreover have "rd64 (phys k2) s = rd64 (phys k) s" if "owned_slot k s" "present (rd64 (phys k) s)" for s
    using stable_read [OF assms(1) that] stable_read [OF assms(2) stable_owned [OF assms(1) that(1)]] that(2) by simp
  ultimately show ?thesis by (simp add: stable_def)
qed

lemma stable_stored:
  assumes "paging_ok k" "owned_slot k s" "\<not> present (rd64 (phys k) s)"
  shows "stable k (stored s v k)"
proof -
  note st = keeps_stored(1) [OF assms(1,2), of v]
  have "rd64 (phys (stored s v k)) s' = rd64 (phys k) s'" if "owned_slot k s'" "present (rd64 (phys k) s')" for s'
    by (rule rd64_keeps [OF st that(1)]) (use owned_disjoint [OF assms(2) that(1)] assms(3) that(2) in metis)
  then show ?thesis using st by (auto simp: stable_def)
qed

lemma stable_table_entry:
  assumes "table_entry s fl k = Some (e, k')" "paging_ok k" "owned_slot k s" "fl < 0x1000"
  shows "stable k k'"
  using table_entry_keeps [OF assms] by (auto simp: stable_def)

text \<open>A translation that exists is kept.\<close>

lemma stable_walk:
  "stable k k' \<Longrightarrow> walk_owned shs k t va \<Longrightarrow> pt_walk shs (phys k) t va = Some e \<Longrightarrow>
   pt_walk shs (phys k') t va = Some e \<and> walk_owned shs k' t va"
proof (induction shs arbitrary: t)
  case (Cons sh shs)
  let ?s = "t + entry_off sh va"
  have own: "owned_slot k ?s" using Cons.prems(2) by (simp add: Let_def)
  have pr: "present (rd64 (phys k) ?s)" using Cons.prems(3) by (cases shs) (auto simp: Let_def split: if_splits)
  note r = stable_read [OF Cons.prems(1) own pr] and own' = stable_owned [OF Cons.prems(1) own]
  show ?case
  proof (cases shs)
    case Nil
    then show ?thesis using Cons.prems(3) r own' by (simp add: Let_def)
  next
    case (Cons sh' shs')
    have w: "walk_owned shs k (page_mask (rd64 (phys k) ?s)) va" using Cons.prems(2) pr by (simp add: Let_def)
    have "frame_of (rd64 (phys k) ?s) = page_mask (rd64 (phys k) ?s)" using frame_of_walk w Cons by metis
    then show ?thesis using Cons.IH [OF Cons.prems(1) w] Cons.prems(3) r own' pr Cons by (simp add: Let_def)
  qed
qed simp

subsection \<open>The tables of the user spaces\<close>

text \<open>
  The directories \<open>D\<close> of the tasks.  Their walks go through owned entries, and a page is a table of
  one directory at one place: \<open>lab p\<close> is the directory, the number of levels below the table, and the
  bits of the address that lead to it.  Below the first GiB a directory shares the tables of the
  kernel.  No table is in a page that paging itself needs (\<open>reserved\<close>).
\<close>

type_synonym label = "u64 \<times> nat \<times> u64"
type_synonym labels = "nat \<rightharpoonup> label"

fun shifts :: "nat \<Rightarrow> nat list" where
  "shifts 0 = []"
| "shifts (Suc n) = (12 + 9 * n) # shifts n"

definition slot_at :: "u64 \<Rightarrow> nat \<Rightarrow> u64 \<Rightarrow> u64" where
  "slot_at t n va = t + entry_off (12 + 9 * n) va"

definition shared :: "nat \<Rightarrow> u64 \<Rightarrow> bool" where
  "shared n va \<longleftrightarrow> n = 2 \<and> va < USER_OFFSET"

fun tree_walk :: "labels \<Rightarrow> u64 \<Rightarrow> nat \<Rightarrow> kmem \<Rightarrow> u64 \<Rightarrow> u64 \<Rightarrow> bool" where
  "tree_walk lab d 0 k t va = True"
| "tree_walk lab d (Suc n) k t va =
     (let s = slot_at t n va; e = rd64 (phys k) s
      in page_mask t = t \<and> owned_slot k s \<and> lab (unat s div 4096) = Some (d, n, drop_bit (21 + 9 * n) va) \<and>
         (present e \<longrightarrow> (if shared n va then page_mask e = PD0_ADDR else tree_walk lab d n k (page_mask e) va)))"

definition space_area :: "u64 set" where "space_area = {va. USER_OFFSET \<le> va \<and> va < 0x1000000000000}"

definition reserved :: "kmem \<Rightarrow> nat \<Rightarrow> bool" where
  "reserved k p \<longleftrightarrow> p = 0 \<or> p = 3 \<or> p = 4 \<or> (\<exists>x. in_bitmap k x \<and> unat x div 4096 = p)"

definition tree :: "labels \<Rightarrow> kmem \<Rightarrow> u64 set \<Rightarrow> bool" where
  "tree lab k D \<longleftrightarrow> paging_ok k \<and> page_used k 3 \<and>
     (\<forall>p l. lab p = Some l \<longrightarrow> fst l \<in> D \<and> p < npages k \<and> page_used k p \<and> \<not> reserved k p) \<and>
     (\<forall>d \<in> D. \<forall>va < 0x1000000000000. tree_walk lab d 4 k d va)"

definition user_tables :: "kmem \<Rightarrow> u64 set \<Rightarrow> bool" where
  "user_tables k D \<longleftrightarrow> (\<exists>lab. tree lab k D)"

lemma tree_walkD:
  assumes "tree_walk lab d (Suc n) k t va"
  shows "page_mask t = t" "owned_slot k (slot_at t n va)"
    "lab (unat (slot_at t n va) div 4096) = Some (d, n, drop_bit (21 + 9 * n) va)"
    "present (rd64 (phys k) (slot_at t n va)) \<Longrightarrow> \<not> shared n va \<Longrightarrow> tree_walk lab d n k (page_mask (rd64 (phys k) (slot_at t n va))) va"
    "present (rd64 (phys k) (slot_at t n va)) \<Longrightarrow> shared n va \<Longrightarrow> page_mask (rd64 (phys k) (slot_at t n va)) = PD0_ADDR"
  using assms unfolding tree_walk.simps Let_def by (simp_all only: if_True if_False simp_thms)

lemma tree_walkI:
  assumes "page_mask t = t" "owned_slot k (slot_at t n va)"
    and "lab (unat (slot_at t n va) div 4096) = Some (d, n, drop_bit (21 + 9 * n) va)"
    and "present (rd64 (phys k) (slot_at t n va)) \<Longrightarrow> \<not> shared n va \<Longrightarrow> tree_walk lab d n k (page_mask (rd64 (phys k) (slot_at t n va))) va"
    and "present (rd64 (phys k) (slot_at t n va)) \<Longrightarrow> shared n va \<Longrightarrow> page_mask (rd64 (phys k) (slot_at t n va)) = PD0_ADDR"
  shows "tree_walk lab d (Suc n) k t va"
  using assms unfolding tree_walk.simps Let_def by (simp split: if_split)

declare tree_walk.simps(2) [simp del]

lemma not_shared [simp]: "va \<in> space_area \<Longrightarrow> \<not> shared n va" "\<not> shared 0 va" "\<not> shared (Suc 0) va" "\<not> shared 3 va"
  by (auto simp: shared_def space_area_def)

lemma shifts_4: "[39, 30, 21, 12] = shifts 4"
  by (simp add: numeral_eq_Suc)

lemma walk_Suc: "walk_owned (shifts (Suc n)) k t va \<longleftrightarrow> owned_slot k (slot_at t n va) \<and>
    (present (rd64 (phys k) (slot_at t n va)) \<longrightarrow> walk_owned (shifts n) k (page_mask (rd64 (phys k) (slot_at t n va))) va)"
  by (simp add: slot_at_def Let_def)

lemma pt_walk_Suc: "pt_walk (shifts (Suc n)) m t va =
    (let e = rd64 m (slot_at t n va) in if present e then (if n = 0 then Some e else pt_walk (shifts n) m (frame_of e) va) else None)"
  by (cases n) (auto simp: slot_at_def Let_def)

lemma tree_walk_owned: "va \<in> space_area \<Longrightarrow> tree_walk lab d n k t va \<Longrightarrow> walk_owned (shifts n) k t va"
  by (induction n arbitrary: t) (auto simp: walk_Suc simp del: shifts.simps(2) dest: tree_walkD)

lemma frame_of_tree:
  assumes "tree_walk lab d (Suc n) k (page_mask e) va"
  shows "frame_of e = page_mask e"
  using tree_walkD(2) [OF assms] owned_slot_low frame_of_owned unfolding slot_at_def by blast

lemma treeD: "tree lab k D \<Longrightarrow> d \<in> D \<Longrightarrow> va < 0x1000000000000 \<Longrightarrow> tree_walk lab d 4 k d va"
  unfolding tree_def by blast

lemma treeU: "tree lab k D \<Longrightarrow> d \<in> D \<Longrightarrow> va \<in> space_area \<Longrightarrow> tree_walk lab d 4 k d va"
  by (simp add: treeD space_area_def)

lemma tree_labels: "tree lab k D \<Longrightarrow> lab p = Some l \<Longrightarrow> fst l \<in> D \<and> p < npages k \<and> page_used k p \<and> \<not> reserved k p"
  unfolding tree_def by blast

lemma tree_ok: "tree lab k D \<Longrightarrow> paging_ok k"
  by (simp add: tree_def)

lemma tree_owned_walk: "tree lab k D \<Longrightarrow> d \<in> D \<Longrightarrow> va \<in> space_area \<Longrightarrow> owned_walk k d va"
  unfolding owned_walk_def shifts_4 using treeU tree_walk_owned by blast

lemma tree_slot_used: "tree_walk lab d (Suc n) k t va \<Longrightarrow> page_used k (unat (slot_at t n va) div 4096)"
  using tree_walkD(2) by (force simp: owned_slot_def kept_def dest: spec [of _ 0])

text \<open>Two walks that read the same entry come from the same table and agree on the address so far.\<close>

lemma table_base:
  assumes "page_mask t = t" "page_mask t' = t'" "t + entry_off sh va = t' + entry_off sh' va'"
  shows "t = t'" "entry_off sh va = entry_off sh' va'"
proof -
  have base: "page_mask (b + entry_off h v) = b" if "page_mask b = b" for b h v
  proof -
    have low: "bit (entry_off h v) n \<Longrightarrow> n < 12" for n using less_exp_bit [of "entry_off h v" 12 n] entry_off_lt(1) [of h v] by simp
    have high: "bit b n \<Longrightarrow> 12 \<le> n" for n using that bit_page_mask by metis
    have "b + entry_off h v = b OR entry_off h v"
      by (rule disjunctive_add) (use low high in force)
    moreover have "page_mask (b OR entry_off h v) = b"
    proof (rule bit_eqI)
      fix n show "bit (page_mask (b OR entry_off h v)) n = bit b n"
        unfolding bit_page_mask bit_or_iff using low [of n] high [of n] by linarith
    qed
    ultimately show ?thesis by simp
  qed
  show "t = t'" using base [OF assms(1)] base [OF assms(2)] assms(3) by metis
  then show "entry_off sh va = entry_off sh' va'" using assms(3) by simp
qed

lemma same_entry:
  assumes "drop_bit (sh + 9) va = drop_bit (sh + 9) va'" "entry_off sh va = entry_off sh va'"
  shows "drop_bit sh va = drop_bit sh va'"
proof -
  have m: "(0x1FF :: u64) = mask 9" by (simp add: mask_eq_exp_minus_1)
  have off: "entry_off sh v = push_bit 3 (take_bit 9 (drop_bit sh v))" for v
    by (simp add: entry_off_def m push_bit_eq_mult flip: take_bit_eq_mask)
  have idx: "take_bit 9 (drop_bit sh va) = take_bit 9 (drop_bit sh va')"
  proof (rule bit_eqI)
    fix n
    have "bit (entry_off sh v) (n + 3) \<longleftrightarrow> n + 3 < 64 \<and> bit (take_bit 9 (drop_bit sh v)) n" for v
      unfolding off by (simp add: bit_push_bit_iff)
    moreover have "bit (take_bit 9 (drop_bit sh v)) n \<Longrightarrow> n + 3 < 64" for v :: u64 by (simp add: bit_take_bit_iff)
    ultimately show "bit (take_bit 9 (drop_bit sh va)) n = bit (take_bit 9 (drop_bit sh va')) n"
      using assms(2) by metis
  qed
  show ?thesis
  proof (rule bit_eqI)
    fix n
    show "bit (drop_bit sh va) n = bit (drop_bit sh va') n"
    proof (cases "n < 9")
      case True
      then show ?thesis using arg_cong [OF idx, of "\<lambda>w. bit w n"] by (simp add: bit_take_bit_iff)
    next
      case False
      then have "bit (drop_bit sh v) n = bit (drop_bit (sh + 9) v) (n - 9)" for v :: u64
        by (simp add: bit_drop_bit_eq add.assoc)
      then show ?thesis using assms(1) by simp
    qed
  qed
qed

lemma same_slot:
  assumes "tree_walk lab d (Suc n) k t va" "tree_walk lab d' (Suc n') k t' va'" "slot_at t n va = slot_at t' n' va'"
  shows "d = d'" "n = n'" "drop_bit (12 + 9 * n) va = drop_bit (12 + 9 * n) va'"
proof -
  note w = tree_walkD [OF assms(1)] and w' = tree_walkD [OF assms(2)]
  have "Some (d, n, drop_bit (21 + 9 * n) va) = Some (d', n', drop_bit (21 + 9 * n') va')"
    using w(3) w'(3) assms(3) by metis
  then have l: "(d, n, drop_bit (21 + 9 * n) va) = (d', n', drop_bit (21 + 9 * n') va')" by (simp only: option.inject)
  then show eq: "d = d'" "n = n'" by simp_all
  have "drop_bit (12 + 9 * n + 9) va = drop_bit (12 + 9 * n + 9) va'" using l eq by simp
  moreover have "entry_off (12 + 9 * n) va = entry_off (12 + 9 * n) va'"
    using table_base(2) [OF w(1) w'(1)] assms(3) eq(2) by (simp add: slot_at_def)
  ultimately show "drop_bit (12 + 9 * n) va = drop_bit (12 + 9 * n) va'" by (rule same_entry)
qed

lemma below_user: "va < USER_OFFSET \<longleftrightarrow> drop_bit 30 va = 0"
proof -
  have "unat (drop_bit 30 va) = unat va div 2 ^ 30" by (simp add: drop_bit_eq_div unat_div)
  then have "drop_bit 30 va = 0 \<longleftrightarrow> unat va div 2 ^ 30 = 0" by (metis unat_eq_0)
  also have "\<dots> \<longleftrightarrow> va < USER_OFFSET" by (simp add: USER_OFFSET_def word_less_nat_alt div_eq_0_iff)
  finally show ?thesis by simp
qed

lemma shared_cong: "drop_bit (12 + 9 * n) va = drop_bit (12 + 9 * n) va' \<Longrightarrow> shared n va = shared n va'"
  by (auto simp: shared_def below_user)

lemma other_slot:
  assumes "keeps (bytes_at s0 8) A k k'" "owned_slot k s0" "owned_slot k s" "s \<noteq> s0"
  shows "rd64 (phys k') s = rd64 (phys k) s"
proof (rule rd64_keeps [OF assms(1,3)])
  show "bytes_at s0 8 \<inter> bytes_at s 8 = {}"
    using slots_disjoint [of s0 s] owned_slot_low [OF assms(2)] owned_slot_low [OF assms(3)] assms(4) by auto
qed

subsection \<open>What a store into one entry does to the walks\<close>

lemma tree_walk_keeps:
  "keeps {} A k k' \<Longrightarrow> (\<And>p. page_used k p \<Longrightarrow> lab' p = lab p) \<Longrightarrow> tree_walk lab d n k t va \<Longrightarrow> tree_walk lab' d n k' t va"
proof (induction n arbitrary: t)
  case (Suc n)
  note w = tree_walkD [OF Suc.prems(3)]
  have r: "rd64 (phys k') (slot_at t n va) = rd64 (phys k) (slot_at t n va)"
    by (rule rd64_keeps [OF Suc.prems(1) w(2)]) auto
  show ?case
  proof (rule tree_walkI [OF w(1)])
    show "owned_slot k' (slot_at t n va)" using owned_slot_keeps [OF w(2) Suc.prems(1)] .
    show "lab' (unat (slot_at t n va) div 4096) = Some (d, n, drop_bit (21 + 9 * n) va)"
      using Suc.prems(2) [OF tree_slot_used [OF Suc.prems(3)]] w(3) by simp
  qed (use Suc.IH [OF Suc.prems(1,2) w(4)] w(5) r in simp_all)
qed simp

lemma reserved_keeps: "keeps W A k k' \<Longrightarrow> reserved k' p = reserved k p"
  by (simp add: reserved_def keeps_params(2))

lemma reserved_free: "paging_ok k \<Longrightarrow> page_used k 3 \<Longrightarrow> free_page k p \<Longrightarrow> \<not> reserved k p"
  by (auto simp: reserved_def paging_ok_def free_page_def)

lemma tree_bind:
  assumes "tree lab k D" "keeps W A k k'" "\<And>d va. d \<in> D' \<Longrightarrow> va < 0x1000000000000 \<Longrightarrow> tree_walk lab' d 4 k' d va" "D \<subseteq> D'"
    and "\<And>p l. lab' p = Some l \<Longrightarrow> lab p \<noteq> Some l \<Longrightarrow> fst l \<in> D' \<and> free_page k p \<and> p \<in> A"
  shows "tree lab' k' D'"
proof -
  have ok: "paging_ok k" "page_used k 3" "3 < npages k" using assms(1) by (auto simp: tree_def paging_ok_def)
  have "fst l \<in> D' \<and> p < npages k' \<and> page_used k' p \<and> \<not> reserved k' p" if "lab' p = Some l" for p l
    using assms(4,5) that tree_labels [OF assms(1), of p l] reserved_free [OF ok(1,2), of p]
    by (cases "lab p = Some l") (auto simp: keeps_params(1) [OF assms(2)] reserved_keeps [OF assms(2)] keeps_used [OF assms(2)] free_page_def)
  then show ?thesis
    using assms(3) paging_ok_keeps [OF ok(1) assms(2)] keeps_used [OF assms(2) ok(3)] ok(2) unfolding tree_def by blast
qed

lemma tree_keeps: "keeps {} A k k' \<Longrightarrow> tree lab k D \<Longrightarrow> tree lab k' D"
  by (rule tree_bind [of lab k D "{}" A k']) (auto intro: tree_walk_keeps dest: treeD)

lemma tree_walk_store:
  assumes kk: "keeps (bytes_at s0 8) A k k'" and own0: "owned_slot k s0"
    and lab: "\<And>p. page_used k p \<Longrightarrow> lab' p = lab p"
    and below: "\<And>d n va t. tree_walk lab d (Suc n) k t va \<Longrightarrow> slot_at t n va = s0 \<Longrightarrow>
      \<not> shared n va \<and> tree_walk lab' d n k' (page_mask (rd64 (phys k') s0)) va"
  shows "tree_walk lab d n k t va \<Longrightarrow> tree_walk lab' d n k' t va"
proof (induction n arbitrary: t)
  case (Suc n)
  let ?s = "slot_at t n va"
  note w = tree_walkD [OF Suc.prems]
  show ?case
  proof (rule tree_walkI [OF w(1)])
    show "owned_slot k' ?s" using owned_slot_keeps [OF w(2) kk] .
    show "lab' (unat ?s div 4096) = Some (d, n, drop_bit (21 + 9 * n) va)"
      using lab [OF tree_slot_used [OF Suc.prems]] w(3) by simp
    assume pr: "present (rd64 (phys k') ?s)"
    show "tree_walk lab' d n k' (page_mask (rd64 (phys k') ?s)) va" if "\<not> shared n va"
      using below [OF Suc.prems] other_slot [OF kk own0 w(2)] Suc.IH w(4) pr that by (cases "?s = s0") simp_all
    show "page_mask (rd64 (phys k') ?s) = PD0_ADDR" if "shared n va"
      using below [OF Suc.prems] other_slot [OF kk own0 w(2)] w(5) pr that by (cases "?s = s0") simp_all
  qed
qed simp

text \<open>The translation of an address whose walk reaches the entry only above an empty table.\<close>

lemma walk_store:
  assumes va: "va \<in> space_area" and kk: "keeps (bytes_at s0 8) A k k'" and own0: "owned_slot k s0" and np: "\<not> present (rd64 (phys k) s0)"
    and below: "\<And>n t. tree_walk lab d (Suc n) k t va \<Longrightarrow> slot_at t n va = s0 \<Longrightarrow>
      n \<noteq> 0 \<and> pt_walk (shifts n) (phys k') (frame_of (rd64 (phys k') s0)) va = None"
  shows "tree_walk lab d n k t va \<Longrightarrow> pt_walk (shifts n) (phys k') t va = pt_walk (shifts n) (phys k) t va"
proof (induction n arbitrary: t)
  case (Suc n)
  let ?s = "slot_at t n va"
  note w = tree_walkD [OF Suc.prems]
  show ?case
  proof (cases "?s = s0")
    case True
    then show ?thesis using below [OF Suc.prems True] np by (simp add: pt_walk_Suc Let_def del: shifts.simps)
  next
    case False
    note r = other_slot [OF kk own0 w(2) False]
    show ?thesis
    proof (cases "present (rd64 (phys k) ?s) \<and> n \<noteq> 0")
      case True
      then obtain m where "n = Suc m" by (cases n) auto
      then have "frame_of (rd64 (phys k) ?s) = page_mask (rd64 (phys k) ?s)"
        using frame_of_tree w(4) True not_shared(1) [OF va] by blast
      then show ?thesis using Suc.IH w(4) True r va by (simp add: pt_walk_Suc Let_def del: shifts.simps)
    next
      case False
      then show ?thesis using r by (auto simp: pt_walk_Suc Let_def simp del: shifts.simps)
    qed
  qed
qed simp

text \<open>A page that has just become a table is empty.\<close>

lemma empty_table:
  assumes ok: "paging_ok k" and p: "free_page k p" and kk: "keeps W A k k'" "p \<in> A"
    and z: "\<And>x. unat x div 4096 = p \<Longrightarrow> phys k' x = 0"
  shows "owned_slot k' (slot_at (of_nat p * 0x1000) n va)" "unat (slot_at (of_nat p * 0x1000) n va) div 4096 = p"
    "rd64 (phys k') (slot_at (of_nat p * 0x1000) n va) = 0"
proof -
  let ?s = "slot_at (of_nat p * 0x1000) n va"
  have p32: "p < 2 ^ 32" using p npages_bound [of k] by (simp add: free_page_def)
  have page: "unat (?s + of_nat i) div 4096 = p" if "i < 8" for i unfolding slot_at_def using page_of_slot [OF p32 that] .
  show "owned_slot k' ?s" unfolding slot_at_def
    by (rule owned_slot_page [OF fresh_kept [OF ok p _ kk] p32]) auto
  show "unat ?s div 4096 = p" using page [of 0] by simp
  have "phys k' (?s + of_nat i) = 0" if "i < 8" for i by (rule z) (rule page [OF that])
  then have "rd (phys k') ?s 8 = rd (\<lambda>_. 0) ?s 8" by (intro rd_cong) auto
  moreover have "rd64 (\<lambda>_. 0) ?s = 0" by (simp add: rd64_def rd_def numeral_eq_Suc)
  ultimately show "rd64 (phys k') ?s = 0" by (simp add: rd64_def)
qed

text \<open>The translations of the user addresses in the directories.\<close>

definition same_spaces :: "u64 set \<Rightarrow> kmem \<Rightarrow> kmem \<Rightarrow> bool" where
  "same_spaces D k k' \<longleftrightarrow> (\<forall>d \<in> D. \<forall>x \<in> space_area. pt_lookup (phys k') d x = pt_lookup (phys k) d x)"

lemma same_spaces_trans: "same_spaces D k k1 \<Longrightarrow> same_spaces D k1 k2 \<Longrightarrow> same_spaces D k k2"
  by (simp add: same_spaces_def)

lemma same_spaces_keeps: "keeps {} A k k' \<Longrightarrow> tree lab k D \<Longrightarrow> same_spaces D k k'"
  unfolding same_spaces_def pt_lookup_def shifts_4 using walk_owned_keeps treeU tree_walk_owned by blast

lemma tree_table_entry:
  assumes te: "table_entry (slot_at tb (Suc n) va) fl k = Some (e, k')" and fl: "fl < 0x1000" and t: "tree lab k D"
    and w: "tree_walk lab d (Suc (Suc n)) k tb va" and va: "va \<in> space_area"
  shows "(\<exists>lab'. tree lab' k' D \<and> (\<forall>p. page_used k p \<longrightarrow> lab' p = lab p)) \<and> same_spaces D k k'"
proof -
  have ok: "paging_ok k" using t by (rule tree_ok)
  let ?s = "slot_at tb (Suc n) va"
  have own: "owned_slot k ?s" using tree_walkD(2) [OF w] .
  note spec = table_entry_spec [OF te ok own fl]
  show ?thesis
  proof (cases "present (rd64 (phys k) ?s)")
    case True
    then have kk: "keeps {} {} k k'" using spec by simp
    show ?thesis using tree_keeps [OF kk t] same_spaces_keeps [OF kk t] by blast
  next
    case False
    with spec obtain p where p: "free_page k p" "page_mask e = of_nat p * 0x1000"
        "keeps (bytes_at ?s 8) {p} k k'" "\<And>x. unat x div 4096 = p \<Longrightarrow> phys k' x = 0" and e: "rd64 (phys k') ?s = e" by auto
    note empty = empty_table [OF ok p(1,3) _ p(4)]
    let ?lab = "lab(p \<mapsto> (d, n, drop_bit (12 + 9 * Suc n) va))"
    have lab: "?lab q = lab q" if "page_used k q" for q using that p(1) by (auto simp: free_page_def)
    have table: "\<not> shared m va' \<and> tree_walk ?lab d' m k' (page_mask e) va'"
      and none: "m \<noteq> 0 \<and> pt_walk (shifts m) (phys k') (frame_of e) va' = None"
      if w': "tree_walk lab d' (Suc m) k t' va'" "slot_at t' m va' = ?s" for d' m t' va'
    proof -
      note same = same_slot [OF w'(1) w w'(2)]
      have m: "m = Suc n" by (rule same)
      have tw: "tree_walk ?lab d' (Suc n) k' (page_mask e) va'"
        by (rule tree_walkI) (use empty same in \<open>simp_all add: p(2) m page_mask_of_page present_def\<close>)
      moreover have "\<not> shared m va'" using shared_cong [of m va' va] same m va by simp
      ultimately show "\<not> shared m va' \<and> tree_walk ?lab d' m k' (page_mask e) va'" by (simp add: m)
      have "frame_of e = of_nat p * 0x1000" using frame_of_tree [OF tw] p(2) by simp
      then show "m \<noteq> 0 \<and> pt_walk (shifts m) (phys k') (frame_of e) va' = None"
        using empty(3) by (simp add: m pt_walk_Suc Let_def present_def del: shifts.simps)
    qed
    have "tree_walk ?lab d' 4 k' d' x" if "d' \<in> D" "x < 0x1000000000000" for d' x
      by (rule tree_walk_store [where lab = lab and lab' = ?lab, OF p(3) own lab _ treeD [OF t that]]) (assumption, unfold e, rule table)
    moreover have "d \<in> D" using tree_labels [OF t tree_walkD(3) [OF w]] by simp
    ultimately have "tree ?lab k' D" by (intro tree_bind [OF t p(3)]) (use p(1) in \<open>auto split: if_splits\<close>)
    moreover have "pt_walk (shifts 4) (phys k') d' x = pt_walk (shifts 4) (phys k) d' x" if "d' \<in> D" "x \<in> space_area" for d' x
      by (rule walk_store [where lab = lab, OF that(2) p(3) own False _ treeU [OF t that]]) (unfold e, rule none)
    then have "same_spaces D k k'" by (simp only: same_spaces_def pt_lookup_def shifts_4) blast
    ultimately show ?thesis using lab by blast
  qed
qed

lemma keeps_mark: "\<exists>A. keeps {} A k (markPhysPageUsed page k)"
proof (cases "maxPhysPages k \<le> page")
  case True
  then have "keeps {} {} k (markPhysPageUsed page k)" by (simp add: mark_set_page keeps_def)
  then show ?thesis ..
next
  case False
  then have "unat page < npages k" by (simp add: npages_def word_le_nat_alt)
  from keeps_set_page [OF this] show ?thesis using False by (auto simp: mark_set_page)
qed

lemma space_area_nonzero: "va \<in> space_area \<Longrightarrow> va \<noteq> 0"
  by (auto simp: space_area_def USER_OFFSET_def)

lemma stable_npages: "stable k k' \<Longrightarrow> npages k' = npages k"
  using keeps_params by (auto simp: stable_def)

lemma stable_used: "stable k k' \<Longrightarrow> p < npages k \<Longrightarrow> page_used k p \<Longrightarrow> page_used k' p"
  using keeps_used by (auto simp: stable_def)

lemma stable_free: "stable k k' \<Longrightarrow> free_page k' p \<Longrightarrow> free_page k p"
  using keeps_params keeps_used by (fastforce simp: stable_def free_page_def)

text \<open>A store into the last level changes the translation of one page in one directory.\<close>

lemma tree_leaf:
  assumes t: "tree lab k D" and w: "tree_walk lab d (Suc 0) k tb va" and np: "\<not> present (rd64 (phys k) (slot_at tb 0 va))"
    and k': "k' = stored (slot_at tb 0 va) e k"
  shows "tree lab k' D" "\<And>d' x. d' \<in> D \<Longrightarrow> x \<in> space_area \<Longrightarrow> d' \<noteq> d \<or> page_mask x \<noteq> page_mask va \<Longrightarrow>
      pt_lookup (phys k') d' x = pt_lookup (phys k) d' x"
proof -
  let ?s = "slot_at tb 0 va"
  note own = tree_walkD(2) [OF w]
  note st = keeps_stored(1) [OF tree_ok [OF t] own, of e, folded k']
  have leaf: "m = 0 \<and> d' = d \<and> page_mask x = page_mask va"
    if "tree_walk lab d' (Suc m) k t' x" "slot_at t' m x = ?s" for d' m t' x
  proof -
    note same = same_slot [OF that(1) w that(2)]
    have "drop_bit 12 x = drop_bit 12 va" using same by simp
    then have eq: "bit (drop_bit 12 x) n = bit (drop_bit 12 va) n" for n by simp
    have "bit x n = bit va n" if "12 \<le> n" for n
      using eq [of "n - 12"] that by (simp add: bit_drop_bit_eq)
    then have "page_mask x = page_mask va" by (intro bit_eqI) (auto simp: bit_page_mask)
    then show ?thesis using same by simp
  qed
  have "tree_walk lab d' 4 k' d' x" if "d' \<in> D" "x < 0x1000000000000" for d' x
    by (rule tree_walk_store [where lab = lab and lab' = lab, OF st own refl _ treeD [OF t that]]) (use leaf in fastforce)
  then show "tree lab k' D" by (rule tree_bind [OF t st]) auto
  fix d' x assume x: "d' \<in> D" "x \<in> space_area" "d' \<noteq> d \<or> page_mask x \<noteq> page_mask va"
  show "pt_lookup (phys k') d' x = pt_lookup (phys k) d' x"
    unfolding pt_lookup_def shifts_4
    by (rule walk_store [where lab = lab, OF x(2) st own np _ treeU [OF t x(1,2)]]) (use leaf x(3) in blast)
qed

lemma tree_walk_next:
  assumes "va \<in> space_area" "tree_walk lab d (Suc (Suc n)) k t va" "rd64 (phys k) (slot_at t (Suc n) va) = e" "present e"
  shows "tree_walk lab d (Suc n) k (page_mask e) va" "frame_of e = page_mask e"
  using tree_walkD(4) [OF assms(2)] not_shared(1) [OF assms(1)] assms(3,4) frame_of_tree by blast+

lemma tree_walk_levels:
  assumes "va \<in> space_area"
  shows "tree_walk lab d 4 k t va \<Longrightarrow> rd64 (phys k) (slot_at t 3 va) = e \<Longrightarrow> present e \<Longrightarrow> tree_walk lab d 3 k (page_mask e) va \<and> frame_of e = page_mask e"
    "tree_walk lab d 3 k t va \<Longrightarrow> rd64 (phys k) (slot_at t 2 va) = e \<Longrightarrow> present e \<Longrightarrow> tree_walk lab d 2 k (page_mask e) va \<and> frame_of e = page_mask e"
    "tree_walk lab d 2 k t va \<Longrightarrow> rd64 (phys k) (slot_at t 1 va) = e \<Longrightarrow> present e \<Longrightarrow> tree_walk lab d 1 k (page_mask e) va \<and> frame_of e = page_mask e"
  using tree_walk_next [OF assms, of lab d 2 k t e] tree_walk_next [OF assms, of lab d 1 k t e] tree_walk_next [OF assms, of lab d 0 k t e]
  by (simp_all add: numeral_eq_Suc)

lemma tree_walk_slots:
  "tree_walk lab d 4 k t va \<Longrightarrow> owned_slot k (slot_at t 3 va)" "tree_walk lab d 3 k t va \<Longrightarrow> owned_slot k (slot_at t 2 va)"
  "tree_walk lab d 2 k t va \<Longrightarrow> owned_slot k (slot_at t 1 va)" "tree_walk lab d 1 k t va \<Longrightarrow> owned_slot k (slot_at t 0 va)"
  using tree_walkD(2) [of lab d 3 k t va] tree_walkD(2) [of lab d 2 k t va] tree_walkD(2) [of lab d 1 k t va] tree_walkD(2) [of lab d 0 k t va]
  by (simp_all add: numeral_eq_Suc)

end
