(* ===== verification/UserMapping.thy ===== *)
theory UserMapping
  imports UserTables
begin

section \<open>Building user spaces: \<open>src/kernel/mm/paging.cpp\<close>\<close>

text \<open>
  \<open>mapPage\<close> and \<open>createPageDir\<close> keep the trees of the tasks; looking up an address keeps everything.
\<close>

subsection \<open>Mapping a page\<close>

text \<open>\<open>mapPage\<close>, one level after the other.\<close>

lemma mapPage_at_tree:
  assumes t: "tree lab k D" and d: "d \<in> D" and va: "va \<in> space_area" and run: "mapPage_at va pa flags d k = Some (r, k')"
  shows "stable k k' \<and> (\<exists>lab'. tree lab' k' D \<and> (\<forall>p. p < npages k \<longrightarrow> page_used k p \<longrightarrow> lab' p = lab p) \<and> (if r = 0 then same_spaces D k k' else
    r = va \<and> pt_lookup (phys k) d va = None \<and>
    (\<exists>a. a \<noteq> 0 \<and> (if pa = 0 then free_page k (unat a div 4096) else a = pa) \<and>
       pt_lookup (phys k') d va = Some (page_mask a OR (3 OR ucast (flags AND 0xFFF))) \<and>
       (unat a div 4096 < npages k \<longrightarrow> page_used k' (unat a div 4096)) \<and> (pa = 0 \<longrightarrow> lab' (unat a div 4096) = None)) \<and>
    (\<forall>d' \<in> D. \<forall>x \<in> space_area. d' \<noteq> d \<or> page_mask x \<noteq> page_mask va \<longrightarrow> pt_lookup (phys k') d' x = pt_lookup (phys k) d' x)))"
proof -
  note lv = tree_walk_levels [OF va]
  let ?fl = "ucast (flags AND 0xFFF) :: u64"
  note fl = flags_lt [of flags]
  have sl: "b + entry_off 39 va = slot_at b 3 va" "b + entry_off 30 va = slot_at b 2 va"
    "b + entry_off 21 va = slot_at b 1 va" "b + entry_off 12 va = slot_at b 0 va" for b
    by (simp_all add: slot_at_def)
  note run = run [unfolded mapPage_at_def Let_def sl]
  define e1 where "e1 = rd64 (phys k) (slot_at d 3 va)"
  let ?s1 = "slot_at d 3 va" and ?s2 = "slot_at (page_mask e1) 2 va"
  let ?k1 = "tmapped ?s1 k"
  have w0: "tree_walk lab d 4 k d va" using treeU [OF t d va] .
  note own1 = tree_walk_slots(1) [OF w0]
  have k1: "keeps {} {} k ?k1" using keeps_tmapped [OF tree_ok [OF t]] .
  note t1 = tree_keeps [OF k1 t] and st1 = stable_keeps [OF k1] and sp1 = same_spaces_keeps [OF k1 t]
  have r1: "phyread64 ?s1 k = Some (e1, ?k1)" "rd64 (phys ?k1) ?s1 = e1"
    using phyread64_owned [OF own1] rd64_tmapped [OF tree_ok [OF t] own1] by (simp_all add: e1_def)
  have p1: "present e1" using run r1 by (cases "present e1") auto
  have w1: "tree_walk lab d 3 ?k1 (page_mask e1) va" using lv(1) [OF treeU [OF t1 d va] r1(2) p1] ..
  note own2 = tree_walk_slots(2) [OF w1]
  obtain e2 k2 where te2: "table_entry ?s2 ?fl ?k1 = Some (e2, k2)"
    using run r1 p1 by (auto split: Option.bind_splits)
  note sp2 = table_entry_spec [OF te2 tree_ok [OF t1] own2 fl] and st2 = stable_table_entry [OF te2 tree_ok [OF t1] own2 fl]
  obtain lab2 where t2: "tree lab2 k2 D" "same_spaces D ?k1 k2" and l2: "\<forall>p. page_used ?k1 p \<longrightarrow> lab2 p = lab p"
    using tree_table_entry [of "page_mask e1" 1 va ?fl ?k1 e2 k2 lab D d] te2 fl t1 w1 va by (auto simp: numeral_eq_Suc)
  have e2: "rd64 (phys k2) ?s1 = e1" "rd64 (phys k2) ?s2 = e2" "present e2"
    using stable_read [OF st2 tree_walk_slots(1) [OF treeU [OF t1 d va]]] r1(2) p1 sp2 by simp_all
  let ?s3 = "slot_at (page_mask e2) 1 va"
  have w2: "tree_walk lab2 d 3 k2 (page_mask e1) va" "tree_walk lab2 d 2 k2 (page_mask e2) va"
    using lv(1) [OF treeU [OF t2(1) d va] e2(1) p1] lv(2) [OF _ e2(2,3)] by blast+
  note own3 = tree_walk_slots(3) [OF w2(2)]
  obtain e3 k3 where te3: "table_entry ?s3 ?fl k2 = Some (e3, k3)"
    using run r1(1) p1 te2 by (auto split: Option.bind_splits)
  note sp3 = table_entry_spec [OF te3 tree_ok [OF t2(1)] own3 fl] and st3 = stable_table_entry [OF te3 tree_ok [OF t2(1)] own3 fl]
  obtain lab3 where t3: "tree lab3 k3 D" "same_spaces D k2 k3" and l3: "\<forall>p. page_used k2 p \<longrightarrow> lab3 p = lab2 p"
    using tree_table_entry [of "page_mask e2" 0 va ?fl k2 e3 k3 lab2 D d] te3 fl t2 w2(2) va by (auto simp: numeral_eq_Suc)
  have e3: "rd64 (phys k3) ?s1 = e1" "rd64 (phys k3) ?s2 = e2" "rd64 (phys k3) ?s3 = e3" "present e3"
    using stable_read [OF st3 tree_walk_slots(1) [OF treeU [OF t2(1) d va]]] stable_read [OF st3 tree_walk_slots(2) [OF w2(1)]]
      e2 p1 sp3 by simp_all
  let ?s4 = "slot_at (page_mask e3) 0 va" and ?k4 = "tmapped (slot_at (page_mask e3) 0 va) k3"
  have k4: "keeps {} {} k3 ?k4" using keeps_tmapped [OF tree_ok [OF t3(1)]] .
  note t4 = tree_keeps [OF k4 t3(1)]
  have st4: "stable k ?k4" using stable_trans [OF stable_trans [OF stable_trans [OF st1 st2] st3] stable_keeps [OF k4]] .
  have same4: "same_spaces D k ?k4"
    using same_spaces_trans [OF same_spaces_trans [OF same_spaces_trans [OF sp1 t2(2)] t3(2)] same_spaces_keeps [OF k4 t3(1)]] .
  have w3: "tree_walk lab3 d 3 k3 (page_mask e1) va" "tree_walk lab3 d 2 k3 (page_mask e2) va" "tree_walk lab3 d 1 k3 (page_mask e3) va"
    using lv(1) [OF treeU [OF t3(1) d va] e3(1) p1] lv(2) [OF _ e3(2) e2(3)] lv(3) [OF _ e3(3,4)] by blast+
  have r4: "phyread64 ?s4 k3 = Some (rd64 (phys k3) ?s4, ?k4)" "rd64 (phys ?k4) ?s4 = rd64 (phys k3) ?s4"
    using phyread64_owned [OF tree_walk_slots(4) [OF w3(3)]] rd64_tmapped [OF tree_ok [OF t3(1)] tree_walk_slots(4) [OF w3(3)]] by simp_all
  have own4: "owned_slot ?k4 ?s4" using owned_slot_keeps [OF tree_walk_slots(4) [OF w3(3)] k4] .
  have frames: "frame_of e1 = page_mask e1" "frame_of e2 = page_mask e2" "frame_of e3 = page_mask e3"
    using lv(1) [OF treeU [OF t3(1) d va] e3(1) p1] lv(2) [OF w3(1) e3(2) e2(3)] lv(3) [OF w3(2) e3(3,4)] by simp_all
  have lk: "pt_lookup (phys q) d va = (if present x then Some x else None)" if "stable k3 q" "rd64 (phys q) ?s4 = x" for q x
  proof -
    have "rd64 (phys q) ?s1 = e1" "rd64 (phys q) ?s2 = e2" "rd64 (phys q) ?s3 = e3"
      using stable_read [OF that(1)] tree_walk_slots(1) [OF treeU [OF t3(1) d va]] tree_walk_slots(2) [OF w3(1)]
        tree_walk_slots(3) [OF w3(2)] e3 p1 e2(3) by simp_all
    then show ?thesis
      using pt_lookup_entries [of e1 e2 e3 "phys q" d va x] p1 e2(3) e3(4) that(2) frames by (simp add: sl)
  qed
  have lab3: "\<forall>p. p < npages k \<longrightarrow> page_used k p \<longrightarrow> lab3 p = lab p"
    using l2 l3 stable_used [OF st1] stable_used [OF stable_trans [OF st1 st2]] by simp
  let ?a = "if pa = 0 then getFreePhysPage ?k4 else pa"
  let ?e4 = "page_mask ?a OR (PAGE_ATTR_PRESENT OR PAGE_ATTR_WRITE OR ?fl)"
  let ?k5 = "stored ?s4 ?e4 ?k4"
  have res: "r = 0 \<and> k' = ?k4 \<or> ?a \<noteq> 0 \<and> \<not> present (rd64 (phys k3) ?s4) \<and> r = va \<and> k' = markPhysPageUsed (ucast (page_mask ?a div PAGESIZE)) ?k5"
    using run r1(1) p1 te2 te3 r4(1) phywrite64_owned [OF own4] by (auto split: if_splits)
  show ?thesis
  proof (cases "r = 0")
    case True
    then have "k' = ?k4" using res space_area_nonzero [OF va] by auto
    then show ?thesis using t4 st4 same4 True lab3 by auto
  next
    case False
    with res have np: "\<not> present (rd64 (phys k3) ?s4)" and r: "r = va" "?a \<noteq> 0"
      and k': "k' = markPhysPageUsed (ucast (page_mask ?a div PAGESIZE)) ?k5" by auto
    have w4: "tree_walk lab3 d (Suc 0) ?k4 (page_mask e3) va" using tree_walk_keeps [OF k4 refl w3(3)] by simp
    have np4: "\<not> present (rd64 (phys ?k4) ?s4)" using np r4(2) by simp
    note leaf = tree_leaf [OF t4 w4 np4 refl, where e = ?e4]
    obtain A where m: "keeps {} A ?k5 k'" unfolding k' using keeps_mark by blast
    have st5: "stable ?k4 ?k5" using stable_stored [OF tree_ok [OF t4] own4 np4] .
    have st: "stable k3 k'" using stable_trans [OF stable_keeps [OF k4] stable_trans [OF st5 stable_keeps [OF m]]] .
    have p4: "present ?e4" by (simp add: present_bit bit_or_iff page_attr_defs)
    have "rd64 (phys k') ?s4 = ?e4"
      using stable_read [OF stable_keeps [OF m] stable_owned [OF st5 own4]] keeps_stored(2) [OF tree_ok [OF t4] own4] p4 by simp
    then have new: "pt_lookup (phys k') d va = Some (page_mask ?a OR (3 OR ?fl))"
      using lk [OF st] p4 by (simp add: page_attr_defs flip: or.assoc)
    have "pt_lookup (phys ?k4) d va = None" using lk [OF stable_keeps [OF k4] r4(2)] np by simp
    then have old: "pt_lookup (phys k) d va = None" using same4 d va by (simp add: same_spaces_def)
    have others: "\<forall>d' \<in> D. \<forall>x \<in> space_area. d' \<noteq> d \<or> page_mask x \<noteq> page_mask va \<longrightarrow> pt_lookup (phys k') d' x = pt_lookup (phys k) d' x"
      using leaf(2) same4 same_spaces_keeps [OF m leaf(1)] by (simp add: same_spaces_def)
    have "stable k k'" using stable_trans [OF st4 stable_trans [OF st5 stable_keeps [OF m]]] .
    moreover have tr: "tree lab3 k' D" using tree_keeps [OF m leaf(1)] .
    moreover have src: "if pa = 0 then free_page k (unat ?a div 4096) else ?a = pa"
    proof (cases "pa = 0")
      case True
      then have ne: "getFreePhysPage ?k4 \<noteq> 0" using r(2) by simp
      obtain p where "free_page ?k4 p" "unat (getFreePhysPage ?k4) = p * 4096"
        using getFreePhysPage_free [OF tree_ok [OF t4] refl ne] .
      then show ?thesis using stable_free [OF st4] True by simp
    qed simp
    moreover have used: "page_used k' (unat ?a div 4096)" if "unat ?a div 4096 < npages k"
    proof -
      have np: "npages ?k5 = npages k" using stable_npages [OF stable_trans [OF st4 st5]] .
      have "unat ?a div 4096 < 2 ^ 32" using that npages_bound [of k] by simp
      from keeps_used [OF keeps_mark_page_of [OF this, of ?k5]] show ?thesis using that np by (simp add: k')
    qed
    moreover have unlabelled: "lab3 (unat ?a div 4096) = None" if "pa = 0"
    proof (rule ccontr)
      assume "\<not> ?thesis"
      then obtain l where "lab3 (unat ?a div 4096) = Some l" by auto
      from tree_labels [OF t4 this] have "page_used ?k4 (unat ?a div 4096)" by simp
      then show False using getFreePhysPage_free [OF tree_ok [OF t4] refl] r(2) that by (fastforce simp: free_page_def)
    qed
    moreover have "\<exists>a. a \<noteq> 0 \<and> (if pa = 0 then free_page k (unat a div 4096) else a = pa) \<and>
       pt_lookup (phys k') d va = Some (page_mask a OR (3 OR ucast (flags AND 0xFFF))) \<and>
       (unat a div 4096 < npages k \<longrightarrow> page_used k' (unat a div 4096)) \<and> (pa = 0 \<longrightarrow> lab3 (unat a div 4096) = None)"
      by (rule exI [of _ ?a]) (intro conjI impI r(2) src new used unlabelled)
    ultimately show ?thesis using False r(1) old others lab3 by (simp only: if_False) blast
  qed
qed

lemma mapPage_tree:
  assumes "tree lab k D" "d \<in> D" "va \<in> space_area" "mapPage va pa flags d k = Some (r, k')"
  obtains lab' where "tree lab' k' D" "\<forall>p. p < npages k \<longrightarrow> page_used k p \<longrightarrow> lab' p = lab p" "stable k k'"
    "if r = 0 then same_spaces D k k' else
      r = va \<and> pt_lookup (phys k) d va = None \<and>
      (\<exists>a. a \<noteq> 0 \<and> (if pa = 0 then free_page k (unat a div 4096) else a = pa) \<and>
         pt_lookup (phys k') d va = Some (page_mask a OR (3 OR ucast (flags AND 0xFFF))) \<and>
         (unat a div 4096 < npages k \<longrightarrow> page_used k' (unat a div 4096)) \<and> (pa = 0 \<longrightarrow> lab' (unat a div 4096) = None)) \<and>
      (\<forall>d' \<in> D. \<forall>x \<in> space_area. d' \<noteq> d \<or> page_mask x \<noteq> page_mask va \<longrightarrow> pt_lookup (phys k') d' x = pt_lookup (phys k) d' x)"
proof -
  have "mapPage_at va pa flags d k = Some (r, k')" using assms(4) space_area_nonzero [OF assms(3)] by (simp add: mapPage_def)
  from mapPage_at_tree [OF assms(1-3) this] show ?thesis using that by blast
qed

lemma pt_lookup_page: "pt_lookup m pml4 (page_mask x) = pt_lookup m pml4 x"
proof -
  have "drop_bit sh (page_mask x) = drop_bit sh x" if "12 \<le> sh" for sh
    by (rule bit_eqI) (use that in \<open>auto simp: bit_drop_bit_eq bit_page_mask\<close>)
  then have "entry_off sh (page_mask x) = entry_off sh x" if "12 \<le> sh" for sh
    using that by (simp add: entry_off_def)
  then show ?thesis by (simp add: pt_lookup_def Let_def)
qed

lemma page_mask_le: "page_mask va \<le> va"
  by (simp add: word_le_nat_alt unat_page_mask)

lemma space_area_page: "va \<in> space_area \<Longrightarrow> page_mask va \<in> space_area"
  using page_mask_bounds(2) [of va] page_mask_le [of va] by (auto simp: space_area_def)

lemma getPAddr_keeps:
  assumes "paging_ok k" "getPAddr va k = Some (r, k')"
  shows "keeps {} {} k k'"
proof -
  have read: "keeps {} {} q q'" if "phyread a n q = Some (bs, q')" "paging_ok q" for a n q bs q'
    using that
  proof (induction a n q arbitrary: bs q' rule: phyread.induct)
    case (1 a n q)
    show ?case
    proof (cases "n = 0")
      case True
      then show ?thesis using 1(2) by (simp add: phyread.simps keeps_def)
    next
      case False
      let ?t = "tmapped a q"
      have t: "keeps {} {} q ?t" using keeps_tmapped [OF 1(3)] .
      obtain bs' q'' where "phyread (a + of_nat (min n (4096 - unat (a - page_mask a)))) (n - min n (4096 - unat (a - page_mask a))) ?t = Some (bs', q')"
        using 1(2) False by (subst (asm) phyread.simps) (auto simp: tmpmap_page Let_def split: option.splits)
      from 1(1) [OF False refl tmpmap_page refl refl refl this paging_ok_keeps [OF 1(3) t]] show ?thesis
        using keeps_trans [OF t] by force
    qed
  qed
  have r64: "keeps {} {} k q'" if "phyread64 a q = Some (e, q')" "keeps {} {} k q" for a q e q'
    using that read [of a 8 q] paging_ok_keeps [OF assms(1) that(2)] keeps_trans [OF that(2)]
    by (force simp: phyread64_def split: Option.bind_splits)
  show ?thesis
    using assms(2) r64 [of _ k] r64 by (auto simp: getPAddr_def keeps_def [of "{}" "{}" k k] split: Option.bind_splits if_splits)
qed

subsection \<open>A new directory\<close>

text \<open>Where an address leads in the first two tables.\<close>

lemma canonical_prefix: "va < 0x1000000000000 \<Longrightarrow> drop_bit 48 va = (0 :: u64)"
proof -
  assume "va < 0x1000000000000"
  then have "unat va div 2 ^ 48 = 0" by (simp add: word_less_nat_alt)
  then have "unat (drop_bit 48 va) = 0" by (simp add: drop_bit_eq_div unat_div)
  then show ?thesis by (metis unat_eq_0)
qed

lemma entry_prefix:
  assumes "va < 0x1000000000000"
  shows "entry_off 39 va = 0 \<Longrightarrow> drop_bit 39 va = 0" "entry_off 39 va = 0 \<Longrightarrow> entry_off 30 va = 0 \<longleftrightarrow> va < USER_OFFSET"
proof -
  have z: "entry_off sh 0 = 0" for sh by (simp add: entry_off_def)
  show a: "entry_off 39 va = 0 \<Longrightarrow> drop_bit 39 va = 0"
    using same_entry [of 39 va 0] canonical_prefix [OF assms] z by simp
  assume "entry_off 39 va = 0"
  then show "entry_off 30 va = 0 \<longleftrightarrow> va < USER_OFFSET"
    using same_entry [of 30 va 0] a z below_user [of va] by (auto simp: entry_off_def)
qed

lemma one_entry_read:
  assumes "one_entry k p e"
  shows "rd64 (phys k) (of_nat p * 0x1000 + entry_off sh va) = (if entry_off sh va = 0 then e else 0)"
proof -
  have m: "(0x1FF :: u64) = mask 9" by (simp add: mask_eq_exp_minus_1)
  define i where "i = unat (drop_bit sh va AND 0x1FF)"
  have lt: "i < 512" unfolding i_def m using take_bit_nat_less_exp [of 9 "unat (drop_bit sh va)"] by (simp add: unsigned_take_bit_eq flip: take_bit_eq_mask)
  have off: "entry_off sh va = of_nat i * 8" by (simp add: entry_off_def i_def)
  have "unat (of_nat i * 8 :: u64) = i * 8" using lt by (simp add: unat_word_ariths unsigned_of_nat take_bit_nat_eq_self)
  moreover have "(of_nat i * 8 :: u64) = 0 \<longleftrightarrow> unat (of_nat i * 8 :: u64) = 0" by (simp only: unat_eq_0)
  ultimately have z: "(of_nat i * 8 :: u64) = 0 \<longleftrightarrow> i = 0" by simp
  have "rd64 (phys k) (entry_addr p i) = (if i = 0 then e else 0)" using assms lt by (simp add: one_entry_def)
  then show ?thesis unfolding off z entry_addr_def .
qed

lemma createPageDir_tree:
  assumes t: "tree lab k D" and run: "createPageDir k = Some (r, k')" "r \<noteq> 0"
  shows "(\<exists>lab'. tree lab' k' (insert r D) \<and> (\<forall>p. page_used k p \<longrightarrow> lab' p = lab p)) \<and> stable k k' \<and> r \<notin> D \<and> same_spaces D k k' \<and> (\<forall>x \<in> space_area. pt_lookup (phys k') r x = None)"
proof -
  note ok = tree_ok [OF t]
  obtain p q where r: "r = of_nat p * 0x1000" and pq: "p \<noteq> q" "free_page k p" "free_page k q" "keeps {} {p, q} k k'"
    and tab: "one_entry k' p ((of_nat q * 0x1000) OR 7)" "one_entry k' q (PD0_ADDR OR 7)"
    using createPageDir_cases [OF ok] run by auto
  let ?lab = "lab(p \<mapsto> (r, 3, 0), q \<mapsto> (r, 2, 0))"
  have lt: "p < 2 ^ 32" "q < 2 ^ 32" using pq(2,3) npages_bound [of k] by (simp_all add: free_page_def)
  have own: "owned_slot k' (slot_at (of_nat t * 0x1000) n va)" "unat (slot_at (of_nat t * 0x1000) n va) div 4096 = t"
    if "t = p \<or> t = q" for t n va
  proof -
    have f: "free_page k t" "t < 2 ^ 32" using that pq(2,3) lt by auto
    show "owned_slot k' (slot_at (of_nat t * 0x1000) n va)" unfolding slot_at_def
      by (rule owned_slot_page [OF fresh_kept [OF ok f(1) _ pq(4)] f(2)]) (use that in auto)
    show "unat (slot_at (of_nat t * 0x1000) n va) div 4096 = t" unfolding slot_at_def using page_of_slot [OF f(2), of 0 "12 + 9 * n" va] by simp
  qed
  have pm: "page_mask ((of_nat q * 0x1000) OR 7) = of_nat q * 0x1000"
    using page_mask_flags [OF page_mask_of_page, of 4 q] by (simp add: page_attr_defs flip: or.assoc)
  have p7: "present ((of_nat q * 0x1000) OR 7)" "\<not> present 0" by (simp_all add: present_bit bit_or_iff bit_simps)
  have lab: "?lab x = lab x" if "page_used k x" for x using that pq(2,3) by (auto simp: free_page_def)
  have shared: "page_mask (PD0_ADDR OR 7) = PD0_ADDR" by code_simp
  have w3: "tree_walk ?lab r (Suc 2) k' (of_nat q * 0x1000) va" if "va < 0x1000000000000" "entry_off 39 va = 0" for va
  proof -
    have "rd64 (phys k') (slot_at (of_nat q * 0x1000) 2 va) = (if va < USER_OFFSET then PD0_ADDR OR 7 else 0)"
      using one_entry_read [OF tab(2), of 30 va] entry_prefix [OF that(1)] that(2) by (simp add: slot_at_def)
    then show ?thesis
      by (intro tree_walkI) (use own [of q 2 va] p7(2) pq(1) entry_prefix [OF that(1)] that(2) in \<open>simp_all add: page_mask_of_page shared_def shared split: if_splits\<close>)
  qed
  have rd: "rd64 (phys k') (slot_at r 3 va) = (if entry_off 39 va = 0 then (of_nat q * 0x1000) OR 7 else 0)" for va
    using one_entry_read [OF tab(1), of 39 va] by (simp add: slot_at_def r)
  have w4: "tree_walk ?lab r (Suc 3) k' r va" if "va < 0x1000000000000" for va
    by (rule tree_walkI) (use own [of p 3 va] rd [of va] pm p7 w3 [OF that] pq(1) canonical_prefix [OF that] in \<open>simp_all add: page_mask_of_page r shared_def split: if_splits\<close>)
  have none: "pt_lookup (phys k') r va = None" if va: "va \<in> space_area" for va
  proof (cases "entry_off 39 va = 0")
    case True
    have va': "va < 0x1000000000000" "\<not> va < USER_OFFSET" using va by (auto simp: space_area_def)
    then have rd2: "rd64 (phys k') (slot_at (of_nat q * 0x1000) 2 va) = 0"
      using one_entry_read [OF tab(2), of 30 va] entry_prefix [OF va'(1)] True by (simp add: slot_at_def)
    have n: "shifts 4 = shifts (Suc 3)" "shifts 3 = shifts (Suc 2)" by simp_all
    have fr: "frame_of ((of_nat q * 0x1000) OR 7) = of_nat q * 0x1000"
      using frame_of_tree [of ?lab r 2 k' "(of_nat q * 0x1000) OR 7" va] w3 [OF va'(1) True] pm by simp
    show ?thesis
      unfolding pt_lookup_def shifts_4 n pt_walk_Suc Let_def rd if_P [OF True] fr rd2 by (simp add: p7)
  next
    case False
    have n: "shifts 4 = shifts (Suc 3)" by simp
    show ?thesis unfolding pt_lookup_def shifts_4 n pt_walk_Suc Let_def rd by (simp add: p7 False)
  qed
  have old: "tree_walk ?lab d 4 k' d va" if "d \<in> D" "va < 0x1000000000000" for d va
    by (rule tree_walk_keeps [OF pq(4) lab treeD [OF t that]])
  have "r \<notin> D"
  proof
    assume "r \<in> D"
    moreover have "USER_OFFSET \<in> space_area" by (simp add: space_area_def USER_OFFSET_def)
    ultimately have "tree_walk lab r (Suc 3) k r USER_OFFSET" using treeU [OF t] by fastforce
    from tree_slot_used [OF this] have "page_used k p" using own(2) [of p 3 USER_OFFSET] by (simp add: r)
    then show False using pq(2) by (simp add: free_page_def)
  qed
  moreover have "tree ?lab k' (insert r D)"
    by (rule tree_bind [OF t pq(4)]) (use w4 old pq(2,3) in \<open>auto split: if_splits\<close>)
  ultimately show ?thesis
    using none lab stable_keeps [OF pq(4)] same_spaces_keeps [OF pq(4) t] by blast
qed

subsection \<open>A machine with one user page\<close>

text \<open>2 MiB of memory, tables in pages 1, 2, 6 and 7, and page 8 mapped at \<open>0x40000000\<close>.\<close>

definition user_kmem :: kmem where
  "user_kmem = \<lparr>phys = wr64 (wr64 (wr64 (wr64 ((\<lambda>_. 0)(0x100000 := 0xFF, 0x100001 := 1, 0x100020 := 1))
       0x1000 0x2003) 0x2008 0x6003) 0x6000 0x7003) 0x7000 0x8003,
     physPageBitmap = 0x100000, maxPhysPages = 512\<rparr>"

lemma rd64_wr64_slot: "s AND 7 = 0 \<Longrightarrow> t AND 7 = 0 \<Longrightarrow> rd64 (wr64 m t v) s = (if s = t then v else rd64 m s)"
proof (cases "s = t")
  case True
  then show ?thesis by (simp add: rd64_wr64_same)
next
  case False
  assume "s AND 7 = 0" "t AND 7 = 0"
  then have d: "bytes_at s 8 \<inter> bytes_at t 8 = {}" using slots_disjoint False by blast
  have "wr64 m t v (s + of_nat i) = m (s + of_nat i)" if "i < 8" for i
  proof -
    have "s + of_nat i \<in> bytes_at s 8" using that by (simp add: bytes_at_def unat_of_nat)
    then have "s + of_nat i \<notin> bytes_at t 8" using d by blast
    then show ?thesis by (simp add: wr64_def wr_def bytes_at_def)
  qed
  then have "rd (wr64 m t v) s 8 = rd m s 8" by (intro rd_cong) simp
  then show ?thesis using False by (simp add: rd64_def)
qed

lemma user_kmem_reads:
  assumes "s AND 7 = 0" "unat s < 0x8000"
  shows "rd64 (phys user_kmem) s = (if s = 0x7000 then 0x8003 else if s = 0x6000 then 0x7003 else if s = 0x2008 then 0x6003
     else if s = 0x1000 then 0x2003 else 0)"
proof -
  let ?m = "(\<lambda>_. 0)(0x100000 := 0xFF, 0x100001 := 1, 0x100020 := 1) :: mem"
  have "?m (s + of_nat i) = 0" if "i < 8" for i
  proof -
    have "unat (s + of_nat i) = unat s + i" by (rule unat_add_small) (use assms(2) that in simp)
    then have "unat (s + of_nat i) < 0x8008" using assms(2) that by simp
    then have "s + of_nat i \<noteq> 0x100000" "s + of_nat i \<noteq> 0x100001" "s + of_nat i \<noteq> 0x100020" by auto
    then show ?thesis by simp
  qed
  then have "rd ?m s 8 = rd (\<lambda>_. 0) s 8" by (intro rd_cong) simp
  moreover have "rd64 (\<lambda>_. 0) s = 0" by (simp add: rd64_def rd_def numeral_eq_Suc)
  ultimately have "rd64 ?m s = 0" by (simp add: rd64_def)
  then show ?thesis using assms(1) by (simp add: user_kmem_def rd64_wr64_slot)
qed

lemma user_kmem_used: "page_used user_kmem 0" "page_used user_kmem 1" "page_used user_kmem 2" "page_used user_kmem 4"
  "page_used user_kmem 6" "page_used user_kmem 7" "page_used user_kmem 256"
  by (simp_all add: user_kmem_def page_used_def bitmap_byte_def bit_iff_odd_drop_bit wr64_def wr_def)

lemma user_kmem_bitmap:
  assumes "in_bitmap user_kmem x"
  shows "unat x div 4096 = 256"
proof -
  have "0x100000 \<le> unat x \<and> unat x < 0x100040"
    using assms by (auto simp: in_bitmap_def user_kmem_def bitmap_size_def unat_sub_if' split: if_splits)
  then show ?thesis by (intro div_nat_eqI) auto
qed

lemma tmp_slot_page: "tmp_slot x \<Longrightarrow> unat x div 4096 = 4"
  by (auto simp: tmp_slot_def TMP_PTE_eq unat_sub_if' split: if_splits intro!: div_nat_eqI)

lemma user_kmem_ok: "paging_ok user_kmem"
proof -
  have "page_used user_kmem (unat x div 4096) \<and> \<not> tmp_slot x" if "in_bitmap user_kmem x" for x
    using user_kmem_bitmap [OF that] user_kmem_used(7) tmp_slot_page [of x] by auto
  then show ?thesis using user_kmem_used by (auto simp: paging_ok_def npages_def) (simp_all add: user_kmem_def)
qed

lemma user_kmem_kept:
  assumes "unat x div 4096 \<in> {1, 2, 6, 7}"
  shows "kept user_kmem x"
proof -
  have "page_used user_kmem (unat x div 4096)" using assms user_kmem_used by auto
  moreover have "unat x div 4096 < npages user_kmem" using assms by (auto simp: npages_def user_kmem_def)
  moreover have "\<not> in_bitmap user_kmem x" "\<not> tmp_slot x" using assms user_kmem_bitmap [of x] tmp_slot_page [of x] by auto
  ultimately show ?thesis by (simp add: kept_def)
qed

text \<open>The entries that are there are those of the page at \<open>0x40000000\<close>.\<close>

lemma user_kmem_page:
  assumes "p \<in> {1, 2, 6, 7}"
  shows "owned_slot user_kmem (slot_at (of_nat p * 0x1000) n va)" "unat (slot_at (of_nat p * 0x1000) n va) div 4096 = p"
    "rd64 (phys user_kmem) (slot_at (of_nat p * 0x1000) n va) =
      (if p = 7 \<and> entry_off (12 + 9 * n) va = 0 then 0x8003 else if p = 6 \<and> entry_off (12 + 9 * n) va = 0 then 0x7003
       else if p = 2 \<and> entry_off (12 + 9 * n) va = 8 then 0x6003 else if p = 1 \<and> entry_off (12 + 9 * n) va = 0 then 0x2003 else 0)"
proof -
  let ?s = "slot_at (of_nat p * 0x1000) n va"
  have p32: "p < 2 ^ 32" using assms by auto
  have k: "kept user_kmem x" if "unat x div 4096 = p" for x
    using that assms by (intro user_kmem_kept) simp
  show own: "owned_slot user_kmem ?s" unfolding slot_at_def
    by (rule owned_slot_page [OF k p32]) auto
  show pg: "unat ?s div 4096 = p" unfolding slot_at_def using page_of_slot [OF p32, of 0 "12 + 9 * n" va] by simp
  have lt: "unat ?s < 0x8000" using pg assms by auto
  note r = user_kmem_reads [OF conjunct1 [OF owned_slot_low [OF own]] lt]
  have ne: "?s \<noteq> x" if "unat x div 4096 \<noteq> p" for x using pg that by auto
  show "rd64 (phys user_kmem) ?s =
      (if p = 7 \<and> entry_off (12 + 9 * n) va = 0 then 0x8003 else if p = 6 \<and> entry_off (12 + 9 * n) va = 0 then 0x7003
       else if p = 2 \<and> entry_off (12 + 9 * n) va = 8 then 0x6003 else if p = 1 \<and> entry_off (12 + 9 * n) va = 0 then 0x2003 else 0)"
    using assms ne [of "0x7000"] ne [of "0x6000"] ne [of "0x2008"] ne [of "0x1000"] unfolding r by (auto simp: slot_at_def)
qed

lemma user_kmem_tables: "tree [1 \<mapsto> (0x1000, 3, 0), 2 \<mapsto> (0x1000, 2, 0), 6 \<mapsto> (0x1000, 1, 1), 7 \<mapsto> (0x1000, 0, 0x200)] user_kmem {0x1000}"
proof -
  let ?lab = "[1 \<mapsto> (0x1000, 3, 0), 2 \<mapsto> (0x1000, 2, 0), 6 \<mapsto> (0x1000, 1, 1), 7 \<mapsto> (0x1000, 0, 0x200)] :: labels"
  have masks: "page_mask 0x1000 = 0x1000" "page_mask 0x2000 = 0x2000" "page_mask 0x6000 = 0x6000" "page_mask 0x7000 = 0x7000"
    "page_mask 0x2003 = 0x2000" "page_mask 0x6003 = 0x6000" "page_mask 0x7003 = 0x7000" by code_simp+
  have off: "entry_off 30 0x40000000 = 8" "entry_off 21 0x40000000 = 0" "drop_bit 39 (0x40000000 :: u64) = 0"
    "drop_bit 30 (0x40000000 :: u64) = 1" "drop_bit 21 (0x40000000 :: u64) = 0x200" by code_simp+
  have np: "\<not> present 0" by (simp add: present_bit)
  have w1: "tree_walk ?lab 0x1000 (Suc 0) user_kmem 0x7000 va" if "drop_bit 21 va = 0x200" for va
    by (rule tree_walkI) (use user_kmem_page [of 7 0 va] that masks in simp_all)
  have w2: "tree_walk ?lab 0x1000 (Suc 1) user_kmem 0x6000 va" if "drop_bit 30 va = 1" for va
  proof (rule tree_walkI)
    assume "present (rd64 (phys user_kmem) (slot_at 0x6000 1 va))"
    then have e: "entry_off 21 va = 0" "rd64 (phys user_kmem) (slot_at 0x6000 1 va) = 0x7003"
      using user_kmem_page [of 6 1 va] np by (simp_all split: if_splits)
    then have "drop_bit 21 va = 0x200" using same_entry [of 21 va "0x40000000"] that off by simp
    then show "tree_walk ?lab 0x1000 1 user_kmem (page_mask (rd64 (phys user_kmem) (slot_at 0x6000 1 va))) va"
      using w1 e(2) masks by simp
  qed (use user_kmem_page [of 6 1 va] that masks in simp_all)
  have w3: "tree_walk ?lab 0x1000 (Suc 2) user_kmem 0x2000 va" if "drop_bit 39 va = 0" for va
  proof (rule tree_walkI)
    assume "present (rd64 (phys user_kmem) (slot_at 0x2000 2 va))"
    then have e: "entry_off 30 va = 8" "rd64 (phys user_kmem) (slot_at 0x2000 2 va) = 0x6003"
      using user_kmem_page [of 2 2 va] np by (simp_all split: if_splits)
    then have one: "drop_bit 30 va = 1" using same_entry [of 30 va "0x40000000"] that off by simp
    then show "tree_walk ?lab 0x1000 2 user_kmem (page_mask (rd64 (phys user_kmem) (slot_at 0x2000 2 va))) va"
      using w2 e(2) masks by (simp add: numeral_2_eq_2)
    show "shared 2 va \<Longrightarrow> page_mask (rd64 (phys user_kmem) (slot_at 0x2000 2 va)) = PD0_ADDR"
      using one by (simp add: shared_def below_user)
  qed (use user_kmem_page [of 2 2 va] that masks in simp_all)
  have "tree_walk ?lab 0x1000 (Suc 3) user_kmem 0x1000 va" if "va < 0x1000000000000" for va
    by (rule tree_walkI)
      (use user_kmem_page [of 1 3 va] canonical_prefix [OF that] entry_prefix(1) [OF that] w3 masks np in \<open>simp_all split: if_splits\<close>)
  then have w: "tree_walk ?lab d 4 user_kmem d va" if "d \<in> {0x1000}" "va < 0x1000000000000" for d va using that by simp
  have "fst l = 0x1000 \<and> p < npages user_kmem \<and> page_used user_kmem p \<and> \<not> reserved user_kmem p" if "?lab p = Some l" for p l
  proof -
    have p: "p \<in> {1, 2, 6, 7}" "fst l = 0x1000" using that by (auto split: if_splits)
    then have "page_used user_kmem p" "p < npages user_kmem" using user_kmem_used by (auto simp: npages_def user_kmem_def)
    moreover have "\<not> reserved user_kmem p" using p(1) user_kmem_bitmap by (auto simp: reserved_def)
    ultimately show ?thesis using p(2) by blast
  qed
  moreover have "page_used user_kmem 3" by (simp add: user_kmem_def page_used_def bitmap_byte_def bit_iff_odd_drop_bit wr64_def wr_def)
  ultimately show ?thesis using user_kmem_ok w unfolding tree_def by blast
qed

lemma user_kmem_lookup: "pt_lookup (phys user_kmem) 0x1000 0x40000000 = Some 0x8003" "pt_lookup (phys user_kmem) 0x1000 0x40001000 = None"
    "pt_walk [39, 30, 21] (phys user_kmem) 0x1000 0x40001000 \<noteq> None" "walk_plain [39, 30, 21, 12] (phys user_kmem) 0x1000 0x40000000"
proof -
  have o: "entry_off 39 0x40000000 = 0" "entry_off 30 0x40000000 = 8" "entry_off 21 0x40000000 = 0" "entry_off 12 0x40000000 = 0"
    "entry_off 39 0x40001000 = 0" "entry_off 30 0x40001000 = 8" "entry_off 21 0x40001000 = 0" "entry_off 12 0x40001000 = 8" by code_simp+
  have f: "frame_of 0x2003 = 0x2000" "frame_of 0x6003 = 0x6000" "frame_of 0x7003 = 0x7000"
    "page_mask 0x2003 = 0x2000" "page_mask 0x6003 = 0x6000" "page_mask 0x7003 = 0x7000"
    "\<not> bit (0x2003 :: u64) 11" "\<not> bit (0x6003 :: u64) 11" "\<not> bit (0x7003 :: u64) 11" "\<not> bit (0x8003 :: u64) 11" by code_simp+
  have r: "rd64 (phys user_kmem) 0x1000 = 0x2003" "rd64 (phys user_kmem) 0x2008 = 0x6003" "rd64 (phys user_kmem) 0x6000 = 0x7003"
    "rd64 (phys user_kmem) 0x7000 = 0x8003" "rd64 (phys user_kmem) 0x7008 = 0"
    by (simp_all add: user_kmem_reads)
  show "pt_lookup (phys user_kmem) 0x1000 0x40000000 = Some 0x8003" "pt_lookup (phys user_kmem) 0x1000 0x40001000 = None"
    "pt_walk [39, 30, 21] (phys user_kmem) 0x1000 0x40001000 \<noteq> None" "walk_plain [39, 30, 21, 12] (phys user_kmem) 0x1000 0x40000000"
    by (simp_all add: pt_lookup_def Let_def o f r present_bit)
qed

lemma user_kmem_walk: "owned_walk user_kmem 0x1000 0x40000000" "owned_walk user_kmem 0x1000 0x40001000"
proof -
  show "owned_walk user_kmem 0x1000 0x40000000" "owned_walk user_kmem 0x1000 0x40001000"
    by (rule tree_owned_walk [OF user_kmem_tables singletonI], simp add: space_area_def USER_OFFSET_def)+
qed

end
