(* ===== verification/SpaceMap.thy ===== *)
theory SpaceMap
  imports UserMapping
begin

section \<open>The user spaces and their isolation: \<open>src/kernel/mm/paging.cpp\<close>\<close>

text \<open>
  The page tables of the tasks seen as one map from directories and pages to entries: \<open>mapPage\<close>
  updates it at one point, and no physical page ever gets into it twice.
\<close>

subsection \<open>The user spaces as one map\<close>

text \<open>
  The abstract view: a map from directories and user pages to the entries the processor finds.
  \<open>mapPage\<close> updates it at one point.
\<close>

definition space_map :: "u64 set \<Rightarrow> kmem \<Rightarrow> u64 \<times> u64 \<rightharpoonup> u64" where
  "space_map D k = (\<lambda>(d, x). if d \<in> D \<and> x \<in> space_area \<and> page_mask x = x then pt_lookup (phys k) d x else None)"

lemma mapPage_update:
  assumes "tree lab k D" "d \<in> D" "va \<in> space_area" "mapPage va pa flags d k = Some (r, k')"
  obtains lab' where "tree lab' k' D" "\<forall>p. p < npages k \<longrightarrow> page_used k p \<longrightarrow> lab' p = lab p" "stable k k'"
    "r = 0 \<and> space_map D k' = space_map D k \<or>
     r = va \<and> space_map D k (d, page_mask va) = None \<and>
     (\<exists>a. a \<noteq> 0 \<and> (if pa = 0 then free_page k (unat a div 4096) else a = pa) \<and>
       (unat a div 4096 < npages k \<longrightarrow> page_used k' (unat a div 4096)) \<and> (pa = 0 \<longrightarrow> lab' (unat a div 4096) = None) \<and>
       space_map D k' = (space_map D k)((d, page_mask va) \<mapsto> page_mask a OR (3 OR ucast (flags AND 0xFFF))))"
proof -
  obtain lab' where l: "tree lab' k' D" "\<forall>p. p < npages k \<longrightarrow> page_used k p \<longrightarrow> lab' p = lab p" "stable k k'"
    and m: "if r = 0 then same_spaces D k k' else
      r = va \<and> pt_lookup (phys k) d va = None \<and>
      (\<exists>a. a \<noteq> 0 \<and> (if pa = 0 then free_page k (unat a div 4096) else a = pa) \<and>
         pt_lookup (phys k') d va = Some (page_mask a OR (3 OR ucast (flags AND 0xFFF))) \<and>
         (unat a div 4096 < npages k \<longrightarrow> page_used k' (unat a div 4096)) \<and> (pa = 0 \<longrightarrow> lab' (unat a div 4096) = None)) \<and>
      (\<forall>d' \<in> D. \<forall>x \<in> space_area. d' \<noteq> d \<or> page_mask x \<noteq> page_mask va \<longrightarrow> pt_lookup (phys k') d' x = pt_lookup (phys k) d' x)"
    by (rule mapPage_tree [OF assms])
  show ?thesis
  proof (cases "r = 0")
    case True
    then have "space_map D k' = space_map D k" using m by (auto simp: space_map_def same_spaces_def)
    then show ?thesis using that [OF l] True by blast
  next
    case False
    then obtain a where r: "r = va" "pt_lookup (phys k) d va = None"
      and a: "a \<noteq> 0" "if pa = 0 then free_page k (unat a div 4096) else a = pa"
        "unat a div 4096 < npages k \<longrightarrow> page_used k' (unat a div 4096)" "pa = 0 \<longrightarrow> lab' (unat a div 4096) = None"
        "pt_lookup (phys k') d va = Some (page_mask a OR (3 OR ucast (flags AND 0xFFF)))"
      and other: "\<forall>d' \<in> D. \<forall>x \<in> space_area. d' \<noteq> d \<or> page_mask x \<noteq> page_mask va \<longrightarrow> pt_lookup (phys k') d' x = pt_lookup (phys k) d' x"
      using m by auto
    have "space_map D k (d, page_mask va) = None"
      using r(2) by (simp add: space_map_def pt_lookup_page)
    moreover have "space_map D k' = (space_map D k)((d, page_mask va) \<mapsto> page_mask a OR (3 OR ucast (flags AND 0xFFF)))"
    proof
      fix y show "space_map D k' y = ((space_map D k)((d, page_mask va) \<mapsto> page_mask a OR (3 OR ucast (flags AND 0xFFF)))) y"
        using other a(5) assms(2) space_area_page [OF assms(3)]
        by (cases y) (auto simp: space_map_def pt_lookup_page)
    qed
    ultimately show ?thesis using that [OF l] r(1) a(1-4) by blast
  qed
qed

text \<open>
  C3: \<open>mapPage\<close> of a user address implements an update of the map from directories and pages to
  entries: on success the page had no entry and now has one with the requested flags for the
  requested frame, or for a page that was free; on failure, and everywhere else, in this
  directory and in all others, no translation changes.
\<close>

theorem mapPage_refines_update:
  assumes "user_tables k D" "d \<in> D" "va \<in> space_area" "mapPage va pa flags d k = Some (r, k')"
  shows "user_tables k' D \<and> (r = 0 \<and> space_map D k' = space_map D k \<or>
    r = va \<and> space_map D k (d, page_mask va) = None \<and>
    (\<exists>a. a \<noteq> 0 \<and> (if pa = 0 then free_page k (unat a div 4096) else a = pa) \<and>
       space_map D k' = (space_map D k)((d, page_mask va) \<mapsto> page_mask a OR (3 OR ucast (flags AND 0xFFF)))))"
proof -
  obtain lab where t: "tree lab k D" using assms(1) by (auto simp: user_tables_def)
  show ?thesis by (rule mapPage_update [OF t assms(2-4)]) (unfold user_tables_def, blast)
qed

theorem mapPage_refines_update_witness:
  "\<exists>k'. mapPage 0x40001000 0xA000 4 0x1000 user_kmem = Some (0x40001000, k') \<and>
    space_map {0x1000} k' = (space_map {0x1000} user_kmem)((0x1000, 0x40001000) \<mapsto> 0xA007)"
proof -
  obtain k' where k': "mapPage 0x40001000 0xA000 4 0x1000 user_kmem = Some (0x40001000, k')"
    using mapPage_at_succeeds [OF user_kmem_ok user_kmem_walk(2) _ user_kmem_lookup(3,2), of "0xA000" 4] by (auto simp: mapPage_def)
  have "0x40001000 \<in> space_area" by (simp add: space_area_def USER_OFFSET_def)
  note m = mapPage_refines_update [OF _ singletonI this k'] user_kmem_tables
  have e: "page_mask 0x40001000 = 0x40001000" "page_mask 0xA000 = 0xA000" by code_simp+
  show ?thesis using m k' by (auto simp: e user_tables_def)
qed

subsection \<open>Isolation\<close>

text \<open>
  The spaces of the tasks are apart: the physical pages behind them are in use, no page is behind
  two of their pages, and none of them is a table or needed by paging itself.
\<close>

definition frame_no :: "u64 \<Rightarrow> nat" where "frame_no e = unat (frame_of e) div 4096"

definition exclusive :: "labels \<Rightarrow> kmem \<Rightarrow> u64 set \<Rightarrow> bool" where
  "exclusive lab k D \<longleftrightarrow>
     (\<forall>y e. space_map D k y = Some e \<longrightarrow> frame_of e = page_mask e \<and> frame_no e < npages k \<and>
        page_used k (frame_no e) \<and> \<not> reserved k (frame_no e) \<and> lab (frame_no e) = None) \<and>
     (\<forall>y z e f. space_map D k y = Some e \<longrightarrow> space_map D k z = Some f \<longrightarrow> frame_no e = frame_no f \<longrightarrow> y = z)"

definition isolated :: "kmem \<Rightarrow> u64 set \<Rightarrow> bool" where
  "isolated k D \<longleftrightarrow> (\<exists>lab. tree lab k D \<and> exclusive lab k D)"

lemma exclusiveD:
  assumes "exclusive lab k D" "space_map D k y = Some e"
  shows "frame_of e = page_mask e" "frame_no e < npages k" "page_used k (frame_no e)" "\<not> reserved k (frame_no e)"
    "lab (frame_no e) = None" "space_map D k z = Some f \<Longrightarrow> frame_no e = frame_no f \<Longrightarrow> y = z"
  using assms unfolding exclusive_def by blast+

lemma frame_entry:
  fixes fl :: u32
  assumes "unat a div 4096 < 2 ^ 32" "e = page_mask a OR (3 OR ucast (fl AND 0xFFF))"
  shows "frame_of e = page_mask e" "frame_no e = unat a div 4096"
proof -
  have pm: "page_mask e = page_mask a"
    using page_mask_flags [OF page_mask_idem flags_lt, of a fl] unfolding assms(2) by (simp add: page_attr_defs flip: or.assoc)
  have u: "unat (page_mask a) div 4096 = unat a div 4096" by (rule paddr_page)
  then have "unat (page_mask a) < 2 ^ 52" using assms by (simp add: div_less_iff_less_mult)
  then show "frame_of e = page_mask e"
    by (intro frame_of_owned [of e 0 0]) (simp add: pm entry_off_def word_less_nat_alt)
  then show "frame_no e = unat a div 4096" using pm u by (simp add: frame_no_def)
qed

lemma stable_reserved: "stable k k' \<Longrightarrow> reserved k' p = reserved k p"
  using reserved_keeps by (auto simp: stable_def)

lemma exclusive_same:
  assumes "exclusive lab k D" "stable k k'" "\<forall>p. p < npages k \<longrightarrow> page_used k p \<longrightarrow> lab' p = lab p"
    and "space_map D' k' = space_map D k"
  shows "exclusive lab' k' D'"
  using assms(1,3) stable_npages [OF assms(2)] stable_used [OF assms(2)] stable_reserved [OF assms(2)]
  unfolding exclusive_def assms(4) by simp

lemma isolated_keeps:
  assumes "keeps {} A k k'" "isolated k D"
  shows "isolated k' D \<and> space_map D k' = space_map D k"
proof -
  obtain lab where t: "tree lab k D" and x: "exclusive lab k D" using assms(2) by (auto simp: isolated_def)
  have "space_map D k' = space_map D k"
    using same_spaces_keeps [OF assms(1) t] by (auto simp: space_map_def same_spaces_def fun_eq_iff)
  then show ?thesis
    using exclusive_same [OF x stable_keeps [OF assms(1)]] tree_keeps [OF assms(1) t] unfolding isolated_def by blast
qed

lemma isolated_ok: "isolated k D \<Longrightarrow> paging_ok k"
  by (auto simp: isolated_def tree_def)

lemma isolated_tables: "isolated k D \<Longrightarrow> user_tables k D"
  by (auto simp: isolated_def user_tables_def)

lemma isolated_walk: "getPAddr va k = Some (pa, k') \<Longrightarrow> isolated k D \<Longrightarrow> isolated k' D \<and> space_map D k' = space_map D k"
  using isolated_keeps [OF getPAddr_keeps [OF isolated_ok]] by blast

lemma createPageDir_isolated:
  assumes "isolated k D" "createPageDir k = Some (r, k')" "r \<noteq> 0"
  shows "isolated k' (insert r D) \<and> r \<notin> D \<and> space_map (insert r D) k' = space_map D k"
proof -
  obtain lab where t: "tree lab k D" and x: "exclusive lab k D" using assms(1) by (auto simp: isolated_def)
  obtain lab' where t': "tree lab' k' (insert r D)" "\<forall>p. page_used k p \<longrightarrow> lab' p = lab p"
    and c: "stable k k'" "r \<notin> D" "same_spaces D k k'" "\<forall>x \<in> space_area. pt_lookup (phys k') r x = None"
    using createPageDir_tree [OF t assms(2,3)] by blast
  have m: "space_map (insert r D) k' = space_map D k"
    using c(3,4) by (auto simp: space_map_def same_spaces_def fun_eq_iff)
  have "exclusive lab' k' (insert r D)" by (rule exclusive_same [OF x c(1) _ m]) (use t'(2) in blast)
  then show ?thesis using t'(1) c(2) m unfolding isolated_def by blast
qed

lemma mapPage_isolated:
  assumes "isolated k D" "d \<in> D" "va \<in> space_area" "mapPage va 0 flags d k = Some (r, k')"
  shows "isolated k' D \<and> (\<forall>d' x. d' \<noteq> d \<longrightarrow> space_map D k' (d', x) = space_map D k (d', x))"
proof -
  obtain lab where t: "tree lab k D" and x: "exclusive lab k D" using assms(1) by (auto simp: isolated_def)
  obtain lab' where t': "tree lab' k' D" and lab: "\<forall>p. p < npages k \<longrightarrow> page_used k p \<longrightarrow> lab' p = lab p" and st: "stable k k'"
    and m: "r = 0 \<and> space_map D k' = space_map D k \<or>
     r = va \<and> space_map D k (d, page_mask va) = None \<and>
     (\<exists>a. a \<noteq> 0 \<and> (if (0 :: u64) = 0 then free_page k (unat a div 4096) else a = 0) \<and>
       (unat a div 4096 < npages k \<longrightarrow> page_used k' (unat a div 4096)) \<and> ((0 :: u64) = 0 \<longrightarrow> lab' (unat a div 4096) = None) \<and>
       space_map D k' = (space_map D k)((d, page_mask va) \<mapsto> page_mask a OR (3 OR ucast (flags AND 0xFFF))))"
    by (rule mapPage_update [OF t assms(2-4)])
  from m consider "space_map D k' = space_map D k"
    | a e where "free_page k (unat a div 4096)" "page_used k' (unat a div 4096)" "lab' (unat a div 4096) = None"
        "e = page_mask a OR (3 OR ucast (flags AND 0xFFF))" "space_map D k' = (space_map D k)((d, page_mask va) \<mapsto> e)"
    by (auto simp: free_page_def)
  then show ?thesis
  proof cases
    case 1
    then show ?thesis using exclusive_same [OF x st lab] t' unfolding isolated_def by auto
  next
    case 2
    have lt: "unat a div 4096 < npages k" "unat a div 4096 < 2 ^ 32" using 2(1) npages_bound [of k] by (simp_all add: free_page_def)
    note e = frame_entry [OF lt(2) 2(4)]
    have nr: "\<not> reserved k (unat a div 4096)" using reserved_free [OF tree_ok [OF t] _ 2(1)] t by (simp add: tree_def)
    have old: "frame_no f \<noteq> unat a div 4096" if "space_map D k y = Some f" for y f
      using exclusiveD(3) [OF x that] 2(1) by (auto simp: free_page_def)
    have "exclusive lab' k' D"
      unfolding exclusive_def 2(5)
    proof (intro conjI allI impI)
      fix y f assume y: "((space_map D k)((d, page_mask va) \<mapsto> e)) y = Some f"
      note o = exclusiveD(1-5) [OF x, of y f]
      have n: "npages k' = npages k" "reserved k' p = reserved k p" for p
        using stable_npages [OF st] stable_reserved [OF st] by auto
      show "frame_of f = page_mask f" "frame_no f < npages k'" "page_used k' (frame_no f)" "\<not> reserved k' (frame_no f)" "lab' (frame_no f) = None"
        using y o e lt nr 2(2,3) stable_used [OF st] lab n by (auto split: if_splits)
    next
      fix y z f g assume "((space_map D k)((d, page_mask va) \<mapsto> e)) y = Some f" "((space_map D k)((d, page_mask va) \<mapsto> e)) z = Some g"
        "frame_no f = frame_no g"
      then show "y = z" using old exclusiveD(6) [OF x] e(2) by (auto split: if_splits)
    qed
    then show ?thesis using t' 2(5) unfolding isolated_def by auto
  qed
qed

text \<open>At the start there are no user spaces.\<close>

lemma isolated_start: "paging_ok k \<Longrightarrow> page_used k 3 \<Longrightarrow> isolated k {}"
  by (auto simp: isolated_def exclusive_def tree_def space_map_def intro!: exI [of _ Map.empty])

text \<open>The example machine has one user page.\<close>

lemma user_kmem_map: "space_map {0x1000} user_kmem = [(0x1000, 0x40000000) \<mapsto> 0x8003]"
proof -
  have masks: "frame_of 0x2003 = 0x2000" "frame_of 0x6003 = 0x6000" "frame_of 0x7003 = 0x7000" by code_simp+
  have pm: "page_mask 0x40000000 = 0x40000000" by code_simp
  have off: "entry_off 30 0x40000000 = 8" "entry_off 21 0x40000000 = 0" "entry_off 12 0x40000000 = 0" "drop_bit 39 (0x40000000 :: u64) = 0" by code_simp+
  have p: "present 0x2003" "present 0x6003" "present 0x7003" "present 0x8003" "\<not> present 0" by (simp_all add: present_bit)
  have one: "va = 0x40000000 \<and> e = 0x8003" if va: "va \<in> space_area" "page_mask va = va" and l: "pt_lookup (phys user_kmem) 0x1000 va = Some e" for va e
  proof -
    have vb: "va < 0x1000000000000" using va(1) by (simp add: space_area_def)
    have entry0: "entry_off 39 va = 0"
    proof (rule ccontr)
      assume "entry_off 39 va \<noteq> 0"
      then have "rd64 (phys user_kmem) (slot_at 0x1000 3 va) = 0" using user_kmem_page(3) [of 1 3 va] by simp
      moreover have "shifts 4 = shifts (Suc 3)" by simp
      ultimately show False using l unfolding pt_lookup_def shifts_4 by (simp only: pt_walk_Suc Let_def) (simp add: p)
    qed
    have rd: "rd64 (phys user_kmem) (slot_at 0x1000 3 va) = 0x2003"
      "rd64 (phys user_kmem) (slot_at 0x2000 2 va) = (if entry_off 30 va = 8 then 0x6003 else 0)"
      "rd64 (phys user_kmem) (slot_at 0x6000 1 va) = (if entry_off 21 va = 0 then 0x7003 else 0)"
      "rd64 (phys user_kmem) (slot_at 0x7000 0 va) = (if entry_off 12 va = 0 then 0x8003 else 0)"
      using user_kmem_page(3) [of 1 3 va] user_kmem_page(3) [of 2 2 va] user_kmem_page(3) [of 6 1 va] user_kmem_page(3) [of 7 0 va]
        entry0 by simp_all
    have n: "shifts 4 = shifts (Suc 3)" "shifts 3 = shifts (Suc 2)" "shifts 2 = shifts (Suc 1)" "shifts 1 = shifts (Suc 0)" by (rule arg_cong, simp)+
    have z: "(1 :: nat) \<noteq> 0" "(2 :: nat) \<noteq> 0" "(3 :: nat) \<noteq> 0" by simp_all
    have "entry_off 30 va = 8 \<and> entry_off 21 va = 0 \<and> entry_off 12 va = 0 \<and> e = 0x8003"
      using l unfolding pt_lookup_def shifts_4 n(1) pt_walk_Suc Let_def rd(1) masks if_not_P [OF z(3)] if_P [OF p(1)]
        n(2) rd(2) by (simp add: p masks n pt_walk_Suc rd [unfolded One_nat_def] Let_def del: shifts.simps split: if_splits)
    moreover from this have "drop_bit 12 va = drop_bit 12 0x40000000"
      using same_entry [of 12 va "0x40000000"] same_entry [of 21 va "0x40000000"] same_entry [of 30 va "0x40000000"]
        entry_prefix(1) [OF vb] entry0 off by simp
    moreover have "push_bit 12 (drop_bit 12 va) = va" using va(2) by (simp add: page_mask_shift)
    ultimately show ?thesis by simp
  qed
  have eq: "space_map {0x1000} user_kmem y = Some e \<longleftrightarrow> y = (0x1000, 0x40000000) \<and> e = 0x8003" for y e
    using one [of "snd y" e] user_kmem_lookup(1) pm by (cases y) (auto simp: space_map_def space_area_def USER_OFFSET_def split: if_splits)
  show ?thesis
  proof
    fix y show "space_map {0x1000} user_kmem y = [(0x1000, 0x40000000) \<mapsto> 0x8003] y"
      using eq [of y] by (cases "space_map {0x1000} user_kmem y") (auto split: if_splits)
  qed
qed

lemma user_kmem_exclusive:
  "exclusive [1 \<mapsto> (0x1000, 3, 0), 2 \<mapsto> (0x1000, 2, 0), 6 \<mapsto> (0x1000, 1, 1), 7 \<mapsto> (0x1000, 0, 0x200)] user_kmem {0x1000}"
proof -
  have e: "frame_of 0x8003 = 0x8000" "page_mask 0x8003 = 0x8000" by code_simp+
  then have f: "frame_no 0x8003 = 8" by (simp add: frame_no_def)
  have "8 < npages user_kmem" "page_used user_kmem 8"
    by (simp_all add: npages_def user_kmem_def page_used_def bitmap_byte_def bit_iff_odd_drop_bit wr64_def wr_def)
  moreover have "\<not> reserved user_kmem 8" using user_kmem_bitmap by (auto simp: reserved_def)
  ultimately show ?thesis using f e by (auto simp: exclusive_def user_kmem_map split: if_splits)
qed

lemma user_kmem_isolated: "isolated user_kmem {0x1000}"
  using user_kmem_tables user_kmem_exclusive unfolding isolated_def by blast

end
