(* ===== verification/SpaceDestroy.thy ===== *)
theory SpaceDestroy
  imports SpaceMap
begin

section \<open>The end of a user space: \<open>src/kernel/mm/paging.cpp\<close>\<close>

text \<open>
  \<open>destroyPageDir\<close> releases exactly the pages of a task: its tables and the pages behind its
  addresses, and neither the tables it shares with the kernel nor anything of another task.
\<close>

subsection \<open>The pages of a space\<close>

text \<open>From a table to the page behind an address, both included.\<close>

fun walk_pages :: "nat \<Rightarrow> mem \<Rightarrow> u64 \<Rightarrow> u64 \<Rightarrow> nat list" where
  "walk_pages 0 m t va = [unat t div 4096]"
| "walk_pages (Suc n) m t va = unat t div 4096 #
     (let e = rd64 m (slot_at t n va) in if present e then walk_pages n m (page_mask e) va else [])"

definition space_pages :: "kmem \<Rightarrow> u64 \<Rightarrow> nat set" where
  "space_pages k d = (\<Union>va \<in> space_area. set (walk_pages 4 (phys k) d va))"

lemma walk_pages_head: "unat t div 4096 \<in> set (walk_pages n m t va)"
  by (cases n) simp_all

lemma walk_pages_tl: "set (walk_pages n m t va) = insert (unat t div 4096) (set (tl (walk_pages n m t va)))"
  by (cases n) simp_all

lemma slot_page:
  assumes "page_mask t = t"
  shows "unat (slot_at t n va) div 4096 = unat t div 4096"
proof -
  have t: "unat t = unat t div 4096 * 4096" using unat_page_mask [of t] assms by simp
  have off: "unat (entry_off (12 + 9 * n) va) < 4096" using entry_off_lt(1) [of "12 + 9 * n" va] by (simp add: word_less_nat_alt)
  have "unat t + 4096 \<le> 2 ^ 64" using page_mask_bounds(1) [of t] assms by simp
  then have "unat (slot_at t n va) = unat t + unat (entry_off (12 + 9 * n) va)"
    unfolding slot_at_def unat_word_ariths(1) using off by simp
  also have "\<dots> = unat t div 4096 * 4096 + unat (entry_off (12 + 9 * n) va)" using t by simp
  finally show ?thesis using off by (simp only: div_mult_self3)
qed

text \<open>A page of a space is one of its tables, or behind one of its addresses.\<close>

lemma walk_pages_cases:
  assumes "va \<in> space_area" "tree_walk lab d n k t va" "n \<noteq> 0" "p \<in> set (walk_pages n (phys k) t va)"
  shows "(\<exists>l. lab p = Some l \<and> fst l = d) \<or> (\<exists>e. pt_walk (shifts n) (phys k) t va = Some e \<and> p = unat (page_mask e) div 4096)"
  using assms(2-4)
proof (induction n arbitrary: t)
  case (Suc n)
  let ?e = "rd64 (phys k) (slot_at t n va)"
  note w = tree_walkD [OF Suc.prems(1)]
  show ?case
  proof (cases "p = unat t div 4096")
    case True
    then show ?thesis using w(3) slot_page [OF w(1)] by auto
  next
    case False
    then have p: "present ?e" "p \<in> set (walk_pages n (phys k) (page_mask ?e) va)"
      using Suc.prems(3) by (auto simp: Let_def split: if_splits)
    show ?thesis
    proof (cases n)
      case 0
      then show ?thesis using p by (simp add: pt_walk_Suc Let_def del: shifts.simps)
    next
      case (Suc m)
      have t: "tree_walk lab d n k (page_mask ?e) va" using w(4) p(1) assms(1) by simp
      then have "frame_of ?e = page_mask ?e" using frame_of_tree Suc by blast
      then show ?thesis using Suc.IH [OF t _ p(2)] p(1) Suc by (simp add: pt_walk_Suc Let_def del: shifts.simps)
    qed
  qed
qed simp

lemma space_pages_cases:
  assumes t: "tree lab k D" and x: "exclusive lab k D" and d: "d \<in> D" and p: "p \<in> space_pages k d"
  shows "(\<exists>l. lab p = Some l \<and> fst l = d) \<or> (\<exists>x e. space_map D k (d, x) = Some e \<and> p = frame_no e)"
proof -
  obtain va where va: "va \<in> space_area" "p \<in> set (walk_pages 4 (phys k) d va)" using p by (auto simp: space_pages_def)
  have m: "space_map D k (d, page_mask va) = pt_walk (shifts 4) (phys k) d va"
    using d space_area_page [OF va(1)] by (simp add: space_map_def pt_lookup_page) (simp add: pt_lookup_def shifts_4)
  have "(\<exists>l. lab p = Some l \<and> fst l = d) \<or> (\<exists>e. space_map D k (d, page_mask va) = Some e \<and> p = unat (page_mask e) div 4096)"
    using walk_pages_cases [OF va(1) treeU [OF t d va(1)] _ va(2)] unfolding m by simp
  then show ?thesis using exclusiveD(1) [OF x] unfolding frame_no_def by metis
qed

lemma walk_pages_leaf:
  assumes "va \<in> space_area" "tree_walk lab d n k t va" "n \<noteq> 0" "pt_walk (shifts n) (phys k) t va = Some e"
  shows "unat (page_mask e) div 4096 \<in> set (walk_pages n (phys k) t va)"
  using assms(2-4)
proof (induction n arbitrary: t)
  case (Suc n)
  let ?e = "rd64 (phys k) (slot_at t n va)"
  have p: "present ?e" "if n = 0 then ?e = e else pt_walk (shifts n) (phys k) (frame_of ?e) va = Some e"
    using Suc.prems(3) by (auto simp: pt_walk_Suc Let_def simp del: shifts.simps split: if_splits)
  show ?case
  proof (cases n)
    case 0
    then show ?thesis using p by simp
  next
    case (Suc m)
    have w: "tree_walk lab d n k (page_mask ?e) va" using tree_walkD(4) [OF Suc.prems(1)] p(1) assms(1) by simp
    moreover have "frame_of ?e = page_mask ?e" using frame_of_tree w Suc by blast
    ultimately have "unat (page_mask e) div 4096 \<in> set (walk_pages n (phys k) (page_mask ?e) va)"
      using Suc.IH [OF w] p(2) Suc by simp
    then show ?thesis using p(1) by (simp add: Let_def)
  qed
qed simp

lemma space_pages_frame:
  assumes t: "tree lab k D" and x: "exclusive lab k D" and e: "space_map D k (d, x) = Some e"
  shows "frame_no e \<in> space_pages k d"
proof -
  have d: "d \<in> D" "x \<in> space_area" "pt_walk (shifts 4) (phys k) d x = Some e"
    using e by (auto simp: space_map_def pt_lookup_def shifts_4 split: if_splits simp del: shifts.simps)
  have "unat (page_mask e) div 4096 \<in> set (walk_pages 4 (phys k) d x)"
    by (rule walk_pages_leaf [OF d(2) treeU [OF t d(1,2)] _ d(3)]) simp
  then show ?thesis using d(2) exclusiveD(1) [OF x e] by (auto simp: frame_no_def space_pages_def)
qed

subsection \<open>Releasing pages\<close>

text \<open>While the loops run: what \<open>k\<close> had in use is unchanged, and only pages of the space are released.\<close>

definition releasing :: "kmem \<Rightarrow> u64 \<Rightarrow> kmem \<Rightarrow> bool" where
  "releasing k d t \<longleftrightarrow> paging_ok t \<and> physPageBitmap t = physPageBitmap k \<and> maxPhysPages t = maxPhysPages k \<and>
     (\<forall>x. kept k x \<longrightarrow> phys t x = phys k x) \<and>
     (\<forall>p < npages k. (page_used t p \<longrightarrow> page_used k p) \<and> (page_used k p \<longrightarrow> p \<notin> space_pages k d \<longrightarrow> page_used t p))"

definition shrinks :: "kmem \<Rightarrow> kmem \<Rightarrow> kmem \<Rightarrow> bool" where
  "shrinks k s t \<longleftrightarrow> (\<forall>p < npages k. page_used t p \<longrightarrow> page_used s p)"

lemma shrinks_refl: "shrinks k s s"
  by (simp add: shrinks_def)

lemma shrinks_trans: "shrinks k s t \<Longrightarrow> shrinks k t u \<Longrightarrow> shrinks k s u"
  by (simp add: shrinks_def)

lemma releasing_params:
  assumes "releasing k d t"
  shows "npages t = npages k" "in_bitmap t x = in_bitmap k x" "reserved t p = reserved k p"
  using assms by (simp_all add: releasing_def npages_def in_bitmap_def bitmap_size_def reserved_def)

lemma releasing_rd64:
  assumes "releasing k d t" "owned_slot k s"
  shows "rd64 (phys t) s = rd64 (phys k) s"
  unfolding rd64_def by (intro arg_cong [where f = le_word] rd_cong) (use assms in \<open>simp add: releasing_def owned_slot_def\<close>)

lemma releasing_read:
  assumes "releasing k d s" "owned_slot k a"
  shows "\<exists>s'. phyread64 a s = Some (rd64 (phys k) a, s') \<and> releasing k d s' \<and> shrinks k s s'"
proof -
  let ?t = "tmapped a s"
  have ok: "paging_ok s" using assms(1) by (simp add: releasing_def)
  have kp: "keeps {} {} s ?t" by (rule keeps_tmapped [OF ok])
  have n: "npages s = npages k" by (rule releasing_params [OF assms(1)])
  have "phys ?t x = phys k x" if "kept k x" for x
    using that assms(1) tmapped_phys [of x a s] by (simp add: releasing_def kept_def)
  then have r: "releasing k d ?t"
    using assms(1) paging_ok_keeps [OF ok kp] keeps_used [OF kp] n by (simp add: releasing_def)
  moreover have "phyread64 a s = Some (rd64 (phys ?t) a, ?t)"
    using owned_slot_low [OF assms(2)] by (simp add: phyread64_tmapped)
  ultimately show ?thesis
    using releasing_rd64 [OF r assms(2)] keeps_used [OF kp] n by (auto simp: shrinks_def)
qed

lemma releasing_release:
  assumes "releasing k d s" "page_mask t = t" "unat t div 4096 < npages k" "\<not> reserved k (unat t div 4096)"
    and "unat t div 4096 \<in> space_pages k d"
  shows "releasing k d (markPhysPageFree_paddr t s) \<and> shrinks k s (markPhysPageFree_paddr t s) \<and>
    \<not> page_used (markPhysPageFree_paddr t s) (unat t div 4096)"
proof -
  let ?p = "unat t div 4096" and ?u = "markPhysPageFree_paddr t s"
  note par = releasing_params [OF assms(1)]
  have "unat t = ?p * 4096" using unat_page_mask [of t] assms(2) by simp
  then have "of_nat (unat t) = (of_nat (?p * 4096) :: u64)" by simp
  then have t: "t = of_nat ?p * 0x1000" by simp
  have pn: "?p < npages s" using assms(3) par(1) by simp
  have u: "?u = set_page ?p False s" using mark_used_paddr_page(2) [OF pn] t by simp
  have lt: "q < 2 ^ 32" if "q < npages k" for q using that npages_bound [of k] by simp
  have used: "page_used ?u q \<longleftrightarrow> page_used s q \<and> q \<noteq> ?p" if "q < npages k" for q
    using lt [OF assms(3)] lt [OF that] by (simp add: u page_used_set_page)
  have pu: "npages ?u = npages k" "in_bitmap ?u x = in_bitmap k x" for x
    using par by (simp_all add: u npages_def in_bitmap_def bitmap_size_def)
  have "phys ?u x = phys k x" if "kept k x" for x
    using phys_set_page_outside [OF pn, of x False] that assms(1) par(2) [of x] by (simp add: u releasing_def kept_def)
  moreover have "paging_ok ?u"
  proof -
    have ok: "paging_ok s" "3 < npages k" using assms(1) par(1) by (auto simp: releasing_def paging_ok_def)
    have r: "\<not> reserved s ?p" using assms(4) par(3) by simp
    have "page_used ?u (unat x div 4096)" if "in_bitmap k x" "unat x div 4096 < npages k" for x
      using ok(1) that used r par by (auto simp: paging_ok_def reserved_def)
    then show ?thesis using ok used r par by (auto simp: paging_ok_def pu reserved_def)
  qed
  ultimately have "releasing k d ?u" using assms(1,5) used by (auto simp: releasing_def u)
  then show ?thesis using used assms(3) by (auto simp: shrinks_def)
qed

lemma for_each_all:
  assumes "I s" "\<And>i s. i \<in> set xs \<Longrightarrow> I s \<Longrightarrow> \<exists>s'. body i s = Some s' \<and> I s' \<and> R s s' \<and> Q i s'"
    and "\<And>s. R s s" "\<And>s t u. R s t \<Longrightarrow> R t u \<Longrightarrow> R s u" "\<And>i s t. Q i s \<Longrightarrow> R s t \<Longrightarrow> Q i t"
  shows "\<exists>t. for_each body xs s = Some t \<and> I t \<and> R s t \<and> (\<forall>i \<in> set xs. Q i t)"
  using assms(1,2)
proof (induction xs arbitrary: s)
  case Nil
  then show ?case by (simp add: assms(3))
next
  case (Cons i xs)
  obtain s' where s': "body i s = Some s'" "I s'" "R s s'" "Q i s'" using Cons.prems(2) [of i s] Cons.prems(1) by auto
  obtain t where "for_each body xs s' = Some t" "I t" "R s' t" "\<forall>i \<in> set xs. Q i t"
    using Cons.IH [OF s'(2)] Cons.prems(2) by auto
  then show ?case using s' assms(4,5) by (auto intro!: exI [of _ t])
qed

subsection \<open>Tables and their entries\<close>

text \<open>A table, with everything that is known of the addresses that lead to it.\<close>

definition at_table :: "labels \<Rightarrow> kmem \<Rightarrow> u64 \<Rightarrow> nat \<Rightarrow> u64 \<Rightarrow> u64 \<Rightarrow> bool" where
  "at_table lab k d n t va \<longleftrightarrow> page_mask t = t \<and> unat t div 4096 < npages k \<and> \<not> reserved k (unat t div 4096) \<and>
     (n \<le> 2 \<longrightarrow> USER_OFFSET \<le> va) \<and>
     (\<forall>x < 0x1000000000000. drop_bit (12 + 9 * n) x = drop_bit (12 + 9 * n) va \<longrightarrow>
        (n \<noteq> 0 \<longrightarrow> tree_walk lab d n k t x \<and> pt_lookup (phys k) d x = pt_walk (shifts n) (phys k) t x) \<and>
        set (walk_pages n (phys k) t x) \<subseteq> set (walk_pages 4 (phys k) d x))"

lemma prefix_up: "drop_bit (12 + 9 * n) x = drop_bit (12 + 9 * n) y \<Longrightarrow> drop_bit (21 + 9 * n) x = drop_bit (21 + 9 * n) (y :: u64)"
proof -
  assume "drop_bit (12 + 9 * n) x = drop_bit (12 + 9 * n) y"
  then have "drop_bit 9 (drop_bit (12 + 9 * n) x) = drop_bit 9 (drop_bit (12 + 9 * n) y)" by simp
  then show ?thesis by (simp add: add.commute)
qed

lemma slot_cong: "drop_bit (12 + 9 * n) x = drop_bit (12 + 9 * n) y \<Longrightarrow> slot_at t n x = slot_at t n y"
  by (simp add: slot_at_def entry_off_def)

lemma user_cong: "n \<le> 2 \<Longrightarrow> drop_bit (12 + 9 * n) x = drop_bit (12 + 9 * n) y \<Longrightarrow> USER_OFFSET \<le> x \<longleftrightarrow> USER_OFFSET \<le> y"
proof -
  assume n: "n \<le> 2" "drop_bit (12 + 9 * n) x = drop_bit (12 + 9 * n) y"
  then have "drop_bit (18 - 9 * n) (drop_bit (12 + 9 * n) x) = drop_bit (18 - 9 * n) (drop_bit (12 + 9 * n) y)" by simp
  moreover have "18 - 9 * n + (12 + 9 * n) = 30" using n(1) by simp
  ultimately have "drop_bit 30 x = drop_bit 30 y" by (simp only: drop_bit_drop_bit)
  then show ?thesis using below_user [of x] below_user [of y] by (simp add: not_less [symmetric])
qed

lemma at_table_child:
  assumes t: "tree lab k D" and x: "exclusive lab k D" and d: "d \<in> D"
    and at: "at_table lab k d (Suc n) t va" and y: "y < 0x1000000000000" "drop_bit (21 + 9 * n) y = drop_bit (21 + 9 * n) va"
    and e: "rd64 (phys k) (slot_at t n y) = e" "present e" "\<not> shared n y"
  shows "at_table lab k d n (page_mask e) y"
proof -
  have suc: "12 + 9 * Suc n = 21 + 9 * n" by simp
  have up: "tree_walk lab d (Suc n) k t z" "pt_lookup (phys k) d z = pt_walk (shifts (Suc n)) (phys k) t z"
      "set (walk_pages (Suc n) (phys k) t z) \<subseteq> set (walk_pages 4 (phys k) d z)" "slot_at t n z = slot_at t n y" "\<not> shared n z"
    if z: "z < 0x1000000000000" "drop_bit (12 + 9 * n) z = drop_bit (12 + 9 * n) y" for z
  proof -
    have "drop_bit (12 + 9 * Suc n) z = drop_bit (12 + 9 * Suc n) va" using prefix_up [OF z(2)] y(2) unfolding suc by simp
    then show "tree_walk lab d (Suc n) k t z" "pt_lookup (phys k) d z = pt_walk (shifts (Suc n)) (phys k) t z"
      "set (walk_pages (Suc n) (phys k) t z) \<subseteq> set (walk_pages 4 (phys k) d z)"
      using at z(1) unfolding at_table_def by blast+
  qed (use slot_cong [OF z(2)] shared_cong [OF z(2)] e(3) in auto)
  have user: "USER_OFFSET \<le> y" if "n \<le> 2"
  proof (cases "n = 2")
    case True
    then show ?thesis using e(3) by (auto simp: shared_def)
  next
    case False
    then have "Suc n \<le> 2" using that by simp
    then show ?thesis using at user_cong [of "Suc n" y va] y(2) unfolding at_table_def suc by blast
  qed
  have w: "tree_walk lab d n k (page_mask e) z" if z: "z < 0x1000000000000" "drop_bit (12 + 9 * n) z = drop_bit (12 + 9 * n) y" for z
    using tree_walkD(4) [OF up(1) [OF z]] up(4,5) [OF z] e(1,2) by simp
  have leaf: "unat (page_mask e) div 4096 < npages k \<and> \<not> reserved k (unat (page_mask e) div 4096)"
  proof (cases n)
    case 0
    have a: "y \<in> space_area" using user 0 y(1) by (simp add: space_area_def)
    have "pt_lookup (phys k) d y = Some e" using up(2) [OF y(1) refl] e 0 by (simp add: pt_walk_Suc del: shifts.simps)
    then have "space_map D k (d, page_mask y) = Some e" using d space_area_page [OF a] by (simp add: space_map_def pt_lookup_page)
    from exclusiveD(1-4) [OF x this] show ?thesis by (simp add: frame_no_def)
  next
    case (Suc m)
    note wy = w [OF y(1) refl, unfolded Suc]
    from tree_labels [OF t tree_walkD(3) [OF wy]] show ?thesis by (simp add: slot_page)
  qed
  have pt: "pt_lookup (phys k) d z = pt_walk (shifts n) (phys k) (page_mask e) z"
    if z: "z < 0x1000000000000" "drop_bit (12 + 9 * n) z = drop_bit (12 + 9 * n) y" "n \<noteq> 0" for z
  proof -
    obtain m where m: "n = Suc m" using z(3) by (cases n) auto
    have "frame_of e = page_mask e" using frame_of_tree w [OF z(1,2)] unfolding m by blast
    then show ?thesis using up(2,4) [OF z(1,2)] e z(3) by (simp add: pt_walk_Suc del: shifts.simps)
  qed
  have sub: "set (walk_pages n (phys k) (page_mask e) z) \<subseteq> set (walk_pages 4 (phys k) d z)"
    if z: "z < 0x1000000000000" "drop_bit (12 + 9 * n) z = drop_bit (12 + 9 * n) y" for z
    using up(3,4) [OF z] e(1,2) by simp
  show ?thesis using leaf user w pt sub unfolding at_table_def by simp
qed

lemma at_table_member:
  assumes "at_table lab k d n t va" "va < 0x1000000000000" "n \<le> 4"
  shows "unat t div 4096 \<in> space_pages k d"
proof -
  have "\<exists>x. x \<in> space_area \<and> drop_bit (12 + 9 * n) x = drop_bit (12 + 9 * n) va"
  proof (cases "USER_OFFSET \<le> va")
    case True
    then show ?thesis using assms(2) by (auto simp: space_area_def)
  next
    case False
    then have "\<not> n \<le> 2" using assms(1) by (simp add: at_table_def)
    then have "n = 3 \<or> n = 4" using assms(3) by linarith
    moreover have "drop_bit 30 va = 0" using False below_user [of va] by (simp add: not_le)
    then have "drop_bit m (drop_bit 30 va) = 0" for m by simp
    from this [of 9] this [of 18] have "drop_bit 39 va = 0" "drop_bit 48 va = 0" by simp_all
    moreover have "drop_bit 39 USER_OFFSET = 0" "drop_bit 48 USER_OFFSET = 0" by (simp_all add: USER_OFFSET_def)
    ultimately show ?thesis by (intro exI [of _ USER_OFFSET]) (auto simp: space_area_def USER_OFFSET_def)
  qed
  then obtain x where x: "x \<in> space_area" "drop_bit (12 + 9 * n) x = drop_bit (12 + 9 * n) va" by blast
  then have "set (walk_pages n (phys k) t x) \<subseteq> set (walk_pages 4 (phys k) d x)"
    using assms(1) by (auto simp: at_table_def space_area_def)
  then have "unat t div 4096 \<in> set (walk_pages 4 (phys k) d x)" using walk_pages_head by blast
  then show ?thesis using x(1) unfolding space_pages_def by blast
qed

lemma at_table_release:
  assumes "at_table lab k d n t va" "va < 0x1000000000000" "n \<le> 4" "releasing k d s"
  shows "releasing k d (markPhysPageFree_paddr t s) \<and> shrinks k s (markPhysPageFree_paddr t s) \<and>
    \<not> page_used (markPhysPageFree_paddr t s) (unat t div 4096)"
  using releasing_release [OF assms(4)] at_table_member [OF assms(1-3)] assms(1) by (simp add: at_table_def)

subsection \<open>The four loops\<close>

text \<open>The address that leads to an entry of a table.\<close>

definition entry_va :: "nat \<Rightarrow> u64 \<Rightarrow> nat \<Rightarrow> u64" where
  "entry_va n va i = push_bit (12 + 9 * n) (push_bit 9 (drop_bit (21 + 9 * n) va) OR of_nat i)"

lemma canonical_bits: "va < 0x1000000000000 \<longleftrightarrow> (\<forall>m. bit va m \<longrightarrow> m < 48)" for va :: u64
proof
  assume "va < 0x1000000000000"
  then have "unat va < 2 ^ 48" by (simp add: word_less_nat_alt)
  then have "take_bit 48 (unat va) = unat va" by (rule take_bit_nat_eq_self)
  then have "take_bit 48 va = va" by (simp add: word_unat_eq_iff unsigned_take_bit_eq)
  then show "\<forall>m. bit va m \<longrightarrow> m < 48" by (metis bit_take_bit_iff)
next
  assume "\<forall>m. bit va m \<longrightarrow> m < 48"
  then have "take_bit 48 va = va" by (intro bit_eqI) (auto simp: bit_take_bit_iff)
  then have "unat va = take_bit 48 (unat va)" by (metis unsigned_take_bit_eq)
  also have "\<dots> < 2 ^ 48" by (rule take_bit_nat_less_exp)
  finally show "va < 0x1000000000000" by (simp add: word_less_nat_alt)
qed

lemma index_bits: "i < 512 \<Longrightarrow> bit (of_nat i :: u64) m \<Longrightarrow> m < 9"
proof -
  assume i: "i < 512" and b: "bit (of_nat i :: u64) m"
  have "take_bit 9 i = i" by (rule take_bit_nat_eq_self) (use i in simp)
  then have "take_bit 9 (of_nat i :: u64) = of_nat i" by (metis take_bit_of_nat)
  then show "m < 9" using b by (metis bit_take_bit_iff)
qed

lemma entry_va_bits:
  assumes "va < 0x1000000000000" "n \<le> 3" "i < 512"
  shows "drop_bit (12 + 9 * n) (entry_va n va i) = push_bit 9 (drop_bit (21 + 9 * n) va) OR of_nat i"
    and "bit (entry_va n va i) m \<Longrightarrow> m < 48"
proof -
  let ?w = "push_bit 9 (drop_bit (21 + 9 * n) va) OR of_nat i"
  have va: "bit va m \<Longrightarrow> m < 48" for m using assms(1) canonical_bits by blast
  have w: "m + (12 + 9 * n) < 48" if "bit ?w m" for m
  proof -
    from that have "m < 9 \<or> 9 \<le> m \<and> bit va (21 + 9 * n + (m - 9))"
      using index_bits [OF assms(3), of m] by (auto simp: bit_or_iff bit_push_bit_iff bit_drop_bit_eq)
    then show ?thesis using va [of "21 + 9 * n + (m - 9)"] assms(2) by auto
  qed
  have e: "bit (entry_va n va i) j \<longleftrightarrow> 12 + 9 * n \<le> j \<and> j < 64 \<and> bit ?w (j - (12 + 9 * n))" for j
    by (simp only: entry_va_def bit_push_bit_iff possible_bit_word) simp
  show "drop_bit (12 + 9 * n) (entry_va n va i) = ?w"
  proof (rule bit_eqI)
    fix m
    have "bit (drop_bit (12 + 9 * n) (entry_va n va i)) m \<longleftrightarrow> m + (12 + 9 * n) < 64 \<and> bit ?w m"
      unfolding bit_drop_bit_eq comp_def e by (simp add: add.commute)
    then show "bit (drop_bit (12 + 9 * n) (entry_va n va i)) m = bit ?w m" using w [of m] by linarith
  qed
  assume "bit (entry_va n va i) m"
  then show "m < 48" using w [of "m - (12 + 9 * n)"] unfolding e by linarith
qed

lemma entry_va:
  assumes "va < 0x1000000000000" "n \<le> 3" "i < 512"
  shows "entry_va n va i < 0x1000000000000" "drop_bit (21 + 9 * n) (entry_va n va i) = drop_bit (21 + 9 * n) va"
    "entry_off (12 + 9 * n) (entry_va n va i) = of_nat i * 8"
proof -
  note b = entry_va_bits [OF assms]
  have m: "(0x1FF :: u64) = mask 9" by (simp add: mask_eq_exp_minus_1)
  show "entry_va n va i < 0x1000000000000" using b(2) canonical_bits by blast
  have "drop_bit 9 (push_bit 9 (drop_bit (21 + 9 * n) va) OR of_nat i) = drop_bit (21 + 9 * n) va"
  proof (rule bit_eqI)
    fix j
    have "bit (drop_bit (21 + 9 * n) va) j \<Longrightarrow> j + 9 < 64"
      using assms(1) canonical_bits [of va] by (auto simp: bit_drop_bit_eq)
    then show "bit (drop_bit 9 (push_bit 9 (drop_bit (21 + 9 * n) va) OR of_nat i)) j = bit (drop_bit (21 + 9 * n) va) j"
      using index_bits [OF assms(3), of "9 + j"] unfolding bit_drop_bit_eq [of 9] comp_def bit_or_iff bit_push_bit_iff possible_bit_word by auto
  qed
  then have "drop_bit 9 (drop_bit (12 + 9 * n) (entry_va n va i)) = drop_bit (21 + 9 * n) va" unfolding b(1) .
  then show "drop_bit (21 + 9 * n) (entry_va n va i) = drop_bit (21 + 9 * n) va" by simp
  have "(push_bit 9 (drop_bit (21 + 9 * n) va) OR of_nat i) AND 0x1FF = of_nat i"
  proof (rule bit_eqI)
    fix j
    show "bit ((push_bit 9 (drop_bit (21 + 9 * n) va) OR of_nat i) AND 0x1FF) j = bit (of_nat i :: u64) j"
      using index_bits [OF assms(3), of j] unfolding m bit_and_iff bit_or_iff bit_push_bit_iff bit_mask_iff possible_bit_word by auto
  qed
  then show "entry_off (12 + 9 * n) (entry_va n va i) = of_nat i * 8" unfolding entry_off_def b(1) by simp
qed

lemma entry_va_covers:
  assumes "x < 0x1000000000000" "va < 0x1000000000000" "n \<le> 3" "drop_bit (21 + 9 * n) x = drop_bit (21 + 9 * n) va"
  obtains i where "i < 512" "drop_bit (12 + 9 * n) x = drop_bit (12 + 9 * n) (entry_va n va i)"
proof -
  have m: "(0x1FF :: u64) = mask 9" by (simp add: mask_eq_exp_minus_1)
  let ?d = "drop_bit (12 + 9 * n) x"
  define i where "i = unat (?d AND 0x1FF)"
  have i: "of_nat i = ?d AND 0x1FF" by (simp add: i_def)
  have lt: "i < 512" unfolding i_def m using take_bit_nat_less_exp [of 9 "unat ?d"] by (simp add: unsigned_take_bit_eq flip: take_bit_eq_mask)
  have "drop_bit (21 + 9 * n) va = drop_bit 9 ?d" using assms(4) by (simp add: add.commute)
  then have "push_bit 9 (drop_bit (21 + 9 * n) va) OR of_nat i = push_bit 9 (drop_bit 9 ?d) OR (?d AND 0x1FF)" by (simp only: i)
  also have "\<dots> = ?d"
  proof (rule bit_eqI)
    fix j
    show "bit (push_bit 9 (drop_bit 9 ?d) OR (?d AND 0x1FF)) j = bit ?d j"
      unfolding m bit_and_iff bit_or_iff bit_push_bit_iff bit_mask_iff possible_bit_word bit_drop_bit_eq [of 9] comp_def
      using bit_imp_le_length [of ?d j] by auto
  qed
  finally show ?thesis using that [OF lt] entry_va_bits(1) [OF assms(2,3) lt] by simp
qed

definition clears :: "kmem \<Rightarrow> u64 \<Rightarrow> nat \<Rightarrow> (kmem \<Rightarrow> kmem option) \<Rightarrow> u64 \<Rightarrow> u64 \<Rightarrow> bool" where
  "clears k d n body t va \<longleftrightarrow> (\<forall>s. releasing k d s \<longrightarrow>
     (\<exists>s'. body s = Some s' \<and> releasing k d s' \<and> shrinks k s s' \<and>
       (\<forall>x \<in> space_area. drop_bit (12 + 9 * n) x = drop_bit (12 + 9 * n) va \<longrightarrow>
          (\<forall>p \<in> set (tl (walk_pages n (phys k) t x)). p < npages k \<longrightarrow> \<not> page_used s' p))))"

lemma clears_table:
  assumes t: "tree lab k D" and x: "exclusive lab k D" and d: "d \<in> D"
    and at: "at_table lab k d (Suc n) t va" and va: "va < 0x1000000000000" and n: "n \<le> 3"
    and body: "\<And>i s. body i s = do {
       (e, k1) \<leftarrow> phyread64 (t + of_nat i * 8) s;
       if \<not> present e then Some k1 else if n = 2 \<and> page_mask e = PD0_ADDR then Some k1 else do {
         k2 \<leftarrow> inner e k1;
         Some (markPhysPageFree_paddr (page_mask e) k2) } }"
    and inner: "\<And>e y. y < 0x1000000000000 \<Longrightarrow> at_table lab k d n (page_mask e) y \<Longrightarrow> clears k d n (inner e) (page_mask e) y"
  shows "clears k d (Suc n) (for_each body [0..<512]) t va"
  unfolding clears_def
proof (intro allI impI)
  fix s assume s: "releasing k d s"
  define Q where "Q i s' \<longleftrightarrow> (\<forall>x \<in> space_area. drop_bit (12 + 9 * n) x = drop_bit (12 + 9 * n) (entry_va n va i) \<longrightarrow>
    (\<forall>p \<in> set (tl (walk_pages (Suc n) (phys k) t x)). p < npages k \<longrightarrow> \<not> page_used s' p))" for i s'
  have step: "\<exists>s'. body i s = Some s' \<and> releasing k d s' \<and> shrinks k s s' \<and> Q i s'" if i: "i \<in> set [0..<512]" and s: "releasing k d s" for i s
  proof -
    let ?y = "entry_va n va i"
    have i': "i < 512" using i by simp
    note y = entry_va [OF va n i']
    have sl: "slot_at t n ?y = t + of_nat i * 8" using y(3) by (simp add: slot_at_def)
    let ?e = "rd64 (phys k) (slot_at t n ?y)"
    have w: "tree_walk lab d (Suc n) k t ?y" using at y(1,2) by (simp add: at_table_def)
    obtain s1 where s1: "phyread64 (t + of_nat i * 8) s = Some (?e, s1)" "releasing k d s1" "shrinks k s s1"
      using releasing_read [OF s tree_walkD(2) [OF w]] unfolding sl by blast
    have entry: "slot_at t n x = slot_at t n ?y" if "drop_bit (12 + 9 * n) x = drop_bit (12 + 9 * n) ?y" for x
      using that by (rule slot_cong)
    show ?thesis
    proof (cases "present ?e \<and> \<not> shared n ?y")
      case False
      have "body i s = Some s1" using body [of i s] s1(1) False tree_walkD(5) [OF w] by (auto simp: shared_def)
      moreover have "Q i s1"
        unfolding Q_def
      proof (intro ballI impI)
        fix x p assume x: "x \<in> space_area" "drop_bit (12 + 9 * n) x = drop_bit (12 + 9 * n) ?y"
          and p: "p \<in> set (tl (walk_pages (Suc n) (phys k) t x))"
        then have "\<not> present ?e" using False shared_cong [OF x(2)] by simp
        then show "\<not> page_used s1 p" using p entry [OF x(2)] by simp
      qed
      ultimately show ?thesis using s1(2,3) by blast
    next
      case True
      have c: "at_table lab k d n (page_mask ?e) ?y"
        by (rule at_table_child [OF t x d at y(1,2) refl]) (use True in blast)+
      have "unat PD0_ADDR div 4096 = 3" by (simp add: memmap_defs)
      then have "page_mask ?e \<noteq> PD0_ADDR" using c by (auto simp: at_table_def reserved_def)
      moreover obtain s2 where s2: "inner ?e s1 = Some s2" "releasing k d s2" "shrinks k s1 s2"
        "\<forall>x \<in> space_area. drop_bit (12 + 9 * n) x = drop_bit (12 + 9 * n) ?y \<longrightarrow>
          (\<forall>p \<in> set (tl (walk_pages n (phys k) (page_mask ?e) x)). p < npages k \<longrightarrow> \<not> page_used s2 p)"
        using inner [OF y(1) c] s1(2) unfolding clears_def by blast
      ultimately have run: "body i s = Some (markPhysPageFree_paddr (page_mask ?e) s2)"
        using body [of i s] s1(1) True by simp
      have n4: "n \<le> 4" using n by simp
      note r = at_table_release [OF c y(1) n4 s2(2)]
      have "Q i (markPhysPageFree_paddr (page_mask ?e) s2)"
        unfolding Q_def
      proof (intro ballI impI)
        fix x p assume x: "x \<in> space_area" "drop_bit (12 + 9 * n) x = drop_bit (12 + 9 * n) ?y"
          and p: "p \<in> set (tl (walk_pages (Suc n) (phys k) t x))" "p < npages k"
        then have "p \<in> set (walk_pages n (phys k) (page_mask ?e) x)" using True entry [OF x(2)] by simp
        then have "p = unat (page_mask ?e) div 4096 \<or> \<not> page_used s2 p"
          using s2(4) x p(2) walk_pages_tl [of n "phys k" "page_mask ?e" x] by auto
        then show "\<not> page_used (markPhysPageFree_paddr (page_mask ?e) s2) p"
          using r p(2) by (auto simp: shrinks_def)
      qed
      then show ?thesis using run r shrinks_trans [OF s1(3) shrinks_trans [OF s2(3)]] by blast
    qed
  qed
  have "\<exists>t. for_each body [0..<512] s = Some t \<and> releasing k d t \<and> shrinks k s t \<and> (\<forall>i \<in> set [0..<512]. Q i t)"
    by (rule for_each_all [of "releasing k d", OF s step shrinks_refl shrinks_trans]) (auto simp: Q_def shrinks_def)
  then obtain s' where s': "for_each body [0..<512] s = Some s'" "releasing k d s'" "shrinks k s s'" "\<forall>i < 512. Q i s'" by auto
  have "\<not> page_used s' p" if x: "x \<in> space_area" "drop_bit (12 + 9 * Suc n) x = drop_bit (12 + 9 * Suc n) va"
    and p: "p \<in> set (tl (walk_pages (Suc n) (phys k) t x))" "p < npages k" for x p
  proof -
    have "x < 0x1000000000000" "drop_bit (21 + 9 * n) x = drop_bit (21 + 9 * n) va" using x by (simp_all add: space_area_def)
    then obtain i where "i < 512" "drop_bit (12 + 9 * n) x = drop_bit (12 + 9 * n) (entry_va n va i)"
      using entry_va_covers [OF _ va n] by blast
    then show ?thesis using s'(4) x(1) p unfolding Q_def by blast
  qed
  then show "\<exists>s'. for_each body [0..<512] s = Some s' \<and> releasing k d s' \<and> shrinks k s s' \<and>
      (\<forall>x \<in> space_area. drop_bit (12 + 9 * Suc n) x = drop_bit (12 + 9 * Suc n) va \<longrightarrow>
         (\<forall>p \<in> set (tl (walk_pages (Suc n) (phys k) t x)). p < npages k \<longrightarrow> \<not> page_used s' p))"
    using s' by blast
qed

subsection \<open>The whole directory\<close>

lemma destroy_bodies:
  "destroyPageDir_PT e i s = do {
     (x, k1) \<leftarrow> phyread64 (page_mask e + of_nat i * 8) s;
     if \<not> present x then Some k1 else if (0 :: nat) = 2 \<and> page_mask x = PD0_ADDR then Some k1 else do {
       k2 \<leftarrow> Some k1;
       Some (markPhysPageFree_paddr (page_mask x) k2) } }"
  "destroyPageDir_PD e i s = do {
     (x, k1) \<leftarrow> phyread64 (page_mask e + of_nat i * 8) s;
     if \<not> present x then Some k1 else if (1 :: nat) = 2 \<and> page_mask x = PD0_ADDR then Some k1 else do {
       k2 \<leftarrow> for_each (destroyPageDir_PT x) [0..<512] k1;
       Some (markPhysPageFree_paddr (page_mask x) k2) } }"
  "destroyPageDir_PDPT e i s = do {
     (x, k1) \<leftarrow> phyread64 (page_mask e + of_nat i * 8) s;
     if \<not> present x then Some k1 else if (2 :: nat) = 2 \<and> page_mask x = PD0_ADDR then Some k1 else do {
       k2 \<leftarrow> for_each (destroyPageDir_PD x) [0..<512] k1;
       Some (markPhysPageFree_paddr (page_mask x) k2) } }"
  "destroyPageDir_PML4 d i s = do {
     (x, k1) \<leftarrow> phyread64 (d + of_nat i * 8) s;
     if \<not> present x then Some k1 else if (3 :: nat) = 2 \<and> page_mask x = PD0_ADDR then Some k1 else do {
       k2 \<leftarrow> for_each (destroyPageDir_PDPT x) [0..<512] k1;
       Some (markPhysPageFree_paddr (page_mask x) k2) } }"
  by (cases "phyread64 (page_mask e + of_nat i * 8) s"; force simp: destroyPageDir_PT_def destroyPageDir_PD_def destroyPageDir_PDPT_def)+
    (cases "phyread64 (d + of_nat i * 8) s"; force simp: destroyPageDir_PML4_def)

lemma destroy_directory:
  assumes t: "tree lab k D" and x: "exclusive lab k D" and d: "d \<in> D"
  shows "\<exists>k'. destroyPageDir d k = Some k' \<and> releasing k d k' \<and> (\<forall>p \<in> space_pages k d. p < npages k \<longrightarrow> \<not> page_used k' p)"
proof -
  have w: "tree_walk lab d 4 k d z" if "z < 0x1000000000000" for z using treeD [OF t d that] .
  have d4: "page_mask d = d" "lab (unat d div 4096) \<noteq> None"
    using tree_walkD(1,3) [of lab d 3 k d 0] w [of 0] slot_page [of d 3 0] by simp_all
  have at: "at_table lab k d 4 d 0"
    using d4 tree_labels [OF t, of "unat d div 4096"] w by (auto simp: at_table_def pt_lookup_def shifts_4)
  then have at': "at_table lab k d (Suc 3) d 0" by simp
  have z: "(0 :: u64) < 0x1000000000000" by simp
  note lv = clears_table [OF t x d]
  have l0: "clears k d 0 Some e y" for e y by (simp add: clears_def shrinks_refl)
  have l1: "clears k d (Suc 0) (for_each (destroyPageDir_PT e) [0..<512]) (page_mask e) y"
    if "y < 0x1000000000000" "at_table lab k d (Suc 0) (page_mask e) y" for e y
    by (rule lv [where inner = "\<lambda>_. Some", OF that(2,1) _ destroy_bodies(1)]) (simp_all add: l0)
  have l2: "clears k d (Suc 1) (for_each (destroyPageDir_PD e) [0..<512]) (page_mask e) y"
    if "y < 0x1000000000000" "at_table lab k d (Suc 1) (page_mask e) y" for e y
    by (rule lv [where inner = "\<lambda>e. for_each (destroyPageDir_PT e) [0..<512]", OF that(2,1) _ destroy_bodies(2)]) (use l1 in simp_all)
  have l3: "clears k d (Suc 2) (for_each (destroyPageDir_PDPT e) [0..<512]) (page_mask e) y"
    if "y < 0x1000000000000" "at_table lab k d (Suc 2) (page_mask e) y" for e y
    by (rule lv [where inner = "\<lambda>e. for_each (destroyPageDir_PD e) [0..<512]", OF that(2,1) _ destroy_bodies(3)]) (use l2 in \<open>simp_all add: numeral_2_eq_2\<close>)
  have l4: "clears k d (Suc 3) (for_each (destroyPageDir_PML4 d) [0..<512]) d 0"
    by (rule lv [where inner = "\<lambda>e. for_each (destroyPageDir_PDPT e) [0..<512]", OF at' z _ destroy_bodies(4)])
      (use l3 in \<open>simp_all add: numeral_3_eq_3 numeral_2_eq_2\<close>)
  have "releasing k d k" using tree_ok [OF t] by (simp add: releasing_def)
  then obtain s where s: "for_each (destroyPageDir_PML4 d) [0..<512] k = Some s" "releasing k d s"
    and fr: "\<forall>x \<in> space_area. drop_bit (12 + 9 * Suc 3) x = drop_bit (12 + 9 * Suc 3) (0 :: u64) \<longrightarrow>
       (\<forall>p \<in> set (tl (walk_pages (Suc 3) (phys k) d x)). p < npages k \<longrightarrow> \<not> page_used s p)"
    using l4 unfolding clears_def by blast
  let ?k = "markPhysPageFree_paddr d s"
  note r = at_table_release [OF at z order_refl s(2)]
  have "\<not> page_used ?k p" if p: "p \<in> space_pages k d" "p < npages k" for p
  proof -
    obtain x where x: "x \<in> space_area" "p \<in> set (walk_pages 4 (phys k) d x)" using p(1) by (auto simp: space_pages_def)
    have "drop_bit 48 x = 0" using x(1) canonical_prefix by (simp add: space_area_def)
    then have "p = unat d div 4096 \<or> \<not> page_used s p" using fr x p(2) walk_pages_tl [of 4 "phys k" d x] by auto
    then show ?thesis using r p(2) by (auto simp: shrinks_def)
  qed
  moreover have "destroyPageDir d k = Some ?k" using s(1) by (simp add: destroyPageDir_def)
  ultimately show ?thesis using r by blast
qed

subsection \<open>What is left\<close>

definition drop_labels :: "labels \<Rightarrow> u64 \<Rightarrow> labels" where
  "drop_labels lab d p = (case lab p of None \<Rightarrow> None | Some l \<Rightarrow> if fst l = d then None else Some l)"

lemma drop_labels_Some: "drop_labels lab d p = Some l \<longleftrightarrow> lab p = Some l \<and> fst l \<noteq> d"
  by (auto simp: drop_labels_def split: option.splits)

lemma released_walk:
  assumes t: "tree lab k D" and x: "exclusive lab k D" and d: "d \<in> D" and r: "releasing k d k'" and d': "d' \<noteq> d"
  shows "tree_walk lab d' n k tb va \<Longrightarrow> tree_walk (drop_labels lab d) d' n k' tb va \<and>
    (va \<in> space_area \<longrightarrow> pt_walk (shifts n) (phys k') tb va = pt_walk (shifts n) (phys k) tb va)"
proof (induction n arbitrary: tb)
  case (Suc n)
  let ?s = "slot_at tb n va" and ?e = "rd64 (phys k) (slot_at tb n va)"
  note w = tree_walkD [OF Suc.prems]
  have "unat ?s div 4096 \<notin> space_pages k d"
  proof
    assume "unat ?s div 4096 \<in> space_pages k d"
    then show False using space_pages_cases [OF t x d] w(3) d' exclusiveD(5) [OF x] by fastforce
  qed
  then have page: "page_used k' (unat ?s div 4096)"
    using r tree_labels [OF t w(3)] by (simp add: releasing_def)
  have "kept k' (?s + of_nat i)" if "i < 8" for i
  proof -
    have k: "kept k (?s + of_nat i)" using w(2) that by (simp add: owned_slot_def)
    have "unat (?s + of_nat i) div 4096 = unat ?s div 4096" 
      by (rule slot_byte) (use w(2) that in \<open>simp_all add: owned_slot_def bytes_at_def unat_of_nat\<close>)
    then show ?thesis using k page releasing_params [OF r] by (simp add: kept_def)
  qed
  then have own: "owned_slot k' ?s" using w(2) by (simp add: owned_slot_def)
  have e: "rd64 (phys k') ?s = ?e" by (rule releasing_rd64 [OF r w(2)])
  have "tree_walk (drop_labels lab d) d' (Suc n) k' tb va"
    by (rule tree_walkI) (use w own e Suc.IH d' in \<open>simp_all add: drop_labels_Some\<close>)
  moreover have "pt_walk (shifts (Suc n)) (phys k') tb va = pt_walk (shifts (Suc n)) (phys k) tb va" if va: "va \<in> space_area"
  proof (cases "present ?e \<and> n \<noteq> 0")
    case True
    then obtain m where "n = Suc m" by (cases n) auto
    moreover have tw: "tree_walk lab d' n k (page_mask ?e) va" using w(4) True va by simp
    ultimately have "frame_of ?e = page_mask ?e" using frame_of_tree by blast
    then show ?thesis using Suc.IH [OF tw] va True e by (simp add: pt_walk_Suc Let_def del: shifts.simps)
  next
    case False
    then show ?thesis using e by (auto simp: pt_walk_Suc Let_def simp del: shifts.simps)
  qed
  ultimately show ?case by blast
qed simp

lemma destroyed_isolated:
  assumes t: "tree lab k D" and x: "exclusive lab k D" and d: "d \<in> D" and r: "releasing k d k'"
  shows "isolated k' (D - {d}) \<and> space_map (D - {d}) k' = (\<lambda>(d', x). if d' = d then None else space_map D k (d', x))"
proof -
  note par = releasing_params [OF r]
  have not_pages: "p \<notin> space_pages k d" if "reserved k p \<or> (\<exists>l. lab p = Some l \<and> fst l \<noteq> d)" for p
    using that space_pages_cases [OF t x d, of p] tree_labels [OF t, of p] exclusiveD(4,5) [OF x] by fastforce
  have used: "page_used k' p" if "p < npages k" "page_used k p" "p \<notin> space_pages k d" for p
    using r that by (simp add: releasing_def)
  have w: "tree_walk (drop_labels lab d) d' 4 k' d' va" if "d' \<in> D - {d}" "va < 0x1000000000000" for d' va
    using released_walk [OF t x d r] treeD [OF t] that by blast
  have pt: "pt_lookup (phys k') d' va = pt_lookup (phys k) d' va" if "d' \<in> D - {d}" "va \<in> space_area" for d' va
    unfolding pt_lookup_def shifts_4 using released_walk [OF t x d r] treeU [OF t] that by blast
  have m: "space_map (D - {d}) k' = (\<lambda>(d', x). if d' = d then None else space_map D k (d', x))"
    using pt by (auto simp: space_map_def fun_eq_iff)
  have labels: "fst l \<in> D - {d} \<and> p < npages k' \<and> page_used k' p \<and> \<not> reserved k' p" if "drop_labels lab d p = Some l" for p l
    using that tree_labels [OF t, of p l] used [of p] not_pages [of p] par unfolding drop_labels_Some by auto
  have "3 < npages k" "page_used k 3" using t by (auto simp: tree_def paging_ok_def)
  then have "page_used k' 3" using used not_pages [of 3] by (simp add: reserved_def)
  then have "tree (drop_labels lab d) k' (D - {d})"
    using r w labels unfolding tree_def releasing_def by blast
  moreover have "exclusive (drop_labels lab d) k' (D - {d})"
  proof -
    have old: "space_map D k y = Some e \<and> fst y \<noteq> d" if "space_map (D - {d}) k' y = Some e" for y e
      using that unfolding m by (cases y) (auto split: if_splits)
    have fr: "frame_no e \<notin> space_pages k d" if "space_map (D - {d}) k' y = Some e" for y e
    proof
      assume "frame_no e \<in> space_pages k d"
      moreover have y: "space_map D k y = Some e" "fst y \<noteq> d" using old [OF that] by auto
      ultimately obtain z f where "space_map D k (d, z) = Some f" "frame_no e = frame_no f"
        using space_pages_cases [OF t x d] exclusiveD(5) [OF x y(1)] by fastforce
      then have "y = (d, z)" using exclusiveD(6) [OF x y(1)] by blast
      then show False using y(2) by simp
    qed
    show ?thesis
      unfolding exclusive_def
    proof (intro conjI allI impI)
      fix y e assume y: "space_map (D - {d}) k' y = Some e"
      note o = exclusiveD(1-5) [OF x conjunct1 [OF old [OF y]]]
      show "frame_of e = page_mask e" "frame_no e < npages k'" "page_used k' (frame_no e)" "\<not> reserved k' (frame_no e)"
        "drop_labels lab d (frame_no e) = None"
        using o used fr [OF y] par by (simp_all add: drop_labels_def)
    next
      fix y z e f assume "space_map (D - {d}) k' y = Some e" "space_map (D - {d}) k' z = Some f" "frame_no e = frame_no f"
      then show "y = z" using old exclusiveD(6) [OF x] by blast
    qed
  qed
  ultimately show ?thesis using m unfolding isolated_def by blast
qed

lemma destroyPageDir_isolated:
  assumes "isolated k D" "d \<in> D"
  shows "\<exists>k'. destroyPageDir d k = Some k' \<and> isolated k' (D - {d}) \<and>
    space_map (D - {d}) k' = (\<lambda>(d', x). if d' = d then None else space_map D k (d', x)) \<and>
    (\<forall>p < npages k. page_used k' p \<longleftrightarrow> page_used k p \<and> p \<notin> space_pages k d)"
proof -
  obtain lab where t: "tree lab k D" and x: "exclusive lab k D" using assms(1) by (auto simp: isolated_def)
  from destroy_directory [OF t x assms(2)] destroyed_isolated [OF t x assms(2)] show ?thesis
    unfolding releasing_def by blast
qed

text \<open>
  C5: at the end of a task \<open>destroyPageDir\<close> returns and releases exactly the pages of its space,
  the tables and the pages behind its addresses; the other spaces are unchanged and stay isolated.
\<close>

theorem destroyPageDir_releases:
  assumes "isolated k D" "d \<in> D"
  shows "\<exists>k'. destroyPageDir d k = Some k' \<and> isolated k' (D - {d}) \<and>
    space_map (D - {d}) k' = (\<lambda>(d', x). if d' = d then None else space_map D k (d', x)) \<and>
    (\<forall>p < npages k. page_used k' p \<longleftrightarrow> page_used k p \<and> p \<notin> space_pages k d)"
  by (rule destroyPageDir_isolated [OF assms])

theorem destroyPageDir_releases_witness:
  "\<exists>k'. destroyPageDir 0x1000 user_kmem = Some k' \<and> \<not> page_used k' 8 \<and> space_map {} k' = Map.empty"
proof -
  have e: "frame_of 0x8003 = 0x8000" by code_simp
  have "frame_no 0x8003 \<in> space_pages user_kmem 0x1000"
    by (rule space_pages_frame [OF user_kmem_tables user_kmem_exclusive, of "0x1000" "0x40000000"]) (simp add: user_kmem_map)
  then have p: "8 \<in> space_pages user_kmem 0x1000" by (simp add: frame_no_def e)
  have n: "8 < npages user_kmem" by (simp add: npages_def user_kmem_def)
  from destroyPageDir_releases [OF user_kmem_isolated singletonI] show ?thesis
    using p n by (force simp: user_kmem_map fun_eq_iff)
qed

end
