(* ===== verification/Isolation.thy ===== *)
theory Isolation
  imports SpaceDestroy
begin

section \<open>Tasks are isolated: \<open>src/kernel/mm/paging.cpp\<close>\<close>

text \<open>
  What happens to the user spaces while tasks are loaded, run and end: a task gets a new directory, a
  page of its space is mapped on demand, an address is looked up (\<open>getPAddr\<close> moves the window to
  physical memory), or a directory is destroyed.
\<close>

inductive space_step :: "kmem \<times> u64 set \<Rightarrow> kmem \<times> u64 set \<Rightarrow> bool" where
  create: "createPageDir k = Some (r, k') \<Longrightarrow> r \<noteq> 0 \<Longrightarrow> space_step (k, D) (k', insert r D)"
| fault: "d \<in> D \<Longrightarrow> va \<in> space_area \<Longrightarrow> mapPage va 0 flags d k = Some (r, k') \<Longrightarrow> space_step (k, D) (k', D)"
| walk: "getPAddr va k = Some (pa, k') \<Longrightarrow> space_step (k, D) (k', D)"
| destroy: "d \<in> D \<Longrightarrow> destroyPageDir d k = Some k' \<Longrightarrow> space_step (k, D) (k', D - {d})"

inductive_cases space_stepE: "space_step s t"

lemma isolated_step:
  assumes "space_step s t" "isolated (fst s) (snd s)"
  shows "isolated (fst t) (snd t)"
  using assms(1)
proof (rule space_stepE)
  fix k r k' D assume "createPageDir k = Some (r, k')" "r \<noteq> 0" "s = (k, D)" "t = (k', insert r D)"
  then show ?thesis using createPageDir_isolated [of k D r k'] assms(2) by simp
next
  fix d D va flags k r k' assume "d \<in> D" "va \<in> space_area" "mapPage va 0 flags d k = Some (r, k')" "s = (k, D)" "t = (k', D)"
  then show ?thesis using mapPage_isolated [of k D d va flags r k'] assms(2) by simp
next
  fix va k pa k' D assume "getPAddr va k = Some (pa, k')" "s = (k, D)" "t = (k', D)"
  then show ?thesis using isolated_walk [of va k pa k' D] assms(2) by simp
next
  fix d D k k' assume "d \<in> D" "destroyPageDir d k = Some k'" "s = (k, D)" "t = (k', D - {d})"
  then show ?thesis using destroyPageDir_isolated [of k D d] assms(2) by auto
qed

lemma isolated_reachable: "space_step\<^sup>*\<^sup>* s t \<Longrightarrow> isolated (fst s) (snd s) \<Longrightarrow> isolated (fst t) (snd t)"
  by (induction rule: rtranclp_induct) (auto intro: isolated_step)

lemma isolated_spaces:
  assumes "isolated k D" "d \<in> D" "d' \<in> D" "p \<in> space_pages k d" "p \<in> space_pages k d'"
  shows "d = d' \<and> page_used k p \<and> \<not> reserved k p"
proof -
  obtain lab where t: "tree lab k D" and x: "exclusive lab k D" using assms(1) by (auto simp: isolated_def)
  consider l where "lab p = Some l" "fst l = d" "fst l = d'"
    | y z e f where "space_map D k (d, y) = Some e" "space_map D k (d', z) = Some f" "frame_no e = p" "frame_no f = p"
    using space_pages_cases [OF t x assms(2,4)] space_pages_cases [OF t x assms(3,5)] exclusiveD(5) [OF x] by fastforce
  then show ?thesis
  proof cases
    case 1
    then show ?thesis using tree_labels [OF t] by blast
  next
    case 2
    then have "(d, y) = (d', z)" using exclusiveD(6) [OF x 2(1,2)] by simp
    then show ?thesis using exclusiveD(3,4) [OF x 2(1)] 2(3) by simp
  qed
qed

text \<open>
  C4: tasks are isolated: whatever directories are created and destroyed and whatever pages of them
  are mapped on demand, in any order, no physical page belongs to two spaces, be it as a table or
  behind an address, none is behind two addresses, and all are in use and none is page 0, the
  kernel's page directory (page 3), its first page table (page 4) or a page of the bitmap.
\<close>

theorem tasks_share_no_page:
  assumes "isolated k D" "space_step\<^sup>*\<^sup>* (k, D) (k', D')"
    and "d \<in> D'" "d' \<in> D'" "p \<in> space_pages k' d" "p \<in> space_pages k' d'"
  shows "d = d' \<and> page_used k' p \<and> \<not> reserved k' p \<and>
    (\<forall>y z e f. space_map D' k' y = Some e \<and> space_map D' k' z = Some f \<and> frame_no e = frame_no f \<longrightarrow> y = z)"
proof -
  have i: "isolated k' D'" using isolated_reachable [OF assms(2)] assms(1) by simp
  then have "\<forall>y z e f. space_map D' k' y = Some e \<and> space_map D' k' z = Some f \<and> frame_no e = frame_no f \<longrightarrow> y = z"
    unfolding isolated_def exclusive_def by blast
  then show ?thesis using isolated_spaces [OF i assms(3-6)] by blast
qed

lemma user_kmem_create: "\<exists>k'. createPageDir user_kmem = Some (0x9000, k')"
proof -
  have u: "page_used user_kmem 0" "page_used user_kmem 1" "page_used user_kmem 2" "page_used user_kmem 3" "page_used user_kmem 4"
    "page_used user_kmem 5" "page_used user_kmem 6" "page_used user_kmem 7" "page_used user_kmem 8"
    and f: "\<not> page_used user_kmem 9" "\<not> page_used user_kmem 10"
    by (simp_all add: user_kmem_def page_used_def bitmap_byte_def bit_iff_odd_drop_bit wr64_def wr_def)
  have used: "page_used user_kmem q" if "q < 9" for q
  proof -
    have "q = 0 \<or> q = 1 \<or> q = 2 \<or> q = 3 \<or> q = 4 \<or> q = 5 \<or> q = 6 \<or> q = 7 \<or> q = 8" using that by linarith
    then show ?thesis using u by (elim disjE) simp_all
  qed
  have n: "unat (maxPhysPages user_kmem) = 512" by (simp add: user_kmem_def)
  have a: "getFreePhysPage user_kmem = 0x9000"
    using getFreePhysPage_lowest [of 9 user_kmem] used f n by simp
  have "page_used (set_page 9 True user_kmem) q" if "q < 10" for q
    using that used [of q] by (cases "q = 9") (auto simp: page_used_set_page)
  then have b: "getFreePhysPage (set_page 9 True user_kmem) = 0xA000"
    using getFreePhysPage_lowest [of 10 "set_page 9 True user_kmem"] f n by (simp add: page_used_set_page)
  have "markPhysPageUsed_paddr 0x9000 user_kmem = set_page 9 True user_kmem"
    using mark_used_paddr_page(1) [of 9] n by (simp add: npages_def)
  moreover have "page_mask 0x9000 = 0x9000" "page_mask 0xA000 = 0xA000" by code_simp+
  ultimately show ?thesis using createPageDir_eq [OF a _ _ b] by simp
qed

theorem tasks_share_no_page_witness:
  "\<exists>k'. createPageDir user_kmem = Some (0x9000, k') \<and> 8 \<in> space_pages k' 0x1000 \<and> 8 \<notin> space_pages k' 0x9000"
proof -
  obtain k' where k': "createPageDir user_kmem = Some (0x9000, k')" using user_kmem_create ..
  have "space_step (user_kmem, {0x1000}) (k', {0x9000, 0x1000})" by (rule create [OF k']) simp
  then have s: "space_step\<^sup>*\<^sup>* (user_kmem, {0x1000}) (k', {0x9000, 0x1000})" by (rule r_into_rtranclp)
  have c: "isolated k' {0x9000, 0x1000}" "space_map {0x9000, 0x1000} k' = space_map {0x1000} user_kmem"
    using createPageDir_isolated [OF user_kmem_isolated k'] by auto
  obtain lab where t: "tree lab k' {0x9000, 0x1000}" and x: "exclusive lab k' {0x9000, 0x1000}" using c(1) by (auto simp: isolated_def)
  have e: "frame_of 0x8003 = 0x8000" by code_simp
  have "frame_no 0x8003 \<in> space_pages k' 0x1000"
    by (rule space_pages_frame [OF t x, of "0x1000" "0x40000000"]) (simp add: c(2) user_kmem_map)
  then have p: "8 \<in> space_pages k' 0x1000" by (simp add: frame_no_def e)
  moreover have "8 \<notin> space_pages k' 0x9000"
  proof
    assume "8 \<in> space_pages k' 0x9000"
    with tasks_share_no_page [OF user_kmem_isolated s _ _ p] have "(0x1000 :: u64) = 0x9000" by blast
    then show False by simp
  qed
  ultimately show ?thesis using k' by blast
qed

end
