(* ===== verification/Elf.thy ===== *)
theory Elf
  imports PageSpace Ata
begin

section \<open>Loading programs: \<open>src/kernel/proc/elf.cpp\<close> and user memory\<close>

text \<open>
  While a program is loaded its own page tables are active and the page fault handler maps the
  user pages that are touched.  The model pairs the physical memory and the bitmap with the
  contents of the address space as the loader sees them; mapping a page brings its frame's
  bytes into view.  The file is the buffer the loader was given: reading outside it is \<open>None\<close>.
\<close>

definition USER_PAGE :: u32 where "USER_PAGE = ucast PAGE_ATTR_USER"

subsection \<open>User memory\<close>

record space =
  frames :: kmem
  um :: mem

text \<open>A successful \<open>mapPage\<close>, and the page it brings into view.\<close>

definition map_in :: "u64 \<Rightarrow> u32 \<Rightarrow> u64 \<Rightarrow> space \<Rightarrow> (u64 \<times> space) option" where
  "map_in va flags pml4 s = do {
     (r, k) \<leftarrow> mapPage va 0 flags pml4 (frames s);
     Some (r, if r = 0 then s\<lparr>frames := k\<rparr> else
       s\<lparr>frames := k,
         um := (case pt_lookup (phys k) pml4 r of None \<Rightarrow> um s
                | Some e \<Rightarrow> wr (um s) (page_mask r) (rd (phys k) (frame_of e) 4096))\<rparr>) }"

text \<open>
  \<open>isr_exc_PF\<close> for a process other than the kernel's: a user address gets a page, any other
  fault ends the process, so that the faulting code never goes on.
\<close>

definition user_fault :: "u64 \<Rightarrow> u64 \<Rightarrow> space \<Rightarrow> space option" where
  "user_fault faulting_addr pml4 s =
     (if faulting_addr \<ge> USER_OFFSET \<and> faulting_addr < USER_STACK then do {
        (r, s) \<leftarrow> map_in (faulting_addr AND 0xFFFFF000) USER_PAGE pml4 s;
        if r = 0 then None else Some s }
      else None)"

text \<open>A store of consecutive bytes, lowest first: each page is touched, then written.\<close>

definition touch :: "u64 \<Rightarrow> u64 \<Rightarrow> space \<Rightarrow> space option" where
  "touch pml4 va s = (if pt_lookup (phys (frames s)) pml4 va = None then user_fault va pml4 s else Some s)"

definition touched_pages :: "u64 \<Rightarrow> nat \<Rightarrow> u64 list" where
  "touched_pages va n =
     (if n = 0 then [] else
        map (\<lambda>i. page_mask va + of_nat (4096 * i)) [0..<(unat (va AND 0xFFF) + n - 1) div 4096 + 1])"

definition ustore :: "u64 \<Rightarrow> u64 \<Rightarrow> u8 list \<Rightarrow> space \<Rightarrow> space option" where
  "ustore pml4 va bs s = do {
     s \<leftarrow> for_each (touch pml4) (touched_pages va (length bs)) s;
     Some (s\<lparr>um := wr (um s) va bs\<rparr>) }"

subsection \<open>The file format\<close>

definition file_bytes :: "u8 list \<Rightarrow> nat \<Rightarrow> nat \<Rightarrow> u8 list option" where
  "file_bytes file off n = (if off + n \<le> length file then Some (take n (drop off file)) else None)"

record ehdr =
  e_ident :: "u8 list"
  e_entry :: u32
  e_phoff :: u32
  e_phnum :: u16

definition ehdr_of :: "u8 list \<Rightarrow> ehdr" where
  "ehdr_of b = \<lparr>e_ident = take 16 b, e_entry = u32_at b 24, e_phoff = u32_at b 28, e_phnum = u16_at b 44\<rparr>"

record phdr =
  p_type :: u32
  p_offset :: u32
  p_vaddr :: u32
  p_filesz :: u32
  p_memsz :: u32
  p_flags :: u32

definition phdr_of :: "u8 list \<Rightarrow> phdr" where
  "phdr_of b = \<lparr>p_type = u32_at b 0, p_offset = u32_at b 4, p_vaddr = u32_at b 8,
     p_filesz = u32_at b 16, p_memsz = u32_at b 20, p_flags = u32_at b 24\<rparr>"

definition PT_LOAD :: u32 where "PT_LOAD = 1"
definition PF_X :: u32 where "PF_X = 1"
definition PF_W :: u32 where "PF_W = 2"
definition PF_R :: u32 where "PF_R = 4"

definition isElf :: "u8 list \<Rightarrow> bool" where
  "isElf ident \<longleftrightarrow> ident ! 0 = 0x7f \<and> ident ! 1 = of_char CHR ''E'' \<and> ident ! 2 = of_char CHR ''L'' \<and>
     ident ! 3 = of_char CHR ''F''"

subsection \<open>\<open>loadElf\<close>\<close>

text \<open>The process fields the loader fills in.\<close>

record areas =
  bExec :: u64
  eExec :: u64
  bBss :: u64
  eBss :: u64

text \<open>The end of a segment is computed with 32-bit operands, so it wraps.\<close>

definition v_begin :: "phdr \<Rightarrow> u64" where "v_begin p = ucast (p_vaddr p)"
definition v_end :: "phdr \<Rightarrow> u64" where "v_end p = ucast (p_vaddr p + p_memsz p)"

definition segment_ok :: "phdr \<Rightarrow> bool" where
  "segment_ok p \<longleftrightarrow> \<not> v_begin p < USER_OFFSET \<and> \<not> v_end p > USER_STACK"

definition note_areas :: "phdr \<Rightarrow> areas \<Rightarrow> areas" where
  "note_areas p a =
     (let a = (if p_flags p = PF_X + PF_R then a\<lparr>bExec := v_begin p, eExec := v_end p\<rparr> else a)
      in if p_flags p = PF_W + PF_R then a\<lparr>bBss := v_begin p, eBss := v_end p\<rparr> else a)"

text \<open>\<open>getPAddr\<close> walks the kernel's tables, not the process's; a failed \<open>mapPage\<close> is ignored.\<close>

definition map_file_page :: "u64 \<Rightarrow> u64 \<Rightarrow> space \<Rightarrow> space option" where
  "map_file_page pml4 ptr s = do {
     (pa, k) \<leftarrow> getPAddr ptr (frames s);
     let s = s\<lparr>frames := k\<rparr>;
     if pa = 0 then map_option snd (map_in ptr USER_PAGE pml4 s) else Some s }"

definition file_pages :: "phdr \<Rightarrow> u64 list" where
  "file_pages p =
     (let start = v_begin p AND NOT 0x7FF; lim = v_begin p + ucast (p_filesz p)
      in map (\<lambda>i. start + of_nat (4096 * i)) [0..<(unat (lim - start) + 4095) div 4096])"

definition load_segment :: "u8 list \<Rightarrow> u64 \<Rightarrow> phdr \<Rightarrow> space \<Rightarrow> space option" where
  "load_segment file pml4 p s = do {
     s \<leftarrow> for_each (map_file_page pml4) (file_pages p) s;
     bs \<leftarrow> file_bytes file (unat (p_offset p)) (unat (p_filesz p));
     s \<leftarrow> ustore pml4 (v_begin p) bs s;
     if p_memsz p > p_filesz p
     then ustore pml4 (v_begin p + ucast (p_filesz p)) (replicate (unat (p_memsz p) - unat (p_filesz p)) 0) s
     else Some s }"

text \<open>One program header: \<open>Some ()\<close> in front ends the loop with a return of 0.\<close>

definition load_entry :: "u8 list \<Rightarrow> u64 \<Rightarrow> u32 \<Rightarrow> nat \<Rightarrow> areas \<times> space \<Rightarrow> (unit option \<times> areas \<times> space) option" where
  "load_entry file pml4 phoff pe = (\<lambda>(a, s). do {
     b \<leftarrow> file_bytes file (unat phoff + 32 * pe) 32;
     let p = phdr_of b;
     if p_type p \<noteq> PT_LOAD then Some (None, a, s)
     else if \<not> segment_ok p then Some (Some (), a, s)
     else do {
       s \<leftarrow> load_segment file pml4 p s;
       Some (None, note_areas p a, s) } })"

definition loadElf :: "u8 list \<Rightarrow> u64 \<Rightarrow> areas \<Rightarrow> space \<Rightarrow> (u64 \<times> areas \<times> space) option" where
  "loadElf file pml4 a s = do {
     b \<leftarrow> file_bytes file 0 52;
     let hdr = ehdr_of b;
     if \<not> isElf (e_ident hdr) then Some (0, a, s) else do {
       (r, a, s) \<leftarrow> for_find (load_entry file pml4 (e_phoff hdr)) [0..<unat (e_phnum hdr)] (a, s);
       Some (case r of Some _ \<Rightarrow> 0 | None \<Rightarrow> ucast (e_entry hdr), a, s) } }"


subsection \<open>The loader stays above \<open>USER_OFFSET\<close>\<close>

text \<open>Memory below the user area is the kernel's, mapped into every address space.\<close>

definition same_below :: "space \<Rightarrow> space \<Rightarrow> bool" where
  "same_below s s' \<longleftrightarrow> (\<forall>a < USER_OFFSET. um s' a = um s a)"

lemma same_below_refl [simp]: "same_below s s"
  by (simp add: same_below_def)

lemma same_below_trans: "same_below s t \<Longrightarrow> same_below t u \<Longrightarrow> same_below s u"
  by (simp add: same_below_def)

lemma wr_below:
  assumes "USER_OFFSET \<le> va" "unat va + length bs \<le> 2 ^ 64" "a < USER_OFFSET"
  shows "wr m va bs a = m a"
proof -
  have "\<not> va \<le> a" using assms(1,3) by auto
  then have "unat (a - va) = unat a + 2 ^ 64 - unat va"
    by (simp add: unat_sub_if' word_le_nat_alt)
  then have "\<not> unat (a - va) < length bs" using assms(2) by simp
  then show ?thesis by (simp add: wr_def)
qed

lemma mapPage_result:
  assumes "mapPage va pa fl pml4 k = Some (r, k')" "va \<noteq> 0"
  shows "r = 0 \<or> r = va"
  using assms by (auto simp: mapPage_def mapPage_at_def Let_def split: Option.bind_splits if_splits)

lemma map_in_below:
  assumes "map_in va fl pml4 s = Some (r, s')" "USER_OFFSET \<le> va"
  shows "same_below s s'"
proof -
  have "va \<noteq> 0" using assms(2) by (auto simp: USER_OFFSET_def)
  then obtain k where k: "mapPage va 0 fl pml4 (frames s) = Some (r, k)" "r = 0 \<or> r = va"
    using assms(1) mapPage_result by (fastforce simp: map_in_def split: Option.bind_splits)
  have "wr m (page_mask va) (rd m' f 4096) a = m a" if "a < USER_OFFSET" for m m' f a
    using page_mask_bounds assms(2) that by (intro wr_below) auto
  then show ?thesis
    using assms(1) k by (auto simp: map_in_def same_below_def split: if_splits option.splits)
qed

lemma user_page_mask:
  assumes "va < USER_STACK"
  shows "va AND 0xFFFFF000 = page_mask va"
proof (rule bit_eqI)
  fix n
  have "va < 2 ^ 32" using assms by (rule less_trans) (simp add: USER_STACK_def)
  then have "unat (take_bit 32 va) = unat va"
    by (simp add: unsigned_take_bit_eq take_bit_nat_eq_self word_less_nat_alt)
  then have "take_bit 32 va = va" by (simp only: word_unat_eq_iff)
  then have b: "bit va n \<Longrightarrow> n < 32" for n by (metis bit_take_bit_iff)
  have m: "(0xFFFFF000 :: u64) = mask 32 AND NOT (mask 12)" by (simp add: mask_eq_exp_minus_1)
  show "bit (va AND 0xFFFFF000) n = bit (page_mask va) n"
    unfolding m using b by (auto simp: bit_page_mask bit_and_iff bit_not_iff bit_mask_iff dest: bit_imp_le_length)
qed

lemma touch_below: "touch pml4 va s = Some s' \<Longrightarrow> same_below s s'"
  using map_in_below [of "page_mask va"] page_mask_bounds(2) [of va]
  by (auto simp: touch_def user_fault_def user_page_mask split: Option.bind_splits if_splits)

lemma for_each_below:
  assumes "for_each f xs s = Some s'" "\<And>x s s'. x \<in> set xs \<Longrightarrow> f x s = Some s' \<Longrightarrow> same_below s s'"
  shows "same_below s s'"
  by (rule for_each_invariant [OF assms(1), of "same_below s"]) (use assms(2) same_below_trans in \<open>auto\<close>)

lemma ustore_below:
  assumes "ustore pml4 va bs s = Some s'" "USER_OFFSET \<le> va" "unat va + length bs \<le> 2 ^ 64"
  shows "same_below s s'"
proof -
  obtain t where t: "for_each (touch pml4) (touched_pages va (length bs)) s = Some t" "s' = t\<lparr>um := wr (um t) va bs\<rparr>"
    using assms(1) by (auto simp: ustore_def split: Option.bind_splits)
  have "same_below s t" by (rule for_each_below [OF t(1)]) (rule touch_below)
  moreover have "same_below t s'" using wr_below [OF assms(2,3)] by (simp add: t(2) same_below_def)
  ultimately show ?thesis by (rule same_below_trans)
qed

lemma v_begin_small: "unat (v_begin p) < 2 ^ 32"
  using unsigned_less [of "p_vaddr p", where 'a = nat] by (simp add: v_begin_def)

lemma file_pages_above:
  assumes "USER_OFFSET \<le> v_begin p" "ptr \<in> set (file_pages p)"
  shows "USER_OFFSET \<le> ptr"
proof -
  let ?v = "v_begin p" and ?start = "v_begin p AND NOT 0x7FF"
  have m: "(0x7FF :: u64) = mask 11" by (simp add: mask_eq_exp_minus_1)
  have "?start = push_bit 11 (drop_bit 11 ?v)"
    unfolding m by (rule bit_eqI) (auto simp: bit_and_iff bit_not_iff bit_mask_iff bit_push_bit_iff bit_drop_bit_eq dest: bit_imp_le_length)
  also have "\<dots> = (?v div 2048) * 2048" by (simp add: push_bit_eq_mult drop_bit_eq_div)
  finally have "unat ?start = unat (?v div 2048) * 2048 mod 2 ^ 64" by (simp add: unat_word_ariths)
  then have start: "unat ?start = unat ?v div 2048 * 2048"
    using v_begin_small [of p] by (simp add: unat_div)
  have fs: "unat (ucast (p_filesz p) :: u64) < 2 ^ 32"
    using unsigned_less [of "p_filesz p", where 'a = nat] by simp
  let ?n = "unat (?v + ucast (p_filesz p) - ?start)"
  have n: "?n \<le> 2 ^ 33 + 2048"
    using start v_begin_small [of p] fs by (simp add: unat_sub_if' unat_word_ariths) linarith
  obtain i where i: "ptr = ?start + of_nat (4096 * i)" "i < (?n + 4095) div 4096"
    using assms(2) by (auto simp: file_pages_def Let_def)
  have "Suc i * 4096 \<le> ?n + 4095" using i(2) by (simp only: Suc_le_eq [symmetric] less_eq_div_iff_mult_less_eq zero_less_numeral)
  then have "4096 * i < 2 ^ 34" using n by simp
  then have off: "unat (of_nat (4096 * i) :: u64) = 4096 * i"
    by (simp add: unat_of_nat take_bit_nat_eq_self del: of_nat_mult)
  have "unat ptr = unat ?start + 4096 * i"
    using start v_begin_small [of p] \<open>4096 * i < 2 ^ 34\<close> unfolding i(1)
    by (simp add: unat_word_ariths off del: of_nat_mult)
  moreover have "unat USER_OFFSET \<le> unat ?start"
    using assms(1) unfolding word_le_nat_alt start by (simp add: USER_OFFSET_def)
  ultimately show ?thesis by (simp add: word_le_nat_alt)
qed

lemma load_segment_below:
  assumes "load_segment file pml4 p s = Some s'" "segment_ok p"
  shows "same_below s s'"
proof -
  have v: "USER_OFFSET \<le> v_begin p" using assms(2) by (simp add: segment_ok_def not_less)
  have sz: "unat (p_filesz p) < 2 ^ 32" "unat (p_memsz p) < 2 ^ 32"
    using unsigned_less [of "p_filesz p", where 'a = nat] unsigned_less [of "p_memsz p", where 'a = nat] by simp_all
  have vu: "unat (v_begin p + ucast (p_filesz p)) = unat (v_begin p) + unat (p_filesz p)"
    using v_begin_small [of p] sz by (simp add: unat_word_ariths)
  then have v2: "USER_OFFSET \<le> v_begin p + ucast (p_filesz p)" using v by (simp add: word_le_nat_alt)
  obtain t bs u where t: "for_each (map_file_page pml4) (file_pages p) s = Some t"
    and bs: "file_bytes file (unat (p_offset p)) (unat (p_filesz p)) = Some bs"
    and u: "ustore pml4 (v_begin p) bs t = Some u"
    and s': "if p_memsz p > p_filesz p
       then ustore pml4 (v_begin p + ucast (p_filesz p)) (replicate (unat (p_memsz p) - unat (p_filesz p)) 0) u = Some s'
       else s' = u"
    using assms(1) by (auto simp: load_segment_def split: Option.bind_splits if_splits)
  have "same_below s t"
  proof (rule for_each_below [OF t])
    fix ptr a b assume "ptr \<in> set (file_pages p)" and step: "map_file_page pml4 ptr a = Some b"
    then have "USER_OFFSET \<le> ptr" using file_pages_above [OF v] by blast
    then show "same_below a b"
      using step map_in_below by (fastforce simp: map_file_page_def Let_def same_below_def split: Option.bind_splits if_splits)
  qed
  moreover have "length bs = unat (p_filesz p)" using bs by (auto simp: file_bytes_def split: if_splits)
  then have "same_below t u" using ustore_below [OF u v] v_begin_small [of p] sz by simp
  moreover have "same_below u s'"
    using s' ustore_below [OF _ v2] vu v_begin_small [of p] sz by (auto split: if_splits)
  ultimately show ?thesis by (meson same_below_trans)
qed

lemma load_entries_below:
  assumes "for_find (load_entry file pml4 phoff) pes (a, s) = Some (r, a', s')"
  shows "same_below s s'"
  using assms
proof (induction pes arbitrary: a s)
  case (Cons pe pes)
  obtain r1 a1 s1 where step: "load_entry file pml4 phoff pe (a, s) = Some (r1, a1, s1)"
    and rest: "if r1 = None then for_find (load_entry file pml4 phoff) pes (a1, s1) = Some (r, a', s') else s' = s1"
    using Cons.prems by (auto split: Option.bind_splits option.splits)
  have "same_below s s1"
    using step load_segment_below by (auto simp: load_entry_def Let_def split: Option.bind_splits if_splits)
  then show ?case using rest Cons.IH same_below_trans by (auto split: if_splits)
qed simp

text \<open>
  C22: Loading a program, well-formed or not, never changes a byte below \<open>USER_OFFSET\<close>: whatever
  the headers say, the kernel's memory is out of the loader's reach.
\<close>

theorem loadElf_keeps_kernel_memory:
  assumes "loadElf file pml4 a s = Some (entry, a', s')" "x < USER_OFFSET"
  shows "um s' x = um s x"
proof -
  have "same_below s s'"
    using assms(1) load_entries_below
    by (fastforce simp: loadElf_def Let_def split: Option.bind_splits if_splits option.splits)
  then show ?thesis using assms(2) by (simp add: same_below_def)
qed

text \<open>
  Which segments pass the loader's check.  Besides those inside the user area, it accepts
  segments that reach so far beyond \<open>USER_STACK\<close> that their 32-bit end wraps around.
\<close>

theorem segment_check_exact:
  "segment_ok p \<longleftrightarrow> 0x40000000 \<le> uint (p_vaddr p) \<and>
     (uint (p_vaddr p) + uint (p_memsz p) \<le> 0xE0000000 \<or>
      2 ^ 32 \<le> uint (p_vaddr p) + uint (p_memsz p) \<and> uint (p_vaddr p) + uint (p_memsz p) \<le> 2 ^ 32 + 0xE0000000)"
proof -
  let ?V = "uint (p_vaddr p)" and ?M = "uint (p_memsz p)"
  have b: "0 \<le> ?V + ?M" "?V + ?M < 2 ^ 32 + 2 ^ 32"
    using uint_lt2p [of "p_vaddr p"] uint_lt2p [of "p_memsz p"] by simp_all
  have vb: "uint (v_begin p) = ?V"
    by (simp add: v_begin_def uint_up_ucast is_up)
  have ve: "uint (v_end p) = (?V + ?M) mod 2 ^ 32"
    by (simp add: v_end_def uint_up_ucast is_up uint_word_ariths)
  have "USER_OFFSET \<le> v_begin p \<longleftrightarrow> 0x40000000 \<le> ?V"
    unfolding word_le_def vb by (simp add: USER_OFFSET_def)
  moreover have "v_end p \<le> USER_STACK \<longleftrightarrow> (?V + ?M) mod 2 ^ 32 \<le> 0xE0000000"
    unfolding word_le_def ve by (simp add: USER_STACK_def)
  moreover have "(?V + ?M) mod 2 ^ 32 = (if ?V + ?M < 2 ^ 32 then ?V + ?M else ?V + ?M - 2 ^ 32)"
    using wrap_once [OF b] .
  moreover have "(if ?V + ?M < 2 ^ 32 then ?V + ?M else ?V + ?M - 2 ^ 32) \<le> 0xE0000000 \<longleftrightarrow>
      ?V + ?M \<le> 0xE0000000 \<or> 2 ^ 32 \<le> ?V + ?M \<and> ?V + ?M \<le> 2 ^ 32 + 0xE0000000"
    by (cases "?V + ?M < 2 ^ 32") simp_all
  ultimately show ?thesis unfolding segment_ok_def not_less by simp
qed


text \<open>A header, and one program header for an empty segment at \<open>USER_OFFSET\<close>.\<close>

definition demo_elf :: "u8 list" where
  "demo_elf = [0x7f, 0x45, 0x4c, 0x46] @ replicate 20 0 @ le_bytes 4 (0x40000000 :: u32) @ le_bytes 4 (52 :: u32) @
     replicate 12 0 @ [1, 0] @ replicate 6 0 @
     le_bytes 4 (1 :: u32) @ le_bytes 4 (0 :: u32) @ le_bytes 4 (0x40000000 :: u32) @ replicate 12 0 @ [5, 0, 0, 0, 0, 0, 0, 0]"

lemma demo_elf_parts:
  "file_bytes demo_elf 0 52 = Some (take 52 demo_elf)" "isElf (e_ident (ehdr_of (take 52 demo_elf)))"
  "e_phoff (ehdr_of (take 52 demo_elf)) = 52" "e_phnum (ehdr_of (take 52 demo_elf)) = 1"
  "e_entry (ehdr_of (take 52 demo_elf)) = 0x40000000"
  "file_bytes demo_elf 52 32 = Some (drop 52 demo_elf)"
  "phdr_of (drop 52 demo_elf) = \<lparr>p_type = 1, p_offset = 0, p_vaddr = 0x40000000, p_filesz = 0, p_memsz = 0, p_flags = 5\<rparr>"
  by code_simp+

lemma demo_elf_segment:
  "load_segment demo_elf dir \<lparr>p_type = 1, p_offset = 0, p_vaddr = 0x40000000, p_filesz = 0, p_memsz = 0, p_flags = 5\<rparr> s = Some s"
  by (simp add: load_segment_def file_pages_def v_begin_def file_bytes_def ustore_def touched_pages_def Let_def)

theorem loadElf_keeps_kernel_memory_witness:
  "\<exists>a' s'. loadElf demo_elf 0x5000 \<lparr>bExec = 0, eExec = 0, bBss = 0, eBss = 0\<rparr>
      \<lparr>frames = boot_kmem, um = (\<lambda>_. 7)\<rparr> = Some (0x40000000, a', s') \<and> um s' 0x1000 = 7"
proof -
  have "\<exists>a' s'. loadElf demo_elf 0x5000 \<lparr>bExec = 0, eExec = 0, bBss = 0, eBss = 0\<rparr>
      \<lparr>frames = boot_kmem, um = (\<lambda>_. 7)\<rparr> = Some (0x40000000, a', s')"
    by (simp add: loadElf_def demo_elf_parts load_entry_def Let_def PT_LOAD_def segment_ok_def v_begin_def
        v_end_def USER_OFFSET_def USER_STACK_def demo_elf_segment)
  then show ?thesis
    using loadElf_keeps_kernel_memory [of demo_elf "0x5000" _ "\<lparr>frames = boot_kmem, um = (\<lambda>_. 7)\<rparr>" _ _ _ "0x1000"]
    by (fastforce simp: USER_OFFSET_def)
qed

end
