(* ===== verification/ElfImage.thy ===== *)
theory ElfImage
  imports Isolation Elf
begin

section \<open>The image of a loaded program: \<open>src/kernel/proc/elf.cpp\<close>\<close>

text \<open>
  Mapping a page brings its frame's bytes into view, which would destroy what the loader has
  already stored there.  It does not happen: a page that is mapped is never mapped again, so a
  segment stays as it was stored while the others are loaded.
\<close>

subsection \<open>What the loader keeps of a user space\<close>

definition user_area :: "u64 set" where "user_area = {va. USER_OFFSET \<le> va \<and> va < USER_STACK}"

lemma user_area_space: "va \<in> user_area \<Longrightarrow> va \<in> space_area"
  by (auto simp: user_area_def space_area_def USER_STACK_def word_less_nat_alt)

lemma user_area_page: "va \<in> user_area \<Longrightarrow> page_mask va \<in> user_area"
  using page_mask_bounds(2) [of va] page_mask_le [of va] by (auto simp: user_area_def)

definition mapped :: "u64 \<Rightarrow> space \<Rightarrow> u64 \<Rightarrow> bool" where
  "mapped pml4 s x \<longleftrightarrow> pt_lookup (phys (frames s)) pml4 x \<noteq> None"

definition grows :: "u64 \<Rightarrow> space \<Rightarrow> space \<Rightarrow> bool" where
  "grows pml4 s s' \<longleftrightarrow> user_tables (frames s') {pml4} \<and>
     (\<forall>x \<in> user_area. mapped pml4 s x \<longrightarrow> mapped pml4 s' x \<and> um s' x = um s x)"

lemma grows_refl: "user_tables (frames s) {pml4} \<Longrightarrow> grows pml4 s s"
  by (simp add: grows_def)

lemma grows_trans: "grows pml4 s t \<Longrightarrow> grows pml4 t u \<Longrightarrow> grows pml4 s u"
  by (simp add: grows_def)

lemma in_page:
  assumes "unat (x - page_mask va) < 4096"
  shows "page_mask x = page_mask va"
proof -
  have b: "unat (page_mask va) + 4096 \<le> 2 ^ 64" by (rule page_mask_bounds)
  have "unat x = unat (page_mask va + (x - page_mask va))" by simp
  also have "\<dots> = unat (page_mask va) + unat (x - page_mask va)"
    using b assms by (simp only: unat_word_ariths(1)) simp
  finally have "unat x div 4096 = unat va div 4096" using assms by (simp add: unat_page_mask)
  then have "unat (page_mask x) = unat (page_mask va)" by (simp only: unat_page_mask)
  then show ?thesis by (simp only: word_unat_eq_iff)
qed

lemma stable_user_lookup:
  assumes "user_tables k {pml4}" "stable k k'" "x \<in> user_area" "pt_lookup (phys k) pml4 x = Some e"
  shows "pt_lookup (phys k') pml4 x = Some e"
proof -
  have "owned_walk k pml4 x" using assms(1) tree_owned_walk [OF _ singletonI user_area_space [OF assms(3)]] by (auto simp: user_tables_def)
  then show ?thesis using stable_walk [OF assms(2)] assms(4) by (simp only: owned_walk_def pt_lookup_def)
qed

lemma map_in_grows:
  assumes "user_tables (frames s) {pml4}" "va \<in> user_area" "map_in va fl pml4 s = Some (r, s')"
  shows "grows pml4 s s' \<and> (r = 0 \<or> mapped pml4 s' va)"
proof -
  obtain k where k: "mapPage va 0 fl pml4 (frames s) = Some (r, k)" "frames s' = k"
    and um: "r = 0 \<and> um s' = um s \<or> r \<noteq> 0 \<and> (um s' = um s \<or> (\<exists>f. um s' = wr (um s) (page_mask r) (rd (phys k) f 4096)))"
    using assms(3) by (fastforce simp: map_in_def split: Option.bind_splits if_splits option.splits)
  obtain lab where t: "tree lab (frames s) {pml4}" using assms(1) by (auto simp: user_tables_def)
  have m: "user_tables k {pml4}" "stable (frames s) k"
    "r \<noteq> 0 \<longrightarrow> r = va \<and> pt_lookup (phys (frames s)) pml4 va = None \<and> pt_lookup (phys k) pml4 va \<noteq> None"
    by (rule mapPage_tree [OF t singletonI user_area_space [OF assms(2)] k(1)], auto simp: user_tables_def split: if_splits)+
  have "mapped pml4 s' x \<and> um s' x = um s x" if x: "x \<in> user_area" "mapped pml4 s x" for x
  proof
    show "mapped pml4 s' x"
      using stable_user_lookup [OF assms(1) m(2) x(1)] x(2) k(2) by (auto simp: mapped_def)
    have "um s' x = um s x" if r: "r \<noteq> 0" and w: "um s' = wr (um s) (page_mask r) (rd (phys k) f 4096)" for f
    proof -
      have "r = va" "pt_lookup (phys (frames s)) pml4 va = None" using m(3) r by auto
      then have "page_mask x \<noteq> page_mask r"
        using x(2) pt_lookup_page [of _ pml4 x] pt_lookup_page [of _ pml4 va] unfolding mapped_def by metis
      then have "\<not> unat (x - page_mask r) < 4096" using in_page by blast
      then show ?thesis by (simp add: w wr_def)
    qed
    then show "um s' x = um s x" using um by auto
  qed
  then show ?thesis using m(1,3) k(2) by (auto simp: grows_def mapped_def split: if_splits)
qed

lemma touch_grows:
  assumes "user_tables (frames s) {pml4}" "touch pml4 va s = Some s'"
  shows "grows pml4 s s' \<and> mapped pml4 s' va"
proof (cases "pt_lookup (phys (frames s)) pml4 va")
  case None
  then have u: "va \<in> user_area" and m: "\<exists>r. map_in (page_mask va) USER_PAGE pml4 s = Some (r, s') \<and> r \<noteq> 0"
    using assms(2) user_page_mask [of va] by (auto simp: touch_def user_fault_def user_area_def split: if_splits Option.bind_splits)
  then show ?thesis
    using map_in_grows [OF assms(1) user_area_page [OF u]] by (auto simp: mapped_def pt_lookup_page)
next
  case (Some e)
  then show ?thesis using assms by (simp add: touch_def mapped_def grows_refl)
qed

lemma touch_all:
  assumes "user_tables (frames s) {pml4}" "for_each (touch pml4) vas s = Some s'" "set vas \<subseteq> user_area"
  shows "grows pml4 s s' \<and> (\<forall>va \<in> set vas. mapped pml4 s' va)"
  using assms
proof (induction vas arbitrary: s)
  case Nil
  then show ?case by (simp add: grows_refl)
next
  case (Cons va vas)
  obtain t where t: "touch pml4 va s = Some t" "for_each (touch pml4) vas t = Some s'"
    using Cons.prems(2) by (auto split: Option.bind_splits)
  note g = touch_grows [OF Cons.prems(1) t(1)]
  then have "user_tables (frames t) {pml4}" by (simp add: grows_def)
  from Cons.IH [OF this t(2)] Cons.prems(3) have h: "grows pml4 t s'" "\<forall>va \<in> set vas. mapped pml4 s' va" by simp_all
  then show ?case using g grows_trans Cons.prems(3) by (auto simp: grows_def)
qed

subsection \<open>Stores\<close>

lemma user_area_nat: "x \<in> user_area \<longleftrightarrow> 0x40000000 \<le> unat x \<and> unat x < 0xE0000000"
  by (simp add: user_area_def USER_OFFSET_def USER_STACK_def word_le_nat_alt word_less_nat_alt)

lemma touched_page:
  assumes "unat va + n \<le> 2 ^ 63" "4096 * i < unat (va AND 0xFFF) + n"
  shows "unat (page_mask va + of_nat (4096 * i)) = 4096 * (unat va div 4096 + i)"
proof -
  have lt: "unat (va AND 0xFFF) \<le> unat va" by (simp add: word_and_le2 flip: word_le_nat_alt)
  have pm: "unat (page_mask va) = 4096 * (unat va div 4096)" by (simp add: unat_page_mask)
  also have "\<dots> \<le> unat va" by simp
  finally have "unat (page_mask va) + 4096 * i < 2 ^ 64" using assms lt by simp
  then have "unat (page_mask va + of_nat (4096 * i)) = unat (page_mask va) + 4096 * i" by (rule unat_add_small)
  then show ?thesis using pm by simp
qed

lemma page_offset_and: "unat (va AND 0xFFF) = unat va mod 4096" for va :: u64
proof -
  have m: "(0xFFF :: u64) = mask 12" by (simp add: mask_eq_exp_minus_1)
  have "unat (take_bit 12 va) = take_bit 12 (unat va)" by (simp add: unsigned_take_bit_eq)
  also have "\<dots> = unat va mod 4096" by (simp add: take_bit_eq_mod)
  finally show ?thesis unfolding m take_bit_eq_mask .
qed

lemma touched_pages_user:
  assumes "0x40000000 \<le> unat va" "unat va + n \<le> 0xE0000000"
  shows "set (touched_pages va n) \<subseteq> user_area"
    "unat va \<le> unat x \<Longrightarrow> unat x < unat va + n \<Longrightarrow> page_mask x \<in> set (touched_pages va n)"
proof -
  let ?o = "unat va mod 4096" and ?q = "unat va div 4096"
  have va: "unat va = 4096 * ?q + ?o" by simp
  have page: "unat (page_mask va + of_nat (4096 * i)) = 4096 * (?q + i)" if "i \<le> (?o + n - 1) div 4096" "0 < n" for i
  proof -
    have "4096 * i \<le> ?o + n - 1" using that(1) by (simp add: less_eq_div_iff_mult_less_eq mult.commute)
    then show ?thesis using touched_page [of va n i] assms(2) that(2) by (simp add: page_offset_and)
  qed
  show "set (touched_pages va n) \<subseteq> user_area"
  proof
    fix y assume "y \<in> set (touched_pages va n)"
    then obtain i where i: "0 < n" "y = page_mask va + of_nat (4096 * i)" "i \<le> (?o + n - 1) div 4096"
      by (auto simp: touched_pages_def page_offset_and less_Suc_eq_le split: if_splits)
    have "4096 * i \<le> ?o + n - 1" using i(3) by (simp add: less_eq_div_iff_mult_less_eq mult.commute)
    then have "4096 * i < ?o + n" using i(1) by simp
    then have "4096 * ?q + 4096 * i < 4096 * ?q + (?o + n)" by (rule add_strict_left_mono)
    then have "4096 * (?q + i) < unat va + n" unfolding distrib_left using va by simp
    moreover have "0x40000 \<le> ?q" using assms(1) by (simp add: less_eq_div_iff_mult_less_eq)
    ultimately show "y \<in> user_area" using assms page [OF i(3,1)] i(2) by (simp add: user_area_nat)
  qed
  assume x: "unat va \<le> unat x" "unat x < unat va + n"
  let ?i = "unat x div 4096 - ?q"
  have n: "0 < n" using x by simp
  have q: "?q \<le> unat x div 4096" using x(1) by (rule div_le_mono)
  have "unat x div 4096 \<le> (unat va + n - 1) div 4096" using x by (intro div_le_mono) simp
  also have "unat va + n - 1 = 4096 * ?q + (?o + n - 1)" using n va by simp
  also have "\<dots> div 4096 = ?q + (?o + n - 1) div 4096" by simp
  finally have "unat x div 4096 \<le> (?o + n - 1) div 4096 + ?q" by (simp only: add.commute)
  then have i: "?i \<le> (?o + n - 1) div 4096" by (simp only: le_diff_conv)
  have "unat (page_mask x) = unat (page_mask va + of_nat (4096 * ?i))"
    using page [OF i n] q by (simp add: unat_page_mask)
  then have "page_mask x = page_mask va + of_nat (4096 * ?i)" by (simp only: word_unat_eq_iff)
  moreover have "?i \<in> set [0..<(?o + n - 1) div 4096 + 1]" using i by (simp add: less_Suc_eq_le del: upt_Suc)
  ultimately show "page_mask x \<in> set (touched_pages va n)"
    using n unfolding touched_pages_def page_offset_and by (auto simp del: upt_Suc of_nat_mult)
qed

text \<open>\<open>placed\<close>: the bytes are in the space at an address, and what was mapped elsewhere is as it was.\<close>

definition placed :: "u64 \<Rightarrow> space \<Rightarrow> space \<Rightarrow> nat \<Rightarrow> u8 list \<Rightarrow> bool" where
  "placed pml4 s s' v bs \<longleftrightarrow> user_tables (frames s') {pml4} \<and>
     (\<forall>x. v \<le> unat x \<longrightarrow> unat x < v + length bs \<longrightarrow> mapped pml4 s' x \<and> um s' x = bs ! (unat x - v)) \<and>
     (\<forall>x \<in> user_area. mapped pml4 s x \<longrightarrow> mapped pml4 s' x \<and> (unat x < v \<or> v + length bs \<le> unat x \<longrightarrow> um s' x = um s x))"

lemma ustore_places:
  assumes "user_tables (frames s) {pml4}" "ustore pml4 va bs s = Some s'" "0x40000000 \<le> unat va" "unat va + length bs \<le> 0xE0000000"
  shows "placed pml4 s s' (unat va) bs"
proof -
  obtain t where t: "for_each (touch pml4) (touched_pages va (length bs)) s = Some t" "s' = t\<lparr>um := wr (um t) va bs\<rparr>"
    using assms(2) by (auto simp: ustore_def split: Option.bind_splits)
  note tp = touched_pages_user [OF assms(3,4)]
  from touch_all [OF assms(1) t(1) tp(1)] have g: "grows pml4 s t" and m: "\<forall>va \<in> set (touched_pages va (length bs)). mapped pml4 t va" by auto
  have mp: "mapped pml4 (t\<lparr>um := m\<rparr>) x = mapped pml4 t x" for x m by (simp add: mapped_def)
  have off: "unat (x - va) < length bs \<longleftrightarrow> unat va \<le> unat x \<and> unat x < unat va + length bs" "unat va \<le> unat x \<Longrightarrow> unat (x - va) = unat x - unat va" for x
    using assms(4) unsigned_less [of x, where 'a = nat] by (auto simp: unat_sub_if')
  have "mapped pml4 t x" if "unat va \<le> unat x" "unat x < unat va + length bs" for x
    using m tp(2) [OF that] pt_lookup_page [of _ pml4 x] by (auto simp: mapped_def)
  then show ?thesis
    using g by (auto simp: placed_def mp grows_def t(2) wr_def off)
qed

lemma grows_placed: "grows pml4 s t \<Longrightarrow> placed pml4 t u v bs \<Longrightarrow> placed pml4 s u v bs"
  by (simp add: grows_def placed_def)

lemma placed_append:
  assumes "placed pml4 s t v bs" "placed pml4 t u (v + length bs) cs" "0x40000000 \<le> v" "v + length (bs @ cs) \<le> 0xE0000000"
  shows "placed pml4 s u v (bs @ cs)"
proof -
  have "mapped pml4 u x \<and> um u x = (bs @ cs) ! (unat x - v)" if x: "v \<le> unat x" "unat x < v + length (bs @ cs)" for x
  proof (cases "unat x < v + length bs")
    case True
    then have "mapped pml4 t x" "um t x = bs ! (unat x - v)" using assms(1) x by (auto simp: placed_def)
    moreover have "x \<in> user_area" using x assms(3,4) by (simp add: user_area_nat)
    ultimately show ?thesis using assms(2) True x by (auto simp: placed_def nth_append)
  next
    case False
    then show ?thesis using assms(2) x by (auto simp: placed_def nth_append add.assoc)
  qed
  then show ?thesis using assms(1,2) by (auto simp: placed_def)
qed

subsection \<open>Segments\<close>

definition segment_image :: "u8 list \<Rightarrow> phdr \<Rightarrow> u8 list" where
  "segment_image file p = take (unat (p_filesz p)) (drop (unat (p_offset p)) file) @ replicate (unat (p_memsz p) - unat (p_filesz p)) 0"

definition fits :: "phdr \<Rightarrow> bool" where
  "fits p \<longleftrightarrow> unat (p_filesz p) \<le> unat (p_memsz p) \<and> unat (p_vaddr p) + unat (p_memsz p) \<le> 0xE0000000"

lemma map_file_page_grows:
  assumes "user_tables (frames s) {pml4}" "map_file_page pml4 ptr s = Some s'" "ptr \<in> user_area"
  shows "grows pml4 s s'"
proof -
  obtain pa k where k: "getPAddr ptr (frames s) = Some (pa, k)"
    and r: "if pa = 0 then \<exists>r. map_in ptr USER_PAGE pml4 (s\<lparr>frames := k\<rparr>) = Some (r, s') else s' = s\<lparr>frames := k\<rparr>"
    using assms(2) by (auto simp: map_file_page_def Let_def split: Option.bind_splits if_splits)
  obtain lab where t: "tree lab (frames s) {pml4}" using assms(1) by (auto simp: user_tables_def)
  then have kk: "keeps {} {} (frames s) k" using getPAddr_keeps [OF _ k] by (simp add: tree_def)
  then have u: "user_tables k {pml4}" using tree_keeps [OF kk t] by (auto simp: user_tables_def)
  have "mapped pml4 (s\<lparr>frames := k\<rparr>) x" if "x \<in> user_area" "mapped pml4 s x" for x
    using stable_user_lookup [OF assms(1) stable_keeps [OF kk] that(1)] that(2) by (auto simp: mapped_def)
  then have g: "grows pml4 s (s\<lparr>frames := k\<rparr>)" using u by (simp add: grows_def)
  show ?thesis
  proof (cases "pa = 0")
    case True
    then obtain r where "map_in ptr USER_PAGE pml4 (s\<lparr>frames := k\<rparr>) = Some (r, s')" using r by auto
    then show ?thesis using map_in_grows [of "s\<lparr>frames := k\<rparr>" pml4 ptr] u assms(3) grows_trans [OF g] by simp
  next
    case False
    then show ?thesis using r g by simp
  qed
qed

lemma file_pages_user:
  assumes "segment_ok p" "fits p"
  shows "set (file_pages p) \<subseteq> user_area"
proof
  fix ptr assume ptr: "ptr \<in> set (file_pages p)"
  have v: "USER_OFFSET \<le> v_begin p" using assms(1) by (simp add: segment_ok_def not_less)
  have low: "0x40000000 \<le> unat ptr" using file_pages_above [OF v ptr] by (simp add: USER_OFFSET_def word_le_nat_alt)
  let ?lim = "v_begin p + ucast (p_filesz p)" and ?start = "v_begin p AND NOT 0x7FF"
  have lim: "unat ?lim \<le> 0xE0000000"
    using assms(2) v_begin_small [of p] by (simp add: fits_def v_begin_def unat_word_ariths)
  obtain i where i: "ptr = ?start + of_nat (4096 * i)" "i < (unat (?lim - ?start) + 4095) div 4096"
    using ptr by (auto simp: file_pages_def Let_def)
  have "Suc i * 4096 \<le> unat (?lim - ?start) + 4095" using i(2) by (simp only: Suc_le_eq [symmetric] less_eq_div_iff_mult_less_eq zero_less_numeral)
  then have lt: "4096 * i < unat (?lim - ?start)" by simp
  have "?start \<le> v_begin p" by (rule word_and_le2)
  moreover have "unat (v_begin p) \<le> unat ?lim" using v_begin_small [of p] unsigned_less [of "p_filesz p", where 'a = nat]
    by (simp add: unat_word_ariths)
  ultimately have sub: "unat (?lim - ?start) = unat ?lim - unat ?start" "unat ?start \<le> unat ?lim"
    by (auto simp: unat_sub word_le_nat_alt)
  then have b: "unat ?start + 4096 * i < unat ?lim" using lt by simp
  then have "unat ptr = unat ?start + 4096 * i" unfolding i(1) using unat_add_small [of ?start "4096 * i"] lim by simp
  then show "ptr \<in> user_area" using low b lim by (simp add: user_area_nat)
qed

lemma for_each_rel:
  assumes "for_each f xs s = Some s'" "I s"
    and "\<And>x s s'. x \<in> set xs \<Longrightarrow> I s \<Longrightarrow> f x s = Some s' \<Longrightarrow> I s' \<and> R s s'"
    and "\<And>s. I s \<Longrightarrow> R s s" "\<And>s t u. R s t \<Longrightarrow> R t u \<Longrightarrow> R s u"
  shows "I s' \<and> R s s'"
  using assms(1-3)
proof (induction xs arbitrary: s)
  case Nil
  then show ?case by (simp add: assms(4))
next
  case (Cons x xs)
  obtain t where t: "f x s = Some t" "for_each f xs t = Some s'" using Cons.prems(1) by (auto split: Option.bind_splits)
  have g: "I t \<and> R s t" using Cons.prems(3) [OF _ Cons.prems(2) t(1)] by simp
  then have "I s' \<and> R t s'" by (intro Cons.IH [OF t(2)]) (use Cons.prems(3) in auto)
  then show ?case using assms(5) g by blast
qed

lemma for_each_grows:
  assumes "user_tables (frames s) {pml4}" "for_each f xs s = Some s'"
    and "\<And>x s s'. x \<in> set xs \<Longrightarrow> user_tables (frames s) {pml4} \<Longrightarrow> f x s = Some s' \<Longrightarrow> grows pml4 s s'"
  shows "grows pml4 s s'"
  using for_each_rel [where I = "\<lambda>s. user_tables (frames s) {pml4}" and R = "grows pml4", OF assms(2,1)]
    assms(3) grows_refl grows_trans by (force simp: grows_def)

lemma load_segment_places:
  assumes "user_tables (frames s) {pml4}" "load_segment file pml4 p s = Some s'" "segment_ok p" "fits p"
  shows "placed pml4 s s' (unat (p_vaddr p)) (segment_image file p)"
proof -
  let ?v = "unat (p_vaddr p)" and ?f = "unat (p_filesz p)" and ?m = "unat (p_memsz p)"
  have v: "unat (v_begin p) = ?v" "0x40000000 \<le> ?v" and fm: "?f \<le> ?m" "?v + ?m \<le> 0xE0000000"
    using assms(3,4) by (simp_all add: v_begin_def segment_ok_def fits_def USER_OFFSET_def word_less_nat_alt)
  have v2: "unat (v_begin p + ucast (p_filesz p)) = ?v + ?f" using v fm by (simp add: unat_word_ariths)
  obtain t bs u where t: "for_each (map_file_page pml4) (file_pages p) s = Some t"
    and bs: "file_bytes file (unat (p_offset p)) ?f = Some bs"
    and u: "ustore pml4 (v_begin p) bs t = Some u"
    and s': "if p_memsz p > p_filesz p
       then ustore pml4 (v_begin p + ucast (p_filesz p)) (replicate (?m - ?f) 0) u = Some s' else s' = u"
    using assms(2) by (auto simp: load_segment_def split: Option.bind_splits if_splits)
  have g: "grows pml4 s t"
    by (rule for_each_grows [OF assms(1) t]) (use map_file_page_grows file_pages_user [OF assms(3,4)] in blast)
  have len: "length bs = ?f" and bs': "bs = take ?f (drop (unat (p_offset p)) file)"
    using bs by (auto simp: file_bytes_def split: if_splits)
  have "user_tables (frames t) {pml4}" using g by (simp add: grows_def)
  then have pu: "placed pml4 t u ?v bs" using ustore_places [OF _ u] v len fm by simp
  show ?thesis
  proof (cases "p_filesz p < p_memsz p")
    case True
    then have s'': "ustore pml4 (v_begin p + ucast (p_filesz p)) (replicate (?m - ?f) 0) u = Some s'" using s' by simp
    have "user_tables (frames u) {pml4}" using pu by (simp add: placed_def)
    then have "placed pml4 u s' (?v + length bs) (replicate (?m - ?f) 0)"
      using ustore_places [OF _ s''] v(2) v2 len fm by simp
    from placed_append [OF pu this v(2)] have "placed pml4 t s' ?v (bs @ replicate (?m - ?f) 0)" using len fm by simp
    then show ?thesis using grows_placed [OF g] by (simp add: segment_image_def bs')
  next
    case False
    then have "?m - ?f = 0" "s' = u" using s' fm by (simp_all add: word_less_nat_alt)
    then show ?thesis using grows_placed [OF g pu] by (simp add: segment_image_def bs')
  qed
qed

subsection \<open>The whole program\<close>

definition segments_from :: "u8 list \<Rightarrow> u32 \<Rightarrow> nat list \<Rightarrow> phdr list" where
  "segments_from file phoff pes = filter (\<lambda>p. p_type p = PT_LOAD) (map (\<lambda>pe. phdr_of (take 32 (drop (unat phoff + 32 * pe) file))) pes)"

definition separate :: "phdr \<Rightarrow> phdr \<Rightarrow> bool" where
  "separate p q \<longleftrightarrow> unat (p_vaddr p) + unat (p_memsz p) \<le> unat (p_vaddr q) \<or> unat (p_vaddr q) + unat (p_memsz q) \<le> unat (p_vaddr p)"

definition inside :: "phdr \<Rightarrow> u64 \<Rightarrow> bool" where
  "inside p x \<longleftrightarrow> unat (p_vaddr p) \<le> unat x \<and> unat x < unat (p_vaddr p) + unat (p_memsz p)"

definition shows_image :: "u64 \<Rightarrow> u8 list \<Rightarrow> space \<Rightarrow> phdr \<Rightarrow> bool" where
  "shows_image pml4 file s p \<longleftrightarrow> unat (p_offset p) + unat (p_filesz p) \<le> length file \<and> (\<forall>x. inside p x \<longrightarrow> mapped pml4 s x \<and> um s x = segment_image file p ! (unat x - unat (p_vaddr p)))"

lemma load_segment_in_file: "load_segment file pml4 p s = Some s' \<Longrightarrow> unat (p_offset p) + unat (p_filesz p) \<le> length file"
  by (auto simp: load_segment_def file_bytes_def split: Option.bind_splits if_splits)

lemma load_entry_cases:
  assumes "load_entry file pml4 phoff pe (a, s) = Some (None, a', s')"
  shows "segments_from file phoff [pe] = [] \<and> s' = s \<or>
    (\<exists>p. segments_from file phoff [pe] = [p] \<and> segment_ok p \<and> load_segment file pml4 p s = Some s' \<and>
       unat (p_offset p) + unat (p_filesz p) \<le> length file)"
proof -
  obtain b where b: "file_bytes file (unat phoff + 32 * pe) 32 = Some b"
    and r: "if p_type (phdr_of b) \<noteq> PT_LOAD then s' = s else segment_ok (phdr_of b) \<and> load_segment file pml4 (phdr_of b) s = Some s'"
    using assms by (auto simp: load_entry_def Let_def split: if_splits Option.bind_splits)
  have "segments_from file phoff [pe] = (if p_type (phdr_of b) = PT_LOAD then [phdr_of b] else [])"
    using b by (simp add: segments_from_def file_bytes_def split: if_splits)
  then show ?thesis using r load_segment_in_file by (auto split: if_splits)
qed

lemma load_entries_places:
  assumes "for_find (load_entry file pml4 phoff) pes (a, s) = Some (None, a', s')" "user_tables (frames s) {pml4}"
    and "\<forall>p \<in> set (segments_from file phoff pes). fits p" "sorted_wrt separate (segments_from file phoff pes)"
  shows "(\<forall>p \<in> set (segments_from file phoff pes). shows_image pml4 file s' p) \<and>
    (\<forall>x \<in> user_area. mapped pml4 s x \<longrightarrow> mapped pml4 s' x \<and>
       ((\<forall>p \<in> set (segments_from file phoff pes). \<not> inside p x) \<longrightarrow> um s' x = um s x))"
  using assms
proof (induction pes arbitrary: a s)
  case Nil
  then show ?case by (simp add: segments_from_def)
next
  case (Cons pe pes)
  obtain a1 s1 where step: "load_entry file pml4 phoff pe (a, s) = Some (None, a1, s1)"
    and rest: "for_find (load_entry file pml4 phoff) pes (a1, s1) = Some (None, a', s')"
    using Cons.prems(1) by (auto split: Option.bind_splits option.splits)
  have split: "segments_from file phoff (pe # pes) = segments_from file phoff [pe] @ segments_from file phoff pes"
    by (simp add: segments_from_def)
  from load_entry_cases [OF step] show ?case
  proof (elim disjE exE conjE)
    assume "segments_from file phoff [pe] = []" "s1 = s"
    then show ?thesis using Cons.IH [of a1 s1] rest Cons.prems(2-4) unfolding split by simp
  next
    fix p assume p: "segments_from file phoff [pe] = [p]" "segment_ok p" "load_segment file pml4 p s = Some s1" 
      and fl: "unat (p_offset p) + unat (p_filesz p) \<le> length file"
    have fits: "fits p" and ap: "\<forall>q \<in> set (segments_from file phoff pes). separate p q"
      using Cons.prems(3,4) unfolding split p(1) by simp_all
    have len: "length (segment_image file p) = unat (p_memsz p)" using fits fl by (simp add: segment_image_def fits_def)
    have pl: "placed pml4 s s1 (unat (p_vaddr p)) (segment_image file p)"
      using load_segment_places [OF Cons.prems(2) p(3,2) fits] .
    then have u1: "user_tables (frames s1) {pml4}" by (simp add: placed_def)
    note IH = Cons.IH [OF rest u1]
    have IH1: "\<forall>q \<in> set (segments_from file phoff pes). shows_image pml4 file s' q"
      and IH2: "\<forall>x \<in> user_area. mapped pml4 s1 x \<longrightarrow> mapped pml4 s' x \<and>
       ((\<forall>q \<in> set (segments_from file phoff pes). \<not> inside q x) \<longrightarrow> um s' x = um s1 x)"
      using IH Cons.prems(3,4) unfolding split p(1) by simp_all
    have v: "0x40000000 \<le> unat (p_vaddr p)" using p(2) by (simp add: segment_ok_def v_begin_def USER_OFFSET_def word_less_nat_alt)
    have "mapped pml4 s' x \<and> um s' x = segment_image file p ! (unat x - unat (p_vaddr p))" if x: "inside p x" for x
    proof -
      have "x \<in> user_area" using x v fits by (simp add: inside_def fits_def user_area_nat)
      moreover have "mapped pml4 s1 x" "um s1 x = segment_image file p ! (unat x - unat (p_vaddr p))"
        using pl x len by (auto simp: placed_def inside_def)
      moreover have "\<not> inside q x" if "q \<in> set (segments_from file phoff pes)" for q
        using ap that x by (auto simp: separate_def inside_def)
      ultimately show ?thesis using IH2 by auto
    qed
    then have "shows_image pml4 file s' p" using fl by (simp add: shows_image_def)
    moreover have "mapped pml4 s1 x \<and> (\<not> inside p x \<longrightarrow> um s1 x = um s x)" if "x \<in> user_area" "mapped pml4 s x" for x
      using pl that len by (auto simp: placed_def inside_def not_less not_le)
    ultimately show ?thesis using IH1 IH2 unfolding split p(1) by simp
  qed
qed

definition load_segments :: "u8 list \<Rightarrow> phdr list" where
  "load_segments file = (let hdr = ehdr_of (take 52 file) in segments_from file (e_phoff hdr) [0..<unat (e_phnum hdr)])"

text \<open>
  C23: when \<open>loadElf\<close> returns an entry point, every byte of every loadable segment is mapped and
  holds what the file says: the bytes of the file, then zeros up to the size in memory.  The
  segments must lie apart, end below \<open>USER_STACK\<close> and be at least as large as their part of the file.
\<close>

theorem loadElf_image:
  assumes "user_tables (frames s) {pml4}" "loadElf file pml4 a s = Some (entry, a', s')" "entry \<noteq> 0"
    and "\<forall>p \<in> set (load_segments file). fits p" "sorted_wrt separate (load_segments file)"
    and "p \<in> set (load_segments file)" "i < unat (p_memsz p)"
  shows "mapped pml4 s' (v_begin p + of_nat i) \<and>
    um s' (v_begin p + of_nat i) = (if i < unat (p_filesz p) then file ! (unat (p_offset p) + i) else 0)"
proof -
  let ?h = "ehdr_of (take 52 file)"
  have "file_bytes file 0 52 = Some (take 52 file)" "isElf (e_ident ?h)" 
    and run: "for_find (load_entry file pml4 (e_phoff ?h)) [0..<unat (e_phnum ?h)] (a, s) = Some (None, a', s')"
    using assms(2,3) by (auto simp: loadElf_def file_bytes_def Let_def split: if_splits Option.bind_splits option.splits)
  have img: "shows_image pml4 file s' p"
    using load_entries_places [OF run assms(1)] assms(4-6) by (simp add: load_segments_def Let_def)
  have b: "unat (p_filesz p) \<le> unat (p_memsz p)" "unat (p_vaddr p) + unat (p_memsz p) \<le> 0xE0000000"
    using assms(4,6) by (simp_all add: fits_def)
  have x: "unat (v_begin p + of_nat i) = unat (p_vaddr p) + i"
    using unat_add_small [of "v_begin p" i] b(2) assms(7) by (simp add: v_begin_def)
  then have "inside p (v_begin p + of_nat i)" using assms(7) by (simp add: inside_def)
  then have *: "mapped pml4 s' (v_begin p + of_nat i)" "um s' (v_begin p + of_nat i) = segment_image file p ! i"
    using img x by (simp_all add: shows_image_def)
  have "unat (p_offset p) + unat (p_filesz p) \<le> length file" using img by (simp add: shows_image_def)
  then have "segment_image file p ! i = (if i < unat (p_filesz p) then file ! (unat (p_offset p) + i) else 0)"
    using b(1) assms(7) by (simp add: segment_image_def nth_append)
  then show ?thesis using * by simp
qed

text \<open>A file with one segment of two bytes and two zeros, loaded where a page is mapped already.\<close>

definition elf2 :: "u8 list" where
  "elf2 = [0x7f, 0x45, 0x4c, 0x46] @ replicate 20 0 @ le_bytes 4 (0x40000000 :: u32) @ le_bytes 4 (52 :: u32) @
     replicate 12 0 @ [1, 0] @ replicate 6 0 @
     le_bytes 4 (1 :: u32) @ le_bytes 4 (84 :: u32) @ le_bytes 4 (0x40000000 :: u32) @ replicate 4 0 @ [2, 0, 0, 0, 4, 0, 0, 0, 5, 0, 0, 0, 0, 0, 0, 0] @
     [0xAB, 0xCD]"

definition phdr2 :: phdr where
  "phdr2 = \<lparr>p_type = 1, p_offset = 84, p_vaddr = 0x40000000, p_filesz = 2, p_memsz = 4, p_flags = 5\<rparr>"

lemma elf2_parts:
  "file_bytes elf2 0 52 = Some (take 52 elf2)" "isElf (e_ident (ehdr_of (take 52 elf2)))"
  "e_phoff (ehdr_of (take 52 elf2)) = 52" "e_phnum (ehdr_of (take 52 elf2)) = 1"
  "e_entry (ehdr_of (take 52 elf2)) = 0x40000000"
  "file_bytes elf2 52 32 = Some (take 32 (drop 52 elf2))" "phdr_of (take 32 (drop 52 elf2)) = phdr2"
  "file_bytes elf2 84 2 = Some [0xAB, 0xCD]" "elf2 ! 84 = 0xAB" "elf2 ! 85 = 0xCD"
  by code_simp+

lemma elf2_loads: "\<exists>a' s'. loadElf elf2 0x1000 a \<lparr>frames = user_kmem, um = m\<rparr> = Some (0x40000000, a', s')"
proof -
  let ?s = "\<lparr>frames = user_kmem, um = m\<rparr>"
  have pm: "page_mask 0x8003 = 0x8000" "page_mask 0x40000000 = 0x40000000" "page_mask 0x40000002 = 0x40000000" by code_simp+
  obtain k where k: "getPAddr 0x40000000 user_kmem = Some (0x8000, k)" "keeps {} {} user_kmem k"
    using getPAddr_walk [OF user_kmem_ok, of "0x40000000"] user_kmem_walk(1) user_kmem_lookup(1,4) pm(1) by (auto simp: PML4_ADDR_def)
  have "pt_lookup (phys k) 0x1000 0x40000000 = Some 0x8003"
    by (rule stable_user_lookup [OF isolated_tables [OF user_kmem_isolated] stable_keeps [OF k(2)] _ user_kmem_lookup(1)])
      (simp add: user_area_def USER_OFFSET_def USER_STACK_def)
  then have t: "touch 0x1000 0x40000000 \<lparr>frames = k, um = m'\<rparr> = Some \<lparr>frames = k, um = m'\<rparr>" for m' by (simp add: touch_def)
  have "map_file_page 0x1000 0x40000000 ?s = Some \<lparr>frames = k, um = m\<rparr>" using k(1) by (simp add: map_file_page_def)
  moreover have "file_pages phdr2 = [0x40000000]" by (simp add: file_pages_def phdr2_def v_begin_def Let_def)
  moreover have us: "ustore 0x1000 0x40000000 bs \<lparr>frames = k, um = m'\<rparr> = Some \<lparr>frames = k, um = wr m' 0x40000000 bs\<rparr>"
      "ustore 0x1000 0x40000002 bs \<lparr>frames = k, um = m'\<rparr> = Some \<lparr>frames = k, um = wr m' 0x40000002 bs\<rparr>" if "length bs = 2" for bs m'
  proof -
    have "touched_pages 0x40000000 2 = [0x40000000]" "touched_pages 0x40000002 2 = [0x40000000]"
      by (simp_all add: touched_pages_def pm)
    then show "ustore 0x1000 0x40000000 bs \<lparr>frames = k, um = m'\<rparr> = Some \<lparr>frames = k, um = wr m' 0x40000000 bs\<rparr>"
      "ustore 0x1000 0x40000002 bs \<lparr>frames = k, um = m'\<rparr> = Some \<lparr>frames = k, um = wr m' 0x40000002 bs\<rparr>"
      by (simp_all add: ustore_def that t)
  qed
  moreover have "v_begin phdr2 = 0x40000000" "v_begin phdr2 + ucast (p_filesz phdr2) = 0x40000002" "unat (p_offset phdr2) = 84" "unat (p_filesz phdr2) = 2"
      "unat (p_memsz phdr2) - unat (p_filesz phdr2) = 2" "p_filesz phdr2 < p_memsz phdr2" by (simp_all add: phdr2_def v_begin_def)
  ultimately have "\<exists>s'. load_segment elf2 0x1000 phdr2 ?s = Some s'"
    by (simp only: load_segment_def elf2_parts(8) for_each.simps Option.bind.simps if_True length_replicate list.size) simp
  then show ?thesis
    by (auto simp: loadElf_def elf2_parts load_entry_def Let_def PT_LOAD_def segment_ok_def v_begin_def
        v_end_def USER_OFFSET_def USER_STACK_def phdr2_def)
qed

lemma elf2_segments:
  "\<forall>p \<in> set (load_segments elf2). fits p" "sorted_wrt separate (load_segments elf2)" "phdr2 \<in> set (load_segments elf2)"
proof -
  have segs: "load_segments elf2 = [phdr2]"
    by (simp add: load_segments_def segments_from_def Let_def elf2_parts) (simp add: phdr2_def PT_LOAD_def)
  show "\<forall>p \<in> set (load_segments elf2). fits p" "sorted_wrt separate (load_segments elf2)" "phdr2 \<in> set (load_segments elf2)"
    by (simp_all add: segs fits_def phdr2_def)
qed

theorem loadElf_image_witness:
  "\<exists>a' s'. loadElf elf2 0x1000 \<lparr>bExec = 0, eExec = 0, bBss = 0, eBss = 0\<rparr> \<lparr>frames = user_kmem, um = (\<lambda>_. 7)\<rparr> = Some (0x40000000, a', s') \<and>
    um s' 0x40000001 = 0xCD \<and> um s' 0x40000003 = 0"
proof -
  let ?s = "\<lparr>frames = user_kmem, um = (\<lambda>_. 7)\<rparr>" and ?a = "\<lparr>bExec = 0, eExec = 0, bBss = 0, eBss = 0\<rparr>"
  obtain a' s' where l: "loadElf elf2 0x1000 ?a ?s = Some (0x40000000, a', s')" using elf2_loads by blast
  have "user_tables (frames ?s) {0x1000}" using isolated_tables [OF user_kmem_isolated] by simp
  note img = loadElf_image [OF this l _ elf2_segments]
  have "um s' (v_begin phdr2 + of_nat 1) = 0xCD" "um s' (v_begin phdr2 + of_nat 3) = 0"
    using img [of 1] img [of 3] elf2_parts(10) by (simp_all add: phdr2_def)
  then show ?thesis using l by (simp add: phdr2_def v_begin_def)
qed

subsection \<open>Loading leaves the other spaces alone\<close>

definition owner :: "u64 set \<Rightarrow> space \<Rightarrow> bool" where
  "owner D s \<longleftrightarrow> isolated (frames s) D"

definition only :: "u64 set \<Rightarrow> u64 \<Rightarrow> space \<Rightarrow> space \<Rightarrow> bool" where
  "only D d s s' \<longleftrightarrow> (\<forall>d' x. d' \<noteq> d \<longrightarrow> space_map D (frames s') (d', x) = space_map D (frames s) (d', x))"

lemma only_refl: "only D d s s"
  by (simp add: only_def)

lemma only_trans: "only D d s t \<Longrightarrow> only D d t u \<Longrightarrow> only D d s u"
  by (simp add: only_def)

lemma map_in_only:
  assumes "owner D s" "d \<in> D" "va \<in> space_area" "map_in va fl d s = Some (r, s')"
  shows "owner D s' \<and> only D d s s'"
proof -
  obtain k where k: "mapPage va 0 fl d (frames s) = Some (r, k)" "frames s' = k"
    using assms(4) by (fastforce simp: map_in_def split: Option.bind_splits if_splits option.splits)
  show ?thesis
    using mapPage_isolated [of "frames s" D d va fl r k] assms(1-3) k unfolding owner_def only_def by blast
qed

lemma touch_only:
  assumes "owner D s" "d \<in> D" "touch d va s = Some s'"
  shows "owner D s' \<and> only D d s s'"
proof (cases "pt_lookup (phys (frames s)) d va")
  case None
  then have u: "va \<in> user_area" and m: "\<exists>r. map_in (page_mask va) USER_PAGE d s = Some (r, s')"
    using assms(3) user_page_mask [of va] by (auto simp: touch_def user_fault_def user_area_def split: if_splits Option.bind_splits)
  then show ?thesis using map_in_only [OF assms(1,2) user_area_space [OF user_area_page [OF u]]] by blast
next
  case (Some e)
  then show ?thesis using assms by (simp add: touch_def only_refl)
qed

lemma ustore_only:
  assumes "owner D s" "d \<in> D" "ustore d va bs s = Some s'"
  shows "owner D s' \<and> only D d s s'"
proof -
  obtain t where t: "for_each (touch d) (touched_pages va (length bs)) s = Some t" "frames s' = frames t"
    using assms(3) by (auto simp: ustore_def split: Option.bind_splits)
  have "owner D t \<and> only D d s t"
    by (rule for_each_rel [where I = "owner D" and R = "only D d", OF t(1) assms(1)]) (use touch_only assms(2) only_refl only_trans in blast)+
  then show ?thesis using t(2) by (simp add: owner_def only_def)
qed

lemma map_file_page_only:
  assumes "owner D s" "d \<in> D" "ptr \<in> user_area" "map_file_page d ptr s = Some s'"
  shows "owner D s' \<and> only D d s s'"
proof -
  obtain pa k where k: "getPAddr ptr (frames s) = Some (pa, k)"
    and r: "if pa = 0 then \<exists>r. map_in ptr USER_PAGE d (s\<lparr>frames := k\<rparr>) = Some (r, s') else s' = s\<lparr>frames := k\<rparr>"
    using assms(4) by (auto simp: map_file_page_def Let_def split: Option.bind_splits if_splits)
  have w: "owner D (s\<lparr>frames := k\<rparr>)" "only D d s (s\<lparr>frames := k\<rparr>)"
    using isolated_walk [OF k] assms(1) by (simp_all add: owner_def only_def)
  then show ?thesis using r map_in_only [OF w(1) assms(2) user_area_space [OF assms(3)]] only_trans [OF w(2)] by (cases "pa = 0") auto
qed

lemma load_segment_only:
  assumes "owner D s" "d \<in> D" "segment_ok p" "fits p" "load_segment file d p s = Some s'"
  shows "owner D s' \<and> only D d s s'"
proof -
  obtain t bs u where t: "for_each (map_file_page d) (file_pages p) s = Some t" and u: "ustore d (v_begin p) bs t = Some u"
    and s': "if p_memsz p > p_filesz p
       then ustore d (v_begin p + ucast (p_filesz p)) (replicate (unat (p_memsz p) - unat (p_filesz p)) 0) u = Some s' else s' = u"
    using assms(5) by (auto simp: load_segment_def split: Option.bind_splits if_splits)
  have "owner D t \<and> only D d s t"
    by (rule for_each_rel [where I = "owner D" and R = "only D d", OF t assms(1)])
      (use map_file_page_only file_pages_user [OF assms(3,4)] assms(2) only_refl only_trans in blast)+
  moreover from this have "owner D u \<and> only D d t u" using ustore_only [OF _ assms(2) u] by blast
  moreover have "s' = u \<or> (\<exists>va zs. ustore d va zs u = Some s')" using s' by (auto split: if_splits)
  ultimately show ?thesis using ustore_only [OF _ assms(2)] only_trans by blast
qed

lemma load_entries_only:
  assumes "for_find (load_entry file d phoff) pes (a, s) = Some (r, a', s')" "owner D s" "d \<in> D"
    and "\<forall>p \<in> set (segments_from file phoff pes). fits p"
  shows "owner D s' \<and> only D d s s'"
  using assms
proof (induction pes arbitrary: a s)
  case Nil
  then show ?case by (simp add: only_refl)
next
  case (Cons pe pes)
  obtain r1 a1 s1 where step: "load_entry file d phoff pe (a, s) = Some (r1, a1, s1)"
    and rest: "r1 = None \<and> for_find (load_entry file d phoff) pes (a1, s1) = Some (r, a', s') \<or> r1 \<noteq> None \<and> s' = s1"
    using Cons.prems(1) by (auto split: Option.bind_splits option.splits)
  have split: "segments_from file phoff (pe # pes) = segments_from file phoff [pe] @ segments_from file phoff pes"
    by (simp add: segments_from_def)
  have one: "owner D s1 \<and> only D d s s1"
  proof (cases r1)
    case None
    then show ?thesis
      using load_entry_cases [of "file" d phoff pe a s a1 s1] step load_segment_only [OF Cons.prems(2,3)] Cons.prems(2,4) only_refl
      unfolding split by auto
  next
    case (Some y)
    then have "s1 = s" using step by (auto simp: load_entry_def Let_def split: if_splits Option.bind_splits)
    then show ?thesis using Cons.prems(2) only_refl by simp
  qed
  show ?case
    using rest one Cons.IH [of a1 s1] Cons.prems(3,4) only_trans unfolding split by auto
qed

text \<open>
  C24: whatever is in the file, and whether or not it is accepted, loading it into the space of one
  task changes no translation of another task and keeps the tasks isolated.  The segments must end
  below \<open>USER_STACK\<close> and be at least as large as their part of the file.
\<close>

theorem loadElf_keeps_isolation:
  assumes "isolated (frames s) D" "d \<in> D" "\<forall>p \<in> set (load_segments file). fits p"
    and "loadElf file d a s = Some (entry, a', s')"
  shows "isolated (frames s') D \<and>
    (\<forall>d' x. d' \<noteq> d \<longrightarrow> space_map D (frames s') (d', x) = space_map D (frames s) (d', x))"
proof -
  let ?h = "ehdr_of (take 52 file)"
  have "s' = s \<or> (\<exists>r. for_find (load_entry file d (e_phoff ?h)) [0..<unat (e_phnum ?h)] (a, s) = Some (r, a', s'))"
    using assms(4) by (auto simp: loadElf_def file_bytes_def Let_def split: if_splits Option.bind_splits)
  then have "owner D s' \<and> only D d s s'"
    using load_entries_only [of "file" d "e_phoff ?h" "[0..<unat (e_phnum ?h)]" a s _ a' s' D] assms(1-3) only_refl
    by (auto simp: owner_def load_segments_def Let_def)
  then show ?thesis by (simp add: owner_def only_def)
qed

theorem loadElf_keeps_isolation_witness:
  "\<exists>a' s'. loadElf elf2 0x1000 \<lparr>bExec = 0, eExec = 0, bBss = 0, eBss = 0\<rparr> \<lparr>frames = user_kmem, um = (\<lambda>_. 7)\<rparr> = Some (0x40000000, a', s') \<and>
    isolated (frames s') {0x1000}"
proof -
  let ?s = "\<lparr>frames = user_kmem, um = (\<lambda>_. 7)\<rparr>" and ?a = "\<lparr>bExec = 0, eExec = 0, bBss = 0, eBss = 0\<rparr>"
  obtain a' s' where l: "loadElf elf2 0x1000 ?a ?s = Some (0x40000000, a', s')" using elf2_loads by blast
  have "isolated (frames ?s) {0x1000}" using user_kmem_isolated by simp
  from loadElf_keeps_isolation [OF this singletonI _ l] show ?thesis
    using l elf2_segments by blast
qed

end
