(* ===== verification/Process.thy ===== *)
theory Process
  imports Elf Ext2 Arch
begin

section \<open>Processes: \<open>src/kernel/proc/process.cpp\<close>\<close>

text \<open>
  The task manager's state holds the fixed table of processes, the index of the current one, the
  count of tasks, the kernel stack pointer in the TSS, physical memory, the contents of the
  address space of each page directory, and the file system.  A switch never returns: the
  arguments of the last \<open>doTaskSwitch\<close> are kept in \<open>switched\<close>.  Interrupts are off throughout.
  Buffers on the kernel heap are values here.
\<close>

definition MAXPID :: nat where "MAXPID = 64"

record regs =
  rax :: u64   rcx :: u64   rdx :: u64   rbx :: u64
  rsp :: u64   rbp :: u64   rsi :: u64   rdi :: u64
  r8 :: u64    r9 :: u64    r10 :: u64   r11 :: u64
  r12 :: u64   r13 :: u64   r14 :: u64   r15 :: u64
  rip :: u64   eflags :: u64
  cs :: u16    ss :: u16    ds :: u16    es :: u16    fs :: u16    gs :: u16
  cr3 :: u64

record process =
  regs :: regs
  krsp0 :: u64
  kss0 :: u16
  pid :: nat
  pml4 :: u64
  pageList :: "u64 list"
  zones :: areas
  bHeap :: u64
  eHeap :: u64
  parent :: nat
  state :: int
  status :: int

datatype run_mode = KERNELMODE | USERMODE

record 'd taskman =
  pList :: "process list"
  current :: nat
  nProc :: u32
  schedulerEnabled :: bool
  tss_rsp0 :: u64
  kframes :: kmem
  spaces :: "u64 \<Rightarrow> mem"
  files :: "'d fs"
  switched :: "(nat \<times> u16 \<times> u64) option"

definition upd_proc :: "nat \<Rightarrow> (process \<Rightarrow> process) \<Rightarrow> 'd taskman \<Rightarrow> 'd taskman" where
  "upd_proc n f t = t\<lparr>pList := (pList t)[n := f (pList t ! n)]\<rparr>"

definition upd_regs :: "(regs \<Rightarrow> regs) \<Rightarrow> process \<Rightarrow> process" where
  "upd_regs f p = p\<lparr>regs := f (regs p)\<rparr>"

text \<open>The constructor sets the state only; the rest of the new array is \<open>junk\<close>.\<close>

definition process_ctor :: "process \<Rightarrow> process" where
  "process_ctor junk = junk\<lparr>state := 0\<rparr>"

definition task_init :: "process \<Rightarrow> u16 \<Rightarrow> 'd taskman \<Rightarrow> 'd taskman" where
  "task_init junk kernel_ss t =
     upd_proc 0 (\<lambda>p. (upd_regs (\<lambda>r. r\<lparr>cr3 := PML4_ADDR, ss := kernel_ss\<rparr>) p)\<lparr>pid := 0, state := 1, parent := 0\<rparr>)
       (t\<lparr>schedulerEnabled := True, nProc := 0, pList := replicate (MAXPID + 1) (process_ctor junk), current := 0\<rparr>)"

definition getCurrent :: "'d taskman \<Rightarrow> nat" where "getCurrent t = current t"
definition getNProc :: "'d taskman \<Rightarrow> u32" where "getNProc t = nProc t"
definition disableScheduler :: "'d taskman \<Rightarrow> 'd taskman" where "disableScheduler t = t\<lparr>schedulerEnabled := False\<rparr>"
definition enableScheduler :: "'d taskman \<Rightarrow> 'd taskman" where "enableScheduler t = t\<lparr>schedulerEnabled := True\<rparr>"

subsection \<open>\<open>loadTask\<close>\<close>

text \<open>\<open>while (pList[pid].state != 0 && pid++ < MAXPID);\<close>\<close>

function find_pid :: "process list \<Rightarrow> nat \<Rightarrow> nat" where
  "find_pid ps n =
     (if state (ps ! n) \<noteq> 0 then (if n < MAXPID then find_pid ps (Suc n) else Suc n) else n)"
  by pat_completeness auto
termination
  by (relation "measure (\<lambda>(ps, n). MAXPID - n)") auto

declare find_pid.simps [simp del]

text \<open>The program's stack: the exit stub, then the arguments.\<close>

definition exit_stub :: "u64 \<Rightarrow> space \<Rightarrow> space option" where
  "exit_stub dir s =
     (let stackp = USER_STACK - 16 in do {
        (_, s) \<leftarrow> map_in (stackp AND NOT 0xFFF) USER_PAGE dir s;
        s \<leftarrow> ustore dir stackp (le_bytes 8 (stackp + 8)) s;
        ustore dir (stackp + 8) (le_bytes 8 (0xCCCC30CD40C03193 :: u64)) s })"

fun push_strings :: "u64 \<Rightarrow> u8 list list \<Rightarrow> u64 \<Rightarrow> space \<Rightarrow> (u64 list \<times> u64 \<times> space) option" where
  "push_strings dir [] stackp s = Some ([], stackp, s)"
| "push_strings dir (a # as) stackp s =
     (let stackp = stackp - (of_nat (length a) + 1) in do {
        s \<leftarrow> ustore dir stackp (a @ [0]) s;
        (ups, sp, s) \<leftarrow> push_strings dir as stackp s;
        Some (stackp # ups, sp, s) })"

fun push_words :: "u64 \<Rightarrow> u64 list \<Rightarrow> u64 \<Rightarrow> space \<Rightarrow> (u64 \<times> space) option" where
  "push_words dir [] stackp s = Some (stackp, s)"
| "push_words dir (w # ws) stackp s =
     (let stackp = stackp - 8 in do {
        s \<leftarrow> ustore dir stackp (le_bytes 8 w) s;
        push_words dir ws stackp s })"

definition push_args :: "u64 \<Rightarrow> u8 list list \<Rightarrow> u64 \<Rightarrow> space \<Rightarrow> (u64 \<times> space) option" where
  "push_args dir argv stackp s =
     (if argv = [] then Some (stackp, s) else do {
        (ups, stackp, s) \<leftarrow> push_strings dir argv stackp s;
        (stackp, s) \<leftarrow> push_words dir (0 # rev ups) (stackp AND 0xFFFFFFF0) s;
        let stackp = stackp - 8;
        s \<leftarrow> ustore dir stackp (le_bytes 8 (stackp + 4)) s;
        let stackp = stackp - 8;
        s \<leftarrow> ustore dir stackp (le_bytes 4 (of_nat (length argv) :: u32)) s;
        Some (stackp - 8, s) })"

text \<open>The registers and attributes of a loaded process.\<close>

definition start_process :: "u64 \<Rightarrow> u64 \<Rightarrow> u64 \<Rightarrow> nat \<Rightarrow> process \<Rightarrow> process" where
  "start_process entry stackp kstack par p =
     p\<lparr>regs := (regs p)\<lparr>ss := SS_USRSTACK, rsp := stackp, eflags := 0, cs := SS_USRCODE32, rip := entry,
          ds := SS_USRDATA, es := SS_USRDATA, fs := SS_USRDATA, gs := SS_USRDATA, cr3 := pml4 p,
          rax := 0, rcx := 0, rdx := 0, rbx := 0, rbp := 0, rsi := 0, rdi := 0\<rparr>,
       kss0 := SS_DATA, krsp0 := kstack + PAGESIZE - 16,
       bHeap := (eBss (zones p) AND 0xFFFFF000) + PAGESIZE, eHeap := (eBss (zones p) AND 0xFFFFF000) + PAGESIZE,
       parent := par, state := 1\<rparr>"

text \<open>
  \<open>bytes\<close> is what reading the node delivered.  The first result is the pid or 0.  A directory
  that could not be created leaves the processor without page tables: \<open>None\<close>.
\<close>

definition load_program :: "nat \<Rightarrow> u8 list \<Rightarrow> u8 list list \<Rightarrow> 'd taskman \<Rightarrow> (nat \<times> 'd taskman) option" where
  "load_program n bytes argv t =
     (let previous = current t;
          t = upd_proc n (\<lambda>p. p\<lparr>pid := n\<rparr>) (t\<lparr>nProc := nProc t + 1\<rparr>) in do {
        (dir, k) \<leftarrow> createPageDir (kframes t);
        if dir = 0 then None else do {
          let t = upd_proc n (\<lambda>p. p\<lparr>pml4 := dir\<rparr>) (t\<lparr>kframes := k, current := n\<rparr>);
          (entry, zs, s) \<leftarrow> loadElf bytes dir (zones (pList t ! n)) \<lparr>frames = k, um = spaces t dir\<rparr>;
          let t = upd_proc n (\<lambda>p. p\<lparr>zones := zs\<rparr>) t;
          if entry = 0 then do {
            k \<leftarrow> destroyPageDir dir (frames s);
            Some (0, t\<lparr>current := previous, kframes := k\<rparr>) }
          else do {
            s \<leftarrow> exit_stub dir s;
            (stackp, s) \<leftarrow> push_args dir argv (USER_STACK - 16) s;
            (kstack, s) \<leftarrow> map_in 0 0 dir s;
            let par = (if state (pList t ! previous) \<noteq> 0 then previous else 0);
            let t = upd_proc n (start_process entry stackp kstack par) t;
            Some (n, t\<lparr>current := previous, kframes := frames s, spaces := (spaces t)(dir := um s)\<rparr>) } } })"

text \<open>Reading the file for \<open>loadTask\<close>: a buffer of \<open>getSize\<close> bytes, then \<open>read\<close>.\<close>

definition read_program ::
  "'d disk_reader \<Rightarrow> (nat \<Rightarrow> u8 list) \<Rightarrow> nat \<Rightarrow> 'd fs \<Rightarrow> (u8 list \<times> 'd fs) option" where
  "read_program R junk nd f = do {
     n \<leftarrow> getSize nd f;
     (_, bytes, f) \<leftarrow> read_node R junk nd n (junk (unat n)) f;
     Some (bytes, f) }"

definition loadTask_node ::
  "'d disk_reader \<Rightarrow> (nat \<Rightarrow> u8 list) \<Rightarrow> nat option \<Rightarrow> u8 list list \<Rightarrow> 'd taskman \<Rightarrow> (nat \<times> 'd taskman) option" where
  "loadTask_node R junk nd argv t =
     (case nd of None \<Rightarrow> Some (0, t)
      | Some nd \<Rightarrow>
          let n = find_pid (pList t) 1 in
          if n \<ge> MAXPID then Some (0, t) else do {
            (bytes, f) \<leftarrow> read_program R junk nd (files t);
            load_program n bytes argv (t\<lparr>files := f\<rparr>) })"

definition loadTask ::
  "'d disk_reader \<Rightarrow> (nat \<Rightarrow> u8 list) \<Rightarrow> u8 list \<Rightarrow> u8 list list \<Rightarrow> 'd taskman \<Rightarrow> (nat \<times> 'd taskman) option" where
  "loadTask R junk path argv t = do {
     (nd, f) \<leftarrow> resolve R junk path (files t);
     let t = t\<lparr>files := f\<rparr>;
     if nd = None then Some (0, t) else loadTask_node R junk nd argv t }"

subsection \<open>Switching\<close>

definition switchToTask :: "nat \<Rightarrow> run_mode \<Rightarrow> 'd taskman \<Rightarrow> 'd taskman" where
  "switchToTask n mode t =
     (let p = pList t ! n in
      t\<lparr>current := n, tss_rsp0 := krsp0 p,
        switched := Some (if mode = USERMODE then (n, kss0 p, krsp0 p) else (n, ss (regs p), rsp (regs p)))\<rparr>)"

text \<open>
  The registers the timer interrupt pushed, lowest address first, and the value the local
  \<open>sreg\<close> holds when it is read.
\<close>

definition save_regs :: "u64 list \<Rightarrow> u16 \<Rightarrow> regs \<Rightarrow> regs" where
  "save_regs st sreg r =
     r\<lparr>eflags := st ! 17, cs := ucast (st ! 16), rip := st ! 15, rax := st ! 14, rcx := st ! 13,
       rdx := st ! 12, rbx := st ! 11, rbp := st ! 10, rsi := st ! 9, rdi := st ! 8, r8 := st ! 7,
       r9 := st ! 6, r10 := st ! 5, r11 := st ! 4, r12 := st ! 3, r13 := st ! 2, r14 := st ! 1,
       r15 := st ! 0, ds := sreg, es := sreg, fs := sreg, gs := sreg,
       rsp := st ! 18, ss := (if ucast (st ! 16) \<noteq> (0x08 :: u16) then ucast (st ! 19) else SS_DATA)\<rparr>"

text \<open>\<open>for (i = a; i < b && newpid == 0; i++) if (pList[i].state == 1) newpid = i;\<close>\<close>

fun scan_ready :: "process list \<Rightarrow> nat list \<Rightarrow> nat" where
  "scan_ready ps [] = 0"
| "scan_ready ps (i # is) =
     (let newpid = (if state (ps ! i) = 1 then i else 0) in if newpid = 0 then scan_ready ps is else newpid)"

definition next_pid :: "process list \<Rightarrow> nat \<Rightarrow> nat" where
  "next_pid ps cur =
     (let newpid = scan_ready ps [cur + 1..<MAXPID]
      in if newpid = 0 then scan_ready ps [1..<cur] else newpid)"

definition schedule :: "u64 list \<Rightarrow> u16 \<Rightarrow> 'd taskman \<Rightarrow> 'd taskman" where
  "schedule st sreg t =
     (if \<not> schedulerEnabled t then t
      else if nProc t = 0 then t
      else if nProc t = 1 \<and> pid (pList t ! current t) \<noteq> 0 then t
      else
        let t = upd_proc (current t) (\<lambda>p. (upd_regs (save_regs st sreg) p)\<lparr>kss0 := SS_DATA, krsp0 := tss_rsp0 t\<rparr>) t;
            newpid = next_pid (pList t) (pid (pList t ! current t));
            p = pList t ! newpid
        in switchToTask (pid p) (if cs (regs p) = 0x08 then KERNELMODE else USERMODE) t)"

subsection \<open>\<open>exitTask\<close>\<close>

definition exitTask :: "int \<Rightarrow> 'd taskman \<Rightarrow> 'd taskman option" where
  "exitTask st t =
     (let n = current t; p = pList t ! n in
      if pid p = 0 then None else do {
        let t = upd_proc n (\<lambda>p. p\<lparr>state := -1, status := st\<rparr>) (t\<lparr>nProc := nProc t - 1\<rparr>);
        k \<leftarrow> for_each unmapPage (pageList p) (kframes t);
        let t = upd_proc n (\<lambda>p. p\<lparr>pageList := [], state := 0\<rparr>) t;
        k \<leftarrow> unmapPage (krsp0 p AND 0xFFFFF000) k;
        k \<leftarrow> destroyPageDir (pml4 p) k;
        Some (switchToTask 0 KERNELMODE (t\<lparr>kframes := k\<rparr>)) })"



subsection \<open>The scheduler picks the next ready process\<close>

abbreviation is_ready :: "process list \<Rightarrow> nat \<Rightarrow> bool" where
  "is_ready ps i \<equiv> state (ps ! i) = 1"

text \<open>How far \<open>q\<close> is behind \<open>cur\<close> in the order 1, 2, ..., 63, 1, ...\<close>

definition ring_dist :: "nat \<Rightarrow> nat \<Rightarrow> nat" where
  "ring_dist cur q = (if cur < q then q - cur else q + MAXPID - cur)"

lemma scan_ready_find:
  "0 \<notin> set is \<Longrightarrow> scan_ready ps is = (case find (is_ready ps) is of None \<Rightarrow> 0 | Some i \<Rightarrow> i)"
  by (induction "is") auto

lemma find_append: "find P (xs @ ys) = (case find P xs of None \<Rightarrow> find P ys | Some x \<Rightarrow> Some x)"
  by (induction xs) auto

lemma find_upt_Some:
  "find P [a..<b] = Some i \<longleftrightarrow> a \<le> i \<and> i < b \<and> P i \<and> (\<forall>j. a \<le> j \<and> j < i \<longrightarrow> \<not> P j)"
proof
  assume "find P [a..<b] = Some i"
  then obtain n where n: "n < b - a" "P (a + n)" "i = a + n" "\<And>j. j < n \<Longrightarrow> \<not> P (a + j)"
    unfolding find_Some_iff by auto
  have "\<not> P j" if "a \<le> j" "j < i" for j
    using n(4) [of "j - a"] n(3) that by auto
  then show "a \<le> i \<and> i < b \<and> P i \<and> (\<forall>j. a \<le> j \<and> j < i \<longrightarrow> \<not> P j)"
    using n by auto
next
  assume i: "a \<le> i \<and> i < b \<and> P i \<and> (\<forall>j. a \<le> j \<and> j < i \<longrightarrow> \<not> P j)"
  show "find P [a..<b] = Some i"
    unfolding find_Some_iff by (rule exI [of _ "i - a"]) (use i in auto)
qed

lemma find_upt_None: "find P [a..<b] = None \<longleftrightarrow> (\<forall>j. a \<le> j \<and> j < b \<longrightarrow> \<not> P j)"
  by (auto simp: find_None_iff)

lemma next_pid_cases:
  fixes ps :: "process list" and cur :: nat
  obtains (none) "next_pid ps cur = 0" "\<And>q. 0 < q \<Longrightarrow> q < MAXPID \<Longrightarrow> q \<noteq> cur \<Longrightarrow> \<not> is_ready ps q"
  | (above) "cur < next_pid ps cur" "next_pid ps cur < MAXPID" "is_ready ps (next_pid ps cur)"
      "\<And>q. cur < q \<Longrightarrow> q < next_pid ps cur \<Longrightarrow> \<not> is_ready ps q"
  | (below) "0 < next_pid ps cur" "next_pid ps cur < cur" "is_ready ps (next_pid ps cur)"
      "\<And>q. cur < q \<Longrightarrow> q < MAXPID \<Longrightarrow> \<not> is_ready ps q"
      "\<And>q. 0 < q \<Longrightarrow> q < next_pid ps cur \<Longrightarrow> \<not> is_ready ps q"
proof (cases "find (is_ready ps) [cur + 1..<MAXPID]")
  case (Some i)
  then have i: "cur < i" "i < MAXPID" "is_ready ps i" "\<And>j. cur < j \<Longrightarrow> j < i \<Longrightarrow> \<not> is_ready ps j"
    by (auto simp: find_upt_Some)
  have "next_pid ps cur = i" using Some i(1) by (simp add: next_pid_def scan_ready_find)
  then show thesis using i by (intro above) auto
next
  case None
  note up = None
  show thesis
  proof (cases "find (is_ready ps) [1..<cur]")
    case (Some i)
    then have "next_pid ps cur = i" using up by (simp add: next_pid_def scan_ready_find)
    then show thesis using Some up by (intro below) (auto simp: find_upt_Some find_upt_None)
  next
    case None
    then have "next_pid ps cur = 0" using up by (simp add: next_pid_def scan_ready_find)
    moreover have "\<not> is_ready ps q" if "0 < q" "q < MAXPID" "q \<noteq> cur" for q
      using None up that by (cases "q < cur") (auto simp: find_upt_None)
    ultimately show thesis by (intro none)
  qed
qed

text \<open>
  C34: The scheduler is round-robin: if any other task is ready it picks a ready one, and none that is
  ready comes earlier in the order 1, ..., 63, 1, ... after the current task; otherwise it picks
  the kernel task.
\<close>

theorem next_pid_round_robin:
  assumes "cur < MAXPID"
  shows "if \<exists>q. 0 < q \<and> q < MAXPID \<and> q \<noteq> cur \<and> is_ready ps q
    then is_ready ps (next_pid ps cur) \<and> 0 < next_pid ps cur \<and> next_pid ps cur < MAXPID \<and> next_pid ps cur \<noteq> cur \<and>
      (\<forall>q. 0 < q \<and> q < MAXPID \<and> q \<noteq> cur \<and> is_ready ps q \<longrightarrow> ring_dist cur (next_pid ps cur) \<le> ring_dist cur q)
    else next_pid ps cur = 0"
proof (cases rule: next_pid_cases [of ps cur])
  case none
  then show ?thesis by auto
next
  case above
  have "is_ready ps q \<Longrightarrow> ring_dist cur (next_pid ps cur) \<le> ring_dist cur q" if "q < MAXPID" "0 < q" "q \<noteq> cur" for q
    using above(1,2) above(4) [of q] that by (auto simp: ring_dist_def not_less [symmetric] less_diff_conv split: if_splits)
  then show ?thesis using above by auto
next
  case below
  have "is_ready ps q \<Longrightarrow> ring_dist cur (next_pid ps cur) \<le> ring_dist cur q" if "q < MAXPID" "0 < q" "q \<noteq> cur" for q
    proof -
    assume "is_ready ps q"
    then have "\<not> cur < q" "\<not> q < next_pid ps cur" using below(4,5) [of q] that by auto
    then show "ring_dist cur (next_pid ps cur) \<le> ring_dist cur q" using below(1,2) by (simp add: ring_dist_def)
  qed
  moreover have "next_pid ps cur < MAXPID" using below(2) assms by simp
  ultimately show ?thesis using below by auto
qed



subsection \<open>The task table's invariant\<close>

definition live_pids :: "process list \<Rightarrow> nat set" where
  "live_pids ps = {i. 0 < i \<and> i < MAXPID \<and> state (ps ! i) \<noteq> 0}"

definition tasks_ok :: "'d taskman \<Rightarrow> bool" where
  "tasks_ok t \<longleftrightarrow> length (pList t) = MAXPID + 1 \<and> current t < MAXPID \<and> state (pList t ! current t) \<noteq> 0 \<and>
     pid (pList t ! 0) = 0 \<and> state (pList t ! 0) = 1 \<and>
     (\<forall>i < MAXPID. state (pList t ! i) \<noteq> 0 \<longrightarrow> pid (pList t ! i) = i \<and> state (pList t ! i) = 1)"

text \<open>
  The count of tasks is a 32-bit \<open>int\<close> that wraps: it is the number of live tasks and of at most
  \<open>m\<close> others, that were counted but not loaded.
\<close>

definition count_ok :: "nat \<Rightarrow> 'd taskman \<Rightarrow> bool" where
  "count_ok m t \<longleftrightarrow> (\<exists>l \<le> m. nProc t = of_nat (card (live_pids (pList t)) + l))"

lemma finite_live [simp]: "finite (live_pids ps)"
  by (simp add: live_pids_def)

lemma upd_proc_sel [simp]:
  "length (pList (upd_proc n f t)) = length (pList t)"
  "current (upd_proc n f t) = current t" "nProc (upd_proc n f t) = nProc t"
  "schedulerEnabled (upd_proc n f t) = schedulerEnabled t" "tss_rsp0 (upd_proc n f t) = tss_rsp0 t"
  "kframes (upd_proc n f t) = kframes t" "spaces (upd_proc n f t) = spaces t" "files (upd_proc n f t) = files t"
  by (simp_all add: upd_proc_def)

lemma upd_proc_nth:
  "i < length (pList t) \<Longrightarrow> pList (upd_proc n f t) ! i = (if i = n then f (pList t ! i) else pList t ! i)"
  by (auto simp: upd_proc_def nth_list_update)

lemma live_pids_cong:
  "(\<And>i. i < MAXPID \<Longrightarrow> state (ps ! i) = state (ps' ! i)) \<Longrightarrow> live_pids ps = live_pids ps'"
  by (auto simp: live_pids_def)

lemma tasks_ok_current_pid: "tasks_ok t \<Longrightarrow> pid (pList t ! current t) = current t"
  by (auto simp: tasks_ok_def)

lemma next_pid_ok:
  assumes "tasks_ok t"
  shows "next_pid (pList t) (current t) < MAXPID \<and> is_ready (pList t) (next_pid (pList t) (current t))"
  using assms by (cases rule: next_pid_cases [of "pList t" "current t"]) (auto simp: tasks_ok_def MAXPID_def)

text \<open>The states and pids a switch leaves alone.\<close>

definition same_tasks :: "process list \<Rightarrow> process list \<Rightarrow> bool" where
  "same_tasks ps ps' \<longleftrightarrow> length ps = length ps' \<and>
     (\<forall>i < length ps. state (ps ! i) = state (ps' ! i) \<and> pid (ps ! i) = pid (ps' ! i))"

lemma next_pid_same: "same_tasks ps ps' \<Longrightarrow> length ps = MAXPID + 1 \<Longrightarrow> cur < MAXPID \<Longrightarrow> next_pid ps cur = next_pid ps' cur"
proof -
  assume same: "same_tasks ps ps'" "length ps = MAXPID + 1" "cur < MAXPID"
  have "scan_ready ps is = scan_ready ps' is" if "set is \<subseteq> {..<length ps}" for "is"
    using that same(1) by (induction "is") (auto simp: same_tasks_def)
  then show ?thesis using same(2,3) by (simp add: next_pid_def Let_def subset_eq)
qed

lemma tasks_ok_same:
  assumes "tasks_ok t" "same_tasks (pList t) (pList t')" "current t' < MAXPID" "state (pList t ! current t') \<noteq> 0"
  shows "tasks_ok t'" "live_pids (pList t') = live_pids (pList t)"
proof -
  have len: "length (pList t) = MAXPID + 1" using assms(1) by (simp add: tasks_ok_def)
  show "live_pids (pList t') = live_pids (pList t)"
    by (rule live_pids_cong) (use assms(2) len in \<open>auto simp: same_tasks_def\<close>)
  show "tasks_ok t'" using assms len by (auto simp: tasks_ok_def same_tasks_def)
qed

lemma card_live: "card (live_pids ps) < MAXPID"
proof -
  have "live_pids ps \<subseteq> {0 <..< MAXPID}" by (auto simp: live_pids_def)
  then have "card (live_pids ps) \<le> card {0 <..< MAXPID}" by (intro card_mono) simp_all
  then show ?thesis by (simp add: MAXPID_def)
qed

lemma count_ok_mono: "count_ok m t \<Longrightarrow> m \<le> n \<Longrightarrow> count_ok n t"
  unfolding count_ok_def by (meson order_trans)

lemma count_ok_cong: "nProc t' = nProc t \<Longrightarrow> live_pids (pList t') = live_pids (pList t) \<Longrightarrow> count_ok m t' = count_ok m t"
  by (simp add: count_ok_def)

lemma sint_of_nat_small: "n < 2 ^ 31 \<Longrightarrow> sint (of_nat n :: u32) = int n"
  by (simp add: signed_of_nat signed_take_bit_int_eq_self)

text \<open>Before the sum overflows the count is at least the number of live tasks.\<close>

lemma count_ok_live:
  assumes "count_ok m t" "m + MAXPID \<le> 2 ^ 31"
  shows "int (card (live_pids (pList t))) \<le> sint (nProc t)"
proof -
  obtain l where l: "l \<le> m" "nProc t = of_nat (card (live_pids (pList t)) + l)"
    using assms(1) by (auto simp: count_ok_def)
  have n: "card (live_pids (pList t)) + l < 2 ^ 31"
    using card_live [of "pList t"] l(1) assms(2) by linarith
  have "sint (of_nat (card (live_pids (pList t)) + l) :: u32) = int (card (live_pids (pList t)) + l)"
    using n by (intro sint_of_nat_small)
  then show ?thesis using l(2) by simp
qed

lemma schedule_switch:
  assumes "tasks_ok t" "schedulerEnabled t" "nProc t \<noteq> 0" "nProc t \<noteq> 1 \<or> current t = 0"
  shows "current (schedule st sreg t) = next_pid (pList t) (current t)"
    and "same_tasks (pList t) (pList (schedule st sreg t))"
    and "nProc (schedule st sreg t) = nProc t"
    and "schedulerEnabled (schedule st sreg t)"
proof -
  let ?t = "upd_proc (current t) (\<lambda>p. (upd_regs (save_regs st sreg) p)\<lparr>kss0 := SS_DATA, krsp0 := tss_rsp0 t\<rparr>) t"
  have len: "length (pList t) = MAXPID + 1" using assms(1) by (simp add: tasks_ok_def)
  have cur: "current t < MAXPID" using assms(1) by (simp add: tasks_ok_def)
  have same: "same_tasks (pList t) (pList ?t)"
    by (auto simp: same_tasks_def upd_proc_nth upd_regs_def)
  have p: "pid (pList ?t ! current t) = current t"
    using same tasks_ok_current_pid [OF assms(1)] len cur by (auto simp: same_tasks_def)
  let ?n = "next_pid (pList t) (current t)"
  have "next_pid (pList ?t) (current t) = ?n"
    using next_pid_same [OF same len cur] by simp
  moreover have "pid (pList ?t ! ?n) = ?n"
    using next_pid_ok [OF assms(1)] assms(1) same len by (auto simp: same_tasks_def tasks_ok_def)
  moreover have nokeep: "\<not> (nProc t = 1 \<and> pid (pList t ! current t) \<noteq> 0)"
    using assms(4) tasks_ok_current_pid [OF assms(1)] by auto
  ultimately have sched: "schedule st sreg t =
      switchToTask ?n (if cs (regs (pList ?t ! ?n)) = 0x08 then KERNELMODE else USERMODE) ?t"
    using assms(2,3) p nokeep unfolding schedule_def Let_def by (simp only: if_False if_True simp_thms upd_proc_sel)
  show "current (schedule st sreg t) = ?n" "same_tasks (pList t) (pList (schedule st sreg t))"
    "nProc (schedule st sreg t) = nProc t" "schedulerEnabled (schedule st sreg t)"
    using same assms(2) unfolding sched by (simp_all add: switchToTask_def Let_def)
qed

lemma schedule_ok:
  assumes "tasks_ok t"
  shows "tasks_ok (schedule st sreg t) \<and> count_ok m (schedule st sreg t) = count_ok m t"
proof (cases "schedulerEnabled t \<and> nProc t \<noteq> 0 \<and> (nProc t \<noteq> 1 \<or> current t = 0)")
  case True
  then have c: "schedulerEnabled t" "nProc t \<noteq> 0" "nProc t \<noteq> 1 \<or> current t = 0" by auto
  note sw = schedule_switch [OF assms c, of st sreg]
  have "current (schedule st sreg t) < MAXPID" "state (pList t ! current (schedule st sreg t)) \<noteq> 0"
    using next_pid_ok [OF assms] sw(1) by auto
  note same = tasks_ok_same [OF assms sw(2) this]
  show ?thesis using same(1) count_ok_cong [OF sw(3) same(2)] by blast
next
  case False
  then have "schedule st sreg t = t"
    using tasks_ok_current_pid [OF assms] by (auto simp: schedule_def)
  then show ?thesis using assms by simp
qed



lemma find_pid_spec:
  assumes "n \<le> MAXPID"
  shows "n \<le> find_pid ps n \<and> (\<forall>i. n \<le> i \<and> i < find_pid ps n \<longrightarrow> state (ps ! i) \<noteq> 0) \<and>
    (find_pid ps n \<le> MAXPID \<longrightarrow> state (ps ! find_pid ps n) = 0)"
  using assms
proof (induction ps n rule: find_pid.induct)
  case (1 ps n)
  show ?case
  proof (cases "state (ps ! n) \<noteq> 0 \<and> n < MAXPID")
    case True
    then have "find_pid ps n = find_pid ps (Suc n)" by (subst find_pid.simps) simp
    moreover have "state (ps ! i) \<noteq> 0" if "n \<le> i" "i < find_pid ps (Suc n)" for i
      using 1(1) True that by (cases "i = n") auto
    ultimately show ?thesis using 1(1) True by auto
  next
    case False
    then show ?thesis using 1(2) by (subst (1 2 3 4) find_pid.simps) (auto simp: less_Suc_eq)
  qed
qed

text \<open>
  A new process gets the lowest free pid, and is refused only when all of 1 to 63 are taken.
\<close>

theorem find_pid_lowest:
  "if \<exists>i. 0 < i \<and> i < MAXPID \<and> state (ps ! i) = 0
   then 0 < find_pid ps 1 \<and> find_pid ps 1 < MAXPID \<and> state (ps ! find_pid ps 1) = 0 \<and>
     find_pid ps 1 = (LEAST i. 0 < i \<and> state (ps ! i) = 0)
   else MAXPID \<le> find_pid ps 1"
proof -
  let ?n = "find_pid ps 1"
  have n: "1 \<le> ?n" "\<And>i. 1 \<le> i \<Longrightarrow> i < ?n \<Longrightarrow> state (ps ! i) \<noteq> 0" "?n \<le> MAXPID \<Longrightarrow> state (ps ! ?n) = 0"
    using find_pid_spec [of 1 ps] by (auto simp: MAXPID_def)
  show ?thesis
  proof (cases "\<exists>i. 0 < i \<and> i < MAXPID \<and> state (ps ! i) = 0")
    case True
    then have lt: "?n < MAXPID" using n(2) by (metis One_nat_def Suc_leI linorder_not_less order_le_less_trans)
    moreover have "?n = (LEAST i. 0 < i \<and> state (ps ! i) = 0)"
      by (rule Least_equality [symmetric]) (use n lt in \<open>auto simp: Suc_le_eq not_less [symmetric]\<close>)
    ultimately show ?thesis using True n by auto
  next
    case False
    then show ?thesis using n(1,3) by (auto simp: not_less [symmetric])
  qed
qed


subsection \<open>Loading and ending tasks keep the invariant\<close>

lemma load_program_effect:
  assumes "load_program n bytes argv t = Some (r, t')" "n < length (pList t)"
  shows "current t' = current t \<and> nProc t' = nProc t + 1 \<and> length (pList t') = length (pList t) \<and>
    (\<forall>i < length (pList t). i \<noteq> n \<longrightarrow> pList t' ! i = pList t ! i) \<and> pid (pList t' ! n) = n \<and>
    (r = 0 \<and> state (pList t' ! n) = state (pList t ! n) \<or> r = n \<and> state (pList t' ! n) = 1)"
  using assms
  by (auto simp: load_program_def Let_def upd_proc_def start_process_def nth_list_update
      split: Option.bind_splits if_splits)

lemma live_pids_insert:
  assumes "0 < n" "n < MAXPID" "\<And>i. i < MAXPID \<Longrightarrow> i \<noteq> n \<Longrightarrow> state (ps' ! i) = state (ps ! i)" "state (ps' ! n) \<noteq> 0"
  shows "live_pids ps' = insert n (live_pids ps)"
  using assms by (auto simp: live_pids_def) metis

lemma live_pids_remove:
  assumes "\<And>i. i < MAXPID \<Longrightarrow> i \<noteq> n \<Longrightarrow> state (ps' ! i) = state (ps ! i)" "state (ps' ! n) = 0"
  shows "live_pids ps' = live_pids ps - {n}"
  using assms by (auto simp: live_pids_def) metis

lemma load_program_ok:
  assumes "tasks_ok t" "load_program n bytes argv t = Some (r, t')" "0 < n" "n < MAXPID" "state (pList t ! n) = 0"
  shows "tasks_ok t'" "count_ok m t \<Longrightarrow> count_ok (m + of_bool (r = 0)) t'"
proof -
  have len: "length (pList t) = MAXPID + 1" using assms(1) by (simp add: tasks_ok_def)
  then have n: "n < length (pList t)" using assms(4) by simp
  note e = load_program_effect [OF assms(2) n]
  have st: "state (pList t' ! i) = state (pList t ! i)" if "i < MAXPID" "i \<noteq> n" for i
    using e that len by auto
  show "count_ok (m + of_bool (r = 0)) t'" if count: "count_ok m t"
  proof -
    obtain l where l: "l \<le> m" "nProc t = of_nat (card (live_pids (pList t)) + l)" using count by (auto simp: count_ok_def)
    have eff: "nProc t' = nProc t + 1" "r = 0 \<and> state (pList t' ! n) = 0 \<or> r = n \<and> state (pList t' ! n) = 1"
      using e assms(5) by auto
    show ?thesis
    proof (cases "r = 0")
      case True
      then have "state (pList t' ! n) = state (pList t ! n)" using eff(2) assms(3,5) by simp
      then have "live_pids (pList t') = live_pids (pList t)"
        using st by (intro live_pids_cong) metis
      then have "nProc t' = of_nat (card (live_pids (pList t')) + Suc l)" using eff(1) l(2) by simp
      then show ?thesis using l(1) True unfolding count_ok_def by (intro exI [of _ "Suc l"]) simp
    next
      case False
      then have "live_pids (pList t') = insert n (live_pids (pList t))"
        using st assms(3,4) eff(2) by (intro live_pids_insert) auto
      moreover have "n \<notin> live_pids (pList t)" using assms(5) by (simp add: live_pids_def)
      ultimately have "nProc t' = of_nat (card (live_pids (pList t')) + l)" using eff(1) l(2) by simp
      then show ?thesis using l(1) unfolding count_ok_def by (intro exI [of _ l]) simp
    qed
  qed
  have cur: "current t \<noteq> n" using assms(1,5) by (auto simp: tasks_ok_def)
  have others: "pList t' ! i = pList t ! i" if "i < MAXPID" "i \<noteq> n" for i
    using e that len by simp
  have "pid (pList t' ! i) = i \<and> state (pList t' ! i) = 1" if "i < MAXPID" "state (pList t' ! i) \<noteq> 0" for i
    using others [OF that(1)] e that assms(1,5) by (cases "i = n") (auto simp: tasks_ok_def)
  moreover have "pList t' ! 0 = pList t ! 0" "pList t' ! current t = pList t ! current t"
    using others [of 0] others [of "current t"] assms(1,3) cur by (auto simp: tasks_ok_def MAXPID_def)
  ultimately show "tasks_ok t'"
    using assms(1) e len by (simp add: tasks_ok_def)
qed

lemma tasks_ok_frame [simp]:
  "tasks_ok (t\<lparr>files := f\<rparr>) = tasks_ok t" "tasks_ok (t\<lparr>kframes := k\<rparr>) = tasks_ok t"
  "tasks_ok (t\<lparr>spaces := sp\<rparr>) = tasks_ok t" "tasks_ok (t\<lparr>schedulerEnabled := b\<rparr>) = tasks_ok t"
  by (simp_all add: tasks_ok_def)

lemma count_ok_frame [simp]:
  "count_ok m (t\<lparr>files := f\<rparr>) = count_ok m t" "count_ok m (t\<lparr>kframes := k\<rparr>) = count_ok m t"
  "count_ok m (t\<lparr>spaces := sp\<rparr>) = count_ok m t" "count_ok m (t\<lparr>schedulerEnabled := b\<rparr>) = count_ok m t"
  by (simp_all add: count_ok_def)

text \<open>
  What an operation that loads may do to the table: it stays consistent, and the count is at most
  one more off, when the operation failed.
\<close>

definition table_kept :: "nat \<Rightarrow> 'd taskman \<Rightarrow> 'd taskman \<Rightarrow> bool" where
  "table_kept d t t' \<longleftrightarrow> tasks_ok t \<longrightarrow> tasks_ok t' \<and> (\<forall>m. count_ok m t \<longrightarrow> count_ok (m + d) t')"

lemma table_kept_refl [simp]: "table_kept d t t"
  by (auto simp: table_kept_def elim: count_ok_mono)

lemma table_kept_mono: "table_kept d t t' \<Longrightarrow> d \<le> e \<Longrightarrow> table_kept e t t'"
  by (auto simp: table_kept_def elim!: count_ok_mono)

lemma table_kept_frame [simp]:
  "table_kept d (t\<lparr>files := f\<rparr>) t' = table_kept d t t'" "table_kept d t (t'\<lparr>files := f\<rparr>) = table_kept d t t'"
  "table_kept d t (t'\<lparr>kframes := k\<rparr>) = table_kept d t t'" "table_kept d t (t'\<lparr>spaces := sp\<rparr>) = table_kept d t t'"
  "table_kept d t (t'\<lparr>schedulerEnabled := b\<rparr>) = table_kept d t t'"
  by (simp_all add: table_kept_def)

lemma loadTask_node_kept:
  assumes "loadTask_node R junk nd argv t = Some (r, t')"
  shows "table_kept (of_bool (r = 0)) t t'"
proof (cases "nd = None \<or> find_pid (pList t) 1 \<ge> MAXPID")
  case True
  then show ?thesis using assms by (auto simp: loadTask_node_def Let_def split: option.splits)
next
  case False
  then obtain bytes f where l: "load_program (find_pid (pList t) 1) bytes argv (t\<lparr>files := f\<rparr>) = Some (r, t')"
    using assms by (auto simp: loadTask_node_def Let_def split: Option.bind_splits)
  have "0 < find_pid (pList t) 1" "find_pid (pList t) 1 < MAXPID" "state (pList t ! find_pid (pList t) 1) = 0"
    using find_pid_spec [of 1 "pList t"] False by (auto simp: MAXPID_def)
  then show ?thesis using load_program_ok [OF _ l] by (simp add: table_kept_def)
qed

lemma loadTask_kept: "loadTask R junk path argv t = Some (r, t') \<Longrightarrow> table_kept (of_bool (r = 0)) t t'"
  by (auto simp: loadTask_def Let_def split: Option.bind_splits if_splits dest!: loadTask_node_kept)


lemma exitTask_kept:
  assumes "exitTask st t = Some t'"
  shows "table_kept 0 t t'"
  unfolding table_kept_def
proof (intro impI)
  let ?n = "current t"
  assume ok: "tasks_ok t"
  then have len: "length (pList t) = MAXPID + 1" and n: "?n < MAXPID" and live: "state (pList t ! ?n) \<noteq> 0"
    by (simp_all add: tasks_ok_def)
  have n0: "?n \<noteq> 0"
    using assms tasks_ok_current_pid [OF ok] by (auto simp: exitTask_def Let_def split: if_splits)
  have e: "length (pList t') = length (pList t)" "current t' = 0" "nProc t' = nProc t - 1"
    "\<And>i. i < length (pList t) \<Longrightarrow> i \<noteq> ?n \<Longrightarrow> pList t' ! i = pList t ! i" "state (pList t' ! ?n) = 0"
    using assms n len
    by (auto simp: exitTask_def Let_def upd_proc_def switchToTask_def nth_list_update
        split: Option.bind_splits if_splits)
  have gone: "live_pids (pList t') = live_pids (pList t) - {?n}" "?n \<in> live_pids (pList t)"
    using e(4,5) len n n0 live live_pids_remove [of ?n "pList t'" "pList t"] by (simp_all add: live_pids_def)
  have "count_ok m t'" if "count_ok m t" for m
  proof -
    have "of_nat (card (live_pids (pList t)) + l) - 1 = (of_nat (card (live_pids (pList t')) + l) :: u32)" for l
      using card_Suc_Diff1 [OF finite_live gone(2)] gone(1) by (metis add_Suc add_diff_cancel_left' of_nat_Suc)
    then show ?thesis using that e(3) by (auto simp: count_ok_def)
  qed
  moreover have "pid (pList t' ! i) = i \<and> state (pList t' ! i) = 1" if "i < MAXPID" "state (pList t' ! i) \<noteq> 0" for i
  proof -
    have "i \<noteq> ?n" using that(2) e(5) by auto
    then have "pList t' ! i = pList t ! i" using e(4) that(1) len by simp
    then show ?thesis using that ok by (simp add: tasks_ok_def)
  qed
  moreover have "pList t' ! 0 = pList t ! 0" using e(4) [of 0] n0 len by simp
  ultimately show "tasks_ok t' \<and> (\<forall>m. count_ok m t \<longrightarrow> count_ok (m + 0) t')"
    using ok e(1,2) len by (simp add: tasks_ok_def MAXPID_def)
qed

lemma task_init_nth:
  "i < MAXPID + 1 \<Longrightarrow> state (pList (task_init junk kernel_ss t) ! i) = (if i = 0 then 1 else 0)"
  "pid (pList (task_init junk kernel_ss t) ! 0) = 0"
  by (simp_all add: task_init_def upd_proc_nth process_ctor_def)

lemma task_init_sel [simp]:
  "length (pList (task_init junk kernel_ss t)) = MAXPID + 1" "current (task_init junk kernel_ss t) = 0"
  "nProc (task_init junk kernel_ss t) = 0"
  by (simp_all add: task_init_def)

lemma task_init_ok: "tasks_ok (task_init junk kernel_ss t)" "count_ok m (task_init junk kernel_ss t)"
proof -
  have "live_pids (pList (task_init junk kernel_ss t)) = {}"
    by (auto simp: live_pids_def task_init_nth)
  then show "tasks_ok (task_init junk kernel_ss t)" "count_ok m (task_init junk kernel_ss t)"
    by (auto simp: tasks_ok_def count_ok_def task_init_nth MAXPID_def)
qed

text \<open>A step of the task manager; the number is 1 for a load that fails, 0 for every other step.\<close>

inductive task_step :: "'d disk_reader \<Rightarrow> (nat \<Rightarrow> u8 list) \<Rightarrow> nat \<Rightarrow> 'd taskman \<Rightarrow> 'd taskman \<Rightarrow> bool"
  for R junk where
  tick: "task_step R junk 0 t (schedule st sreg t)"
| load: "loadTask R junk path argv t = Some (r, t') \<Longrightarrow> task_step R junk (of_bool (r = 0)) t t'"
| exit: "exitTask st t = Some t' \<Longrightarrow> task_step R junk 0 t t'"
| disable: "task_step R junk 0 t (disableScheduler t)"
| enable: "task_step R junk 0 t (enableScheduler t)"

text \<open>Any number of steps, \<open>m\<close> of them failed loads.\<close>

inductive task_run :: "'d disk_reader \<Rightarrow> (nat \<Rightarrow> u8 list) \<Rightarrow> nat \<Rightarrow> 'd taskman \<Rightarrow> 'd taskman \<Rightarrow> bool"
  for R junk where
  no_step: "task_run R junk 0 t t"
| one_more: "task_run R junk m t t' \<Longrightarrow> task_step R junk d t' t'' \<Longrightarrow> task_run R junk (m + d) t t''"

lemma task_step_kept: "task_step R junk d t t' \<Longrightarrow> table_kept d t t'"
proof (induction rule: task_step.induct)
  case (tick t st sreg)
  then show ?case by (simp add: table_kept_def schedule_ok)
qed (simp_all add: loadTask_kept exitTask_kept disableScheduler_def enableScheduler_def)

lemma task_run_kept: "task_run R junk m t t' \<Longrightarrow> table_kept m t t'"
  by (induction rule: task_run.induct) (auto simp: table_kept_def add.assoc [symmetric] dest!: task_step_kept)

text \<open>
  C13: In every state the task manager can reach from its initialisation by timer ticks, loading and
  ending tasks and switching the scheduler on and off, the table is consistent: the current task
  is live, every live task sits at its pid and is ready, the kernel task is ready.  The 32-bit
  count of tasks is the number of live ones plus at most one for each load that failed, modulo
  \<open>2 ^ 32\<close>; so it is exact while no load has failed, and the live tasks are at most as many as are
  counted until \<open>2 ^ 31 - 64\<close> loads have.
\<close>

theorem task_table_invariant:
  assumes "task_run R junk m (task_init jk kernel_ss t0) t"
  shows "tasks_ok t \<and> (\<exists>l. l \<le> m \<and> nProc t = of_nat (card (live_pids (pList t)) + l)) \<and>
    (m + MAXPID \<le> 2 ^ 31 \<longrightarrow> int (card (live_pids (pList t))) \<le> sint (nProc t))"
proof -
  have "tasks_ok t" "count_ok m t"
    using task_run_kept [OF assms] task_init_ok(1) [where junk = jk and kernel_ss = kernel_ss and t = t0] task_init_ok(2) [where m = 0 and junk = jk and kernel_ss = kernel_ss and t = t0]
    by (auto simp: table_kept_def)
  then show ?thesis using count_ok_live by (auto simp: count_ok_def)
qed



definition demo_regs :: regs where
  "demo_regs = \<lparr>rax = 0, rcx = 0, rdx = 0, rbx = 0, rsp = 0, rbp = 0, rsi = 0, rdi = 0, r8 = 0, r9 = 0,
     r10 = 0, r11 = 0, r12 = 0, r13 = 0, r14 = 0, r15 = 0, rip = 0, eflags = 0, cs = 0, ss = 0, ds = 0,
     es = 0, fs = 0, gs = 0, cr3 = 0\<rparr>"

definition demo_process :: "nat \<Rightarrow> int \<Rightarrow> process" where
  "demo_process i st = \<lparr>regs = demo_regs, krsp0 = 0, kss0 = 0, pid = i, pml4 = 0, pageList = [],
     zones = \<lparr>bExec = 0, eExec = 0, bBss = 0, eBss = 0\<rparr>, bHeap = 0, eHeap = 0, parent = 0, state = st, status = 0\<rparr>"

text \<open>A table in which the kernel and the tasks 1 and 3 are ready.\<close>

definition demo_tasks :: "unit taskman" where
  "demo_tasks = \<lparr>pList = map (\<lambda>i. demo_process i (if i = 0 \<or> i = 1 \<or> i = 3 then 1 else 0)) [0..<65],
     current = 1, nProc = 2, schedulerEnabled = True, tss_rsp0 = 0, kframes = boot_kmem, spaces = (\<lambda>_ _. 0),
     files = \<lparr>vfs = vfs_init Base, fsdev = ()\<rparr>, switched = None\<rparr>"

lemma demo_nth:
  "i < 65 \<Longrightarrow> pList demo_tasks ! i = demo_process i (if i = 0 \<or> i = 1 \<or> i = 3 then 1 else 0)"
  by (simp add: demo_tasks_def del: upt_Suc)

lemma demo_sel [simp]: "length (pList demo_tasks) = 65" "current demo_tasks = 1" "nProc demo_tasks = 2"
  "schedulerEnabled demo_tasks" "kframes demo_tasks = boot_kmem"
  by (simp_all add: demo_tasks_def)





theorem next_pid_round_robin_witness:
  "0 < next_pid (pList demo_tasks) 3 \<and> next_pid (pList demo_tasks) 3 < 64 \<and> next_pid (pList demo_tasks) 3 \<noteq> 3"
proof -
  have "\<exists>q. 0 < q \<and> q < MAXPID \<and> q \<noteq> 3 \<and> is_ready (pList demo_tasks) q"
    by (intro exI [of _ 1]) (simp add: MAXPID_def demo_nth demo_process_def)
  then show ?thesis
    using next_pid_round_robin [of 3 "pList demo_tasks"] by (simp add: MAXPID_def)
qed


theorem task_table_invariant_witness:
  "tasks_ok (schedule [] 0 (task_init (demo_process 7 5) 0x10 demo_tasks))"
proof -
  let ?t = "task_init (demo_process 7 5) 0x10 demo_tasks"
  have "task_run (\<lambda>_ _ _ b d. Some (0, b, d)) (\<lambda>n. replicate n 0) (0 + 0) ?t (schedule [] 0 ?t)"
    by (rule task_run.one_more [OF task_run.no_step task_step.tick])
  then show ?thesis using task_table_invariant by blast
qed


end
