(* ===== verification/Multiboot.thy ===== *)
theory Multiboot
  imports PageSpace Ata
begin

section \<open>What the boot loader reports: \<open>src/kernel/multiboot.cpp\<close>\<close>

text \<open>
  The information block is a record of the fields the kernel reads; the memory map is read from
  memory with the layout the compiler gives \<open>struct mmap\<close> in 64-bit code: \<open>size\<close> at 0,
  \<open>base_addr\<close> at 8, \<open>length\<close> at 16 and \<open>type\<close> at 24.  The printed report is left out.
\<close>

record multiboot_info =
  flags :: u32
  low_mem :: u32
  high_mem :: u32
  mmap_length :: u32
  mmap_addr :: u32

definition rd32 :: "mem \<Rightarrow> u64 \<Rightarrow> u32" where
  "rd32 m a = le_word (rd m a 4)"

definition mmap_size :: "mem \<Rightarrow> u64 \<Rightarrow> u32" where "mmap_size m cur = rd32 m cur"
definition mmap_base_addr :: "mem \<Rightarrow> u64 \<Rightarrow> u64" where "mmap_base_addr m cur = rd64 m (cur + 8)"
definition mmap_len :: "mem \<Rightarrow> u64 \<Rightarrow> u64" where "mmap_len m cur = rd64 m (cur + 16)"
definition mmap_type :: "mem \<Rightarrow> u64 \<Rightarrow> u32" where "mmap_type m cur = rd32 m (cur + 24)"

text \<open>\<open>None\<close> is a halt.\<close>

definition checkMultiboot :: "u32 \<Rightarrow> multiboot_info \<Rightarrow> unit option" where
  "checkMultiboot mbmagic mbi =
     (if mbmagic \<noteq> 0x2BADB002 then None
      else if drop_bit 4 (flags mbi) AND 0b1 \<noteq> 0 \<and> drop_bit 4 (flags mbi) AND 0b10 \<noteq> 0 then None
      else Some ())"

text \<open>The inner loop; its counter has 32 bits, so on a region of 4 GiB it starts over.\<close>

partial_function (option) reserve_region :: "u64 \<Rightarrow> u64 \<Rightarrow> u32 \<Rightarrow> u32 \<Rightarrow> kmem \<Rightarrow> kmem option" where
  "reserve_region base len maxPages i k =
     (if \<not> ucast i < len then Some k
      else if (base + ucast i) div PAGESIZE < ucast maxPages then
        reserve_region base len maxPages (i + ucast PAGESIZE)
          (markPhysPageUsed (ucast ((base + ucast i) div PAGESIZE)) k)
      else Some k)"

text \<open>The walk over the map; marking pages does not change the bytes it reads.\<close>

partial_function (option) reserve_entries :: "mem \<Rightarrow> u32 \<Rightarrow> u64 \<Rightarrow> u64 \<Rightarrow> kmem \<Rightarrow> kmem option" where
  "reserve_entries m maxPages cur end_addr k =
     (if \<not> cur < end_addr then Some k else do {
        k \<leftarrow> (if mmap_type m cur \<noteq> 1 then reserve_region (mmap_base_addr m cur) (mmap_len m cur) maxPages 0 k
             else Some k);
        reserve_entries m maxPages (cur + ucast (mmap_size m cur) + 4) end_addr k })"

definition reserveMbiMemmap :: "mem \<Rightarrow> multiboot_info \<Rightarrow> kmem \<Rightarrow> (bool \<times> kmem) option" where
  "reserveMbiMemmap m mbi k =
     (if flags mbi AND 0b01000000 = 0 then Some (False, k) else do {
        k \<leftarrow> reserve_entries m (getMaxPhysPages k) (ucast (mmap_addr mbi))
               (ucast (mmap_addr mbi) + ucast (mmap_length mbi)) k;
        Some (True, k) })"

text \<open>The sum and the product are computed with 32 bits.\<close>

definition getAvailableMem :: "multiboot_info \<Rightarrow> u64" where
  "getAvailableMem mbi = (if flags mbi AND 1 = 0 then 0 else ucast ((low_mem mbi + high_mem mbi) * 1000))"


subsection \<open>The memory map is not read the way the boot loader writes it\<close>

text \<open>
  One entry of the map in the Multiboot specification: the fields follow each other without
  padding, 24 bytes in all, and \<open>size\<close> does not count itself.
\<close>

definition map_entry :: "u64 \<times> u64 \<times> u32 \<Rightarrow> u8 list" where
  "map_entry = (\<lambda>(base, len, ty). le_bytes 4 (20 :: u32) @ le_bytes 8 base @ le_bytes 8 len @ le_bytes 4 ty)"

lemma length_map_entry [simp]: "length (map_entry e) = 24"
  by (simp add: map_entry_def split: prod.splits)

lemma entry_size:
  assumes "rd m cur 24 = map_entry e"
  shows "mmap_size m cur = 20"
proof -
  obtain base len ty where e: "e = (base, len, ty)" by (cases e) auto
  have "rd m cur 4 = le_bytes 4 (20 :: u32)"
    using rd_slice [of 0 4 24 m cur] assms by (simp add: e map_entry_def)
  then show ?thesis by (simp add: mmap_size_def rd32_def le_word_le_bytes_full)
qed

lemma entry_base:
  assumes "rd m cur 24 = map_entry (base, len, ty)"
  shows "drop_bit 32 (mmap_base_addr m cur) = take_bit 32 len"
proof -
  have "map_entry (base, len, ty) = (le_bytes 4 (20 :: u32) @ le_bytes 4 base) @
      (le_bytes 4 (drop_bit 32 base) @ le_bytes 4 len) @ le_bytes 4 (drop_bit 32 len) @ le_bytes 4 ty"
    using le_bytes_append [of 4 4 base] le_bytes_append [of 4 4 len] by (simp add: map_entry_def)
  then have "rd m (cur + of_nat 8) 8 = le_bytes 4 (drop_bit 32 base) @ le_bytes 4 len"
    using rd_slice [of 8 8 24 m cur] assms by simp
  then have "mmap_base_addr m cur = le_word (le_bytes 4 (drop_bit 32 base) @ le_bytes 4 len)"
    by (simp add: mmap_base_addr_def rd64_def)
  also have "\<dots> = take_bit 32 (drop_bit 32 base) OR push_bit 32 (take_bit 32 len)"
    by (simp add: le_word_append le_word_le_bytes)
  finally show ?thesis
    by (auto intro!: bit_eqI simp: bit_drop_bit_eq bit_or_iff bit_push_bit_iff bit_take_bit_iff dest: bit_imp_le_length)
qed

lemma region_ignored:
  assumes "drop_bit 32 base \<noteq> 0" "unat maxPages \<le> 2 ^ 20"
  shows "reserve_region base len maxPages 0 k = Some k"
proof -
  have "unat base div 2 ^ 32 \<noteq> 0"
    using assms(1) by (metis drop_bit_eq_div unat_0_iff unat_drop_bit_eq)
  then have "2 ^ 32 \<le> unat base" by (simp add: div_eq_0_iff)
  then have "2 ^ 20 \<le> unat base div 4096" by simp
  then have "\<not> base div PAGESIZE < ucast maxPages"
    using assms(2) by (simp add: word_less_nat_alt PAGESIZE_def unat_div)
  then show ?thesis by (subst reserve_region.simps) simp
qed

text \<open>
  C39: On a memory map laid out as the Multiboot specification says, no region whose length is not
  a multiple of 4 GiB is ever reserved, whatever its type: \<open>reserveMbiMemmap\<close> reports success and
  marks no page.
\<close>

theorem memory_map_ignored:
  assumes "flags mbi AND 0b01000000 \<noteq> 0" "unat (mmap_length mbi) = 24 * length es"
    and "rd m (ucast (mmap_addr mbi)) (24 * length es) = concat (map map_entry es)"
    and "\<forall>(base, len, ty) \<in> set es. take_bit 32 len \<noteq> 0" "unat (maxPhysPages k) \<le> 2 ^ 20"
  shows "reserveMbiMemmap m mbi k = Some (True, k)"
proof -
  let ?stop = "ucast (mmap_addr mbi) + ucast (mmap_length mbi) :: u64"
  have "reserve_entries m (maxPhysPages k) cur (cur + of_nat (24 * length es)) k = Some k"
    if "rd m cur (24 * length es) = concat (map map_entry es)" "unat cur + 24 * length es < 2 ^ 64"
      "\<forall>(base, len, ty) \<in> set es. take_bit 32 len \<noteq> 0" for cur es
    using that
  proof (induction es arbitrary: cur)
    case Nil
    show ?case by (subst reserve_entries.simps) simp
  next
    case (Cons e es)
    obtain base len ty where e: "e = (base, len, ty)" by (cases e) auto
    have split: "rd m cur 24 = map_entry e" "rd m (cur + of_nat 24) (24 * length es) = concat (map map_entry es)"
      using Cons.prems(1) rd_append [of m cur 24 "24 * length es"] by simp_all
    have "drop_bit 32 (mmap_base_addr m cur) \<noteq> 0"
      using entry_base [of m cur base len ty] split(1) Cons.prems(3) by (simp add: e)
    note ign = region_ignored [OF this assms(5)]
    have lt: "cur < cur + of_nat (24 * length (e # es))"
      using Cons.prems(2) by (simp add: word_less_nat_alt unat_word_ariths unat_of_nat take_bit_nat_eq_self del: of_nat_mult of_nat_add)
    have next_cur: "cur + ucast (mmap_size m cur) + 4 = cur + of_nat 24"
      using entry_size [OF split(1)] by simp
    have "unat (cur + of_nat 24) = unat cur + 24" using Cons.prems(2) by (simp add: unat_word_ariths)
    then have IH: "reserve_entries m (maxPhysPages k) (cur + of_nat 24) (cur + of_nat 24 + of_nat (24 * length es)) k = Some k"
      using Cons.IH [of "cur + of_nat 24"] split(2) Cons.prems(2,3) by simp
    show ?case
      using lt ign IH next_cur by (subst reserve_entries.simps) (simp add: algebra_simps)
  qed
  from this [OF assms(3) _ assms(4)]
  have "reserve_entries m (maxPhysPages k) (ucast (mmap_addr mbi)) (ucast (mmap_addr mbi) + of_nat (24 * length es)) k = Some k"
    using assms(2) unsigned_less [of "mmap_addr mbi", where 'a = nat] unsigned_less [of "mmap_length mbi", where 'a = nat] by simp
  moreover have "ucast (mmap_length mbi) = (of_nat (24 * length es) :: u64)"
    by (simp add: word_unat_eq_iff flip: assms(2))
  ultimately show ?thesis
    using assms(1) by (simp add: reserveMbiMemmap_def getMaxPhysPages_def)
qed

text \<open>
  The size of memory is computed with 32 bits: it is right below 4 GB and wraps beyond.
\<close>

theorem available_mem_wraps:
  assumes "flags mbi AND 1 \<noteq> 0"
  shows "unat (getAvailableMem mbi) = (unat (low_mem mbi) + unat (high_mem mbi)) * 1000 mod 2 ^ 32"
  using assms by (simp add: getAvailableMem_def unat_word_ariths mod_mult_left_eq mod_mult_right_eq mod_add_eq)

theorem available_mem_wraps_witness:
  "unat (getAvailableMem \<lparr>flags = 0x41, low_mem = 640, high_mem = 5000000, mmap_length = 0, mmap_addr = 0\<rparr>) = 705672704"
  using available_mem_wraps [of "\<lparr>flags = 0x41, low_mem = 640, high_mem = 5000000, mmap_length = 0, mmap_addr = 0\<rparr>"]
  by simp


theorem memory_map_ignored_witness:
  "reserveMbiMemmap (wr (\<lambda>_. 0) 0x9000 (concat (map map_entry [(0, 0x9FC00, 1), (0x9FC00, 0x400, 2)])))
     \<lparr>flags = 0x41, low_mem = 639, high_mem = 64512, mmap_length = 48, mmap_addr = 0x9000\<rparr> boot_kmem = Some (True, boot_kmem)"
proof (rule memory_map_ignored)
  have "rd (wr (\<lambda>_. 0) 0x9000 bs) 0x9000 48 = bs" if "length bs = 48" for bs
    using rd_wr_same [of bs "\<lambda>_. 0" "0x9000"] that by simp
  then show "rd (wr (\<lambda>_. 0) 0x9000 (concat (map map_entry [(0, 0x9FC00, 1), (0x9FC00, 0x400, 2)])))
      (ucast (mmap_addr \<lparr>flags = 0x41, low_mem = 639, high_mem = 64512, mmap_length = 48, mmap_addr = 0x9000\<rparr>))
      (24 * length [(0 :: u64, 0x9FC00 :: u64, 1 :: u32), (0x9FC00, 0x400, 2)]) =
      concat (map map_entry [(0, 0x9FC00, 1), (0x9FC00, 0x400, 2)])"
    by simp
  show "\<forall>(base, len, ty) \<in> set [(0 :: u64, 0x9FC00 :: u64, 1 :: u32), (0x9FC00, 0x400, 2)]. take_bit 32 len \<noteq> 0"
    by simp
qed (simp_all add: boot_kmem_def)

end
