(* ===== verification/Output.thy ===== *)
theory Output
  imports VgaText HumanReadable
begin

section \<open>Errors, the debug port and statistics: \<open>error.cpp\<close>, \<open>debug.h\<close>, \<open>printStats\<close>\<close>

text \<open>
  \<open>error\<close> with and without a format, \<open>logE9\<close>, and both \<open>printStats\<close>, over the screen.  A local
  buffer is an address, \<open>buf\<close>; text in it is a pointer argument of \<open>printf\<close>.
\<close>

definition say :: "'p pager_ops \<Rightarrow> string \<Rightarrow> u64 list \<Rightarrow> 'p vga \<Rightarrow> 'p vga option" where
  "say P fmt args s = printf P (map of_char fmt @ [10]) args s"

definition say_if :: "bool \<Rightarrow> 'p pager_ops \<Rightarrow> string \<Rightarrow> u64 list \<Rightarrow> 'p vga \<Rightarrow> 'p vga option" where
  "say_if b P fmt args s = (if b then say P fmt args s else Some s)"

definition size_arg :: "u64 \<Rightarrow> u32 \<Rightarrow> u64 \<Rightarrow> 'p vga \<Rightarrow> u64 \<times> 'p vga" where
  "size_arg buf n sz s = (let (m, p) = toIEC (vmem s) buf n sz in (p, vupd (\<lambda>_. m) s))"

subsection \<open>\<open>error.cpp\<close> and \<open>error.h\<close>\<close>

text \<open>
  Red text, with the log switched off while the allocator is busy.  Switching it off allocates
  nothing, so the return address a record would hold is not read and is 0 here.
\<close>

definition error_begin :: "'p pager_ops \<Rightarrow> 'p vga \<Rightarrow> 'p vga option" where
  "error_begin P s =
     (let s = setCurStyle 4 False 0 False s in
      if \<not> isMallocReady (vheap s) \<and> isLogEnabled s then do {
        s \<leftarrow> enableLog P 0 False s;
        print P (map of_char ''error: malloc isn't ready. VGAText log forcibly disabled.'' @ [10]) s }
      else Some s)"

definition error_screen :: "'p pager_ops \<Rightarrow> u8 list \<Rightarrow> 'p vga \<Rightarrow> 'p vga option" where
  "error_screen P msg s = do {
     s \<leftarrow> error_begin P s;
     s \<leftarrow> print P msg s;
     Some (setCurStyle 7 False 0 False s) }"

definition error_format :: "'p pager_ops \<Rightarrow> u8 list \<Rightarrow> u64 list \<Rightarrow> 'p vga \<Rightarrow> 'p vga option" where
  "error_format P fmt args s = do {
     s \<leftarrow> error_begin P s;
     s \<leftarrow> printf P fmt args s;
     Some (setCurStyle 7 False 0 False s) }"

subsection \<open>\<open>logE9\<close>\<close>

text \<open>The bytes that go to port \<open>0xE9\<close>; a format that ends in \<open>%\<close> is read past its end.\<close>

definition e9_directive :: "mem \<Rightarrow> u8 \<Rightarrow> u64 \<Rightarrow> u8 list option" where
  "e9_directive m f v =
     (if f = of_char CHR ''d'' then itoa_text v 10
      else if f = of_char CHR ''x'' then itoa_text v 16
      else if f = of_char CHR ''p'' then do { t \<leftarrow> utoa_text v 16; Some (of_char CHR ''0'' # of_char CHR ''x'' # t) }
      else if f = of_char CHR ''b'' then itoa_text v 2
      else if f = of_char CHR ''c'' then Some [ucast v]
      else if f = of_char CHR ''s'' then cstring_at m v
      else Some [])"

fun logE9 :: "mem \<Rightarrow> u8 list \<Rightarrow> u64 list \<Rightarrow> u8 list option" where
  "logE9 m fmt [] = Some fmt"
| "logE9 m [] (v # args) = Some []"
| "logE9 m (f # fmt) (v # args) =
     (if f = of_char CHR ''%'' then
        (case fmt of [] \<Rightarrow> None
         | d # fmt' \<Rightarrow> do { t \<leftarrow> e9_directive m d v; ts \<leftarrow> logE9 m fmt' args; Some (t @ ts) })
      else do { ts \<leftarrow> logE9 m fmt (v # args); Some (f # ts) })"

definition log_e9 :: "u8 list \<Rightarrow> u64 list \<Rightarrow> 'p vga \<Rightarrow> 'p vga option" where
  "log_e9 fmt args s = do { bs \<leftarrow> logE9 (vmem s) fmt args; Some (fold (outb 0xE9) bs s) }"

subsection \<open>\<open>Paging::printStats\<close> and \<open>Malloc::printStats\<close>\<close>

definition paging_stats :: "'p pager_ops \<Rightarrow> u64 \<Rightarrow> u64 \<Rightarrow> u32 \<Rightarrow> 'p vga \<Rightarrow> 'p vga option" where
  "paging_stats P buf mapped maxPages s =
     (let rest = ucast maxPages - mapped;
          (free_text, s) = size_arg (buf + 32) 32 (rest * PAGESIZE) s;
          (used_text, s) = size_arg buf 32 (mapped * PAGESIZE) s
      in say P ''Paging: %p pages mapped (%s), %p pages free (%s)'' [mapped, used_text, rest, free_text] s)"

definition malloc_stats :: "'p pager_ops \<Rightarrow> u64 \<Rightarrow> 'p vga \<Rightarrow> 'p vga option" where
  "malloc_stats P buf s = do {
     s \<leftarrow> print P (map of_char (if mallocReady (vheap s) then ''Malloc: Ready'' else ''Malloc: NOT ready'')) s;
     s \<leftarrow> say P '' with chunks from 0x%x to 0x%x'' [firstChunk (vheap s), endOfChunks (vheap s)] s;
     let (allocated, s) = size_arg (buf + 32) 32 (totalMemAllocated (vheap s)) s;
     let (used, s) = size_arg buf 32 (totalMemUsed (vheap s)) s;
     s \<leftarrow> say P ''Malloc: %s used, %s allocated'' [used, allocated] s;
     if mallocReady (vheap s) then do { h \<leftarrow> printChunks (vheap s); Some (s\<lparr>vheap := h\<rparr>) } else Some s }"

end
