(* ===== verification/Kernel.thy ===== *)
theory Kernel
  imports Process Output Keyboard Multiboot
begin

section \<open>System calls, interrupts and the boot sequence\<close>

text \<open>
  \<open>syscalls.cpp\<close>, \<open>interrupt.cpp\<close> and \<open>sepples.cpp\<close> over the state of all components.  A call
  or a handler ends in one of three ways: it returns a value, it never returns to the caller
  because another task was switched to, or it waits for keys.  \<open>None\<close> is a halt.  The texts
  printed here and on the debug port are part of the state; those of the lower layers are not.
\<close>

record ('p, 'd) kernel =
  screen :: "'p vga"
  kbd :: keyboard
  keys :: kbd_keys
  tasks :: "'d taskman"
  dregs :: debug_regs

datatype outcome = Return u64 | Switched | WaitKeys

text \<open>
  The address space the processor is in is that of the current task.  The pages the kernel reads
  and writes for a task are taken to be mapped there; the space of the kernel task has none.
\<close>

definition active_space :: "('p, 'd) kernel \<Rightarrow> u64" where
  "active_space k = cr3 (regs (pList (tasks k) ! current (tasks k)))"

definition user_memory :: "('p, 'd) kernel \<Rightarrow> mem" where
  "user_memory k = spaces (tasks k) (active_space k)"

definition set_user_memory :: "mem \<Rightarrow> ('p, 'd) kernel \<Rightarrow> ('p, 'd) kernel" where
  "set_user_memory m k = k\<lparr>tasks := (tasks k)\<lparr>spaces := (spaces (tasks k))(active_space k := m)\<rparr>\<rparr>"

subsection \<open>Waiting for keys, \<open>keyboard.cpp\<close>\<close>

text \<open>
  \<open>nget\<close> up to its wait, and what it does when the lock is free again.  While another reader has
  the keyboard the caller spins without a state change.
\<close>

definition keyboard_nget :: "u64 \<Rightarrow> u32 \<Rightarrow> ('p, 'd) kernel \<Rightarrow> ('p, 'd) kernel" where
  "keyboard_nget buf n k =
     (case nget_request buf n (kbd k) of None \<Rightarrow> k
      | Some kb \<Rightarrow> k\<lparr>kbd := kb, screen := setRuboutLimit (-1) (-1) (screen k)\<rparr>)"

definition nget_done :: "('p, 'd) kernel \<Rightarrow> ('p, 'd) kernel option" where
  "nget_done k = (if ilock (kbd k) then None else Some (k\<lparr>screen := setRuboutLimit 0 0 (screen k)\<rparr>))"

text \<open>
  \<open>Keyboard::input\<close> stores in the space that is active when the key arrives.  If that is the
  kernel task's and the buffer a user's, the store faults, and the fault handler ends the kernel
  task, which halts.  The result is the character to echo.
\<close>

definition kbd_deliver :: "u8 \<Rightarrow> ('p, 'd) kernel \<Rightarrow> (u8 option \<times> ('p, 'd) kernel) option" where
  "kbd_deliver c k =
     (if kb_stores c (kbd k) \<and> pid (pList (tasks k) ! current (tasks k)) = 0 \<and> ubuf (kbd k) \<ge> USER_OFFSET then None
      else let (kb, echo) = kb_input c ((kbd k)\<lparr>kmemory := user_memory k\<rparr>)
        in Some (echo, set_user_memory (kmemory kb) (k\<lparr>kbd := kb\<lparr>kmemory := kmemory (kbd k)\<rparr>\<rparr>)))"

subsection \<open>\<open>syscalls.cpp\<close>\<close>

definition isUserPtrValid :: "u64 \<Rightarrow> bool" where
  "isUserPtrValid ptr \<longleftrightarrow> ptr \<ge> USER_OFFSET \<and> ptr \<le> USER_STACK"

definition sysExit :: "u32 \<Rightarrow> ('p, 'd) kernel \<Rightarrow> (outcome \<times> ('p, 'd) kernel) option" where
  "sysExit st k = do { t \<leftarrow> exitTask (sint st) (tasks k); Some (Switched, k\<lparr>tasks := t\<rparr>) }"

definition sys_print :: "'p pager_ops \<Rightarrow> u64 \<Rightarrow> ('p, 'd) kernel \<Rightarrow> (outcome \<times> ('p, 'd) kernel) option" where
  "sys_print P arg1 k =
     (if isUserPtrValid arg1 then do {
        str \<leftarrow> cstring_at (user_memory k) arg1;
        v \<leftarrow> print P str (screen k);
        Some (Return 0, k\<lparr>screen := v\<rparr>) }
      else Some (Return 0, k))"

definition sys_nget :: "u64 \<Rightarrow> u64 \<Rightarrow> ('p, 'd) kernel \<Rightarrow> (outcome \<times> ('p, 'd) kernel) option" where
  "sys_nget arg1 arg2 k =
     (if isUserPtrValid arg1 \<and> isUserPtrValid (arg1 + arg2) then Some (WaitKeys, keyboard_nget arg1 (ucast arg2) k)
      else Some (Return 0, k))"

definition sys_run ::
  "'d disk_reader \<Rightarrow> (nat \<Rightarrow> u8 list) \<Rightarrow> u64 \<Rightarrow> ('p, 'd) kernel \<Rightarrow> (outcome \<times> ('p, 'd) kernel) option" where
  "sys_run R junk arg1 k =
     (if isUserPtrValid arg1 then do {
        path \<leftarrow> cstring_at (user_memory k) arg1;
        (n, t) \<leftarrow> loadTask R junk path [] (tasks k);
        Some (Return (of_nat n), k\<lparr>tasks := t\<rparr>) }
      else Some (Return 0, k))"

definition doSyscalls ::
  "'p pager_ops \<Rightarrow> 'd disk_reader \<Rightarrow> (nat \<Rightarrow> u8 list) \<Rightarrow> u32 \<Rightarrow> u64 \<Rightarrow> u64 \<Rightarrow> ('p, 'd) kernel \<Rightarrow>
   (outcome \<times> ('p, 'd) kernel) option" where
  "doSyscalls P R junk sysnum arg1 arg2 k =
     (if sysnum = 1 then sysExit (ucast arg1) k
      else if sysnum = 0x10000 + 1 then sys_print P arg1 k
      else if sysnum = 0x10000 + 2 then sys_nget arg1 arg2 k
      else if sysnum = 0x10000 + 3 then sys_run R junk arg1 k
      else do {
        v \<leftarrow> error_format P (map of_char ''Unknow syscall received : %d'' @ [10]) [scast sysnum] (screen k);
        Some (Return 0, k\<lparr>screen := v\<rparr>) })"

subsection \<open>\<open>interrupt.cpp\<close>\<close>

text \<open>The exceptions whose handler ends in \<open>fatalError\<close>.\<close>

definition fatal_isr :: "isr \<Rightarrow> bool" where
  "fatal_isr i \<longleftrightarrow> i \<in> {default_int, reserved_int, exc_DIV0, exc_NOMATH, exc_MF, exc_TSS, exc_SWAP, exc_AC,
     exc_MC, exc_XM, exc_BOUNDS, exc_OPCODE, exc_DOUBLEF, exc_STACKF, exc_GP}"

text \<open>What the others say, page faults and hardware breakpoints apart; they change nothing else.\<close>

definition isr_error :: "isr \<Rightarrow> string option" where
  "isr_error i = (if i = exc_BP then Some ''Breakpoint interrupt received''
     else if i = exc_NMI then Some ''Non-maskable interrupt received''
     else if i = exc_OVRFLW then Some ''Overflow interrupt'' else None)"

definition isr_exception :: "'p pager_ops \<Rightarrow> isr \<Rightarrow> ('p, 'd) kernel \<Rightarrow> ('p, 'd) kernel option" where
  "isr_exception P i k =
     (if fatal_isr i then None
      else case isr_error i of
        Some msg \<Rightarrow> do { v \<leftarrow> error_screen P (map of_char msg @ [10]) (screen k); Some (k\<lparr>screen := v\<rparr>) }
      | None \<Rightarrow>
          if i = irq_hd_op_complete then do {
            v \<leftarrow> log_e9 (map of_char ''IRQ 14/15: Hard disk controller operation complete'' @ [10]) [] (screen k);
            Some (k\<lparr>screen := v\<rparr>) }
          else Some k)"

text \<open>
  A hardware breakpoint: the scheduler is switched off while the user is asked whether to keep it.
  \<open>key\<close> is the address of the local buffer.  The second part runs when the answer is there.
\<close>

definition isr_exc_DEBUG :: "'p pager_ops \<Rightarrow> u64 \<Rightarrow> u64 \<Rightarrow> ('p, 'd) kernel \<Rightarrow> (outcome \<times> ('p, 'd) kernel) option" where
  "isr_exc_DEBUG P ip key k =
     (let d = clearBreakpointDR6 (dregs k) in
      case breakpoint_hit (dregs k) of
        None \<Rightarrow> Some (Return 0, k\<lparr>dregs := d\<rparr>)
      | Some n \<Rightarrow> do {
          let k = k\<lparr>tasks := disableScheduler (tasks k), dregs := disableBreakpoint (of_nat n) d\<rparr>;
          v \<leftarrow> printf P (map of_char ''#DB breakpoint %d (%p) from RIP %p, press enter to disable'' @ [10])
                [of_nat n, dr_addr d ! n, ip] (setCurStyle 4 False 7 False (screen k));
          Some (WaitKeys, keyboard_nget key 1 (k\<lparr>screen := setCurStyle 7 False 0 False v\<rparr>)) })"

definition isr_exc_DEBUG_answer :: "nat \<Rightarrow> u64 \<Rightarrow> ('p, 'd) kernel \<Rightarrow> ('p, 'd) kernel option" where
  "isr_exc_DEBUG_answer n key k = do {
     k \<leftarrow> nget_done k;
     let d = (if user_memory k key \<noteq> 0x0A then enableBreakpoint (of_nat n) (dregs k) else dregs k);
     Some (k\<lparr>dregs := d, tasks := enableScheduler (tasks k)\<rparr>) }"

text \<open>
  A page fault: what the processor pushed are \<open>ip\<close> and \<open>errorcode\<close>.
\<close>

definition isr_exc_PF ::
  "'p pager_ops \<Rightarrow> u64 \<Rightarrow> u64 \<Rightarrow> u64 \<Rightarrow> ('p, 'd) kernel \<Rightarrow> (outcome \<times> ('p, 'd) kernel) option" where
  "isr_exc_PF P ip errorcode faulting_addr k =
     (let t = tasks k; p = pList t ! current t in
      if pid p = 0 \<and> faulting_addr < 0x1000 then None
      else if pid p \<noteq> 0 \<and> faulting_addr \<ge> USER_OFFSET \<and> faulting_addr < USER_STACK then do {
        v \<leftarrow> log_e9 (map of_char ''Page fault in user space, at rip:%p cr2:%p error code:%p'' @ [10])
               [ip, faulting_addr, errorcode] (screen k);
        (r, s) \<leftarrow> map_in (faulting_addr AND 0xFFFFF000) USER_PAGE (pml4 p) \<lparr>frames = kframes t, um = spaces t (pml4 p)\<rparr>;
        if r = 0 then None
        else Some (Return 0, k\<lparr>screen := v, tasks := t\<lparr>kframes := frames s, spaces := (spaces t)(pml4 p := um s)\<rparr>\<rparr>) }
      else do {
        v \<leftarrow> error_format P (map of_char ''Page fault (pid:%d,eip:0x%x,cr2:0x%x,error:0x%x)'' @ [10])
               [of_nat (pid p), ip, faulting_addr, errorcode] (screen k);
        sysExit 1 (k\<lparr>screen := v\<rparr>) })"

definition isr_clock_int :: "u64 list \<Rightarrow> u16 \<Rightarrow> ('p, 'd) kernel \<Rightarrow> ('p, 'd) kernel" where
  "isr_clock_int st sreg k = k\<lparr>tasks := schedule st sreg (tasks k)\<rparr>"

text \<open>
  The keyboard interrupt: what \<open>kbd_int\<close> decided is carried out.  Rebooting and halting end the
  kernel.  \<open>buf\<close> is where the locals of the statistics lie.
\<close>

definition print_stats :: "'p pager_ops \<Rightarrow> u64 \<Rightarrow> ('p, 'd) kernel \<Rightarrow> ('p, 'd) kernel option" where
  "print_stats P buf k = do {
     (mapped, f) \<leftarrow> nMappedPages (kframes (tasks k));
     v \<leftarrow> paging_stats P buf mapped (getMaxPhysPages f) (screen k);
     v \<leftarrow> malloc_stats P buf v;
     Some (k\<lparr>screen := v, tasks := (tasks k)\<lparr>kframes := f\<rparr>\<rparr>) }"

text \<open>
  The handler first waits until the controller (port 0x64) has a byte, then reads it (port 0x60):
  \<open>st i\<close> is the \<open>i\<close>-th status, \<open>sc i\<close> the byte after \<open>i\<close> of them.
\<close>

partial_function (option) kbd_wait :: "(nat \<Rightarrow> u8) \<Rightarrow> nat \<Rightarrow> nat option" where
  "kbd_wait st i = (if st i AND 1 = 0 then kbd_wait st (Suc i) else Some (Suc i))"

lemma kbd_wait_returns: "st (i + n) AND 1 \<noteq> 0 \<Longrightarrow> \<exists>j. kbd_wait st i = Some j \<and> i < j \<and> j \<le> Suc (i + n) \<and> st (j - 1) AND 1 \<noteq> 0"
proof (induction n arbitrary: i)
  case 0
  then show ?case by (simp add: kbd_wait.simps)
next
  case (Suc n)
  show ?case
  proof (cases "st i AND 1 = 0")
    case True
    then show ?thesis using Suc.IH [of "Suc i"] Suc.prems by (auto simp: kbd_wait.simps [of st i])
  next
    case False
    then show ?thesis by (simp add: kbd_wait.simps)
  qed
qed

definition isr_kbd_int :: "'p pager_ops \<Rightarrow> u64 \<Rightarrow> u8 \<Rightarrow> ('p, 'd) kernel \<Rightarrow> ('p, 'd) kernel option" where
  "isr_kbd_int P buf scancode k = do {
     (act, ks) \<leftarrow> kbd_int scancode (keys k);
     let k = k\<lparr>keys := ks\<rparr>;
     case act of
       KReboot \<Rightarrow> None
     | KHalt \<Rightarrow> None
     | KPrintStats \<Rightarrow> print_stats P buf k
     | KScroll n \<Rightarrow> Some (k\<lparr>screen := scroll n (screen k)\<rparr>)
     | KNothing \<Rightarrow> Some k
     | KInput c \<Rightarrow> do {
         (echo, k) \<leftarrow> kbd_deliver c k;
         case echo of None \<Rightarrow> Some k
         | Some c \<Rightarrow> do { v \<leftarrow> put P c (screen k); Some (k\<lparr>screen := v\<rparr>) } } }"

definition isr_kbd_ports :: "'p pager_ops \<Rightarrow> u64 \<Rightarrow> (nat \<Rightarrow> u8) \<Rightarrow> (nat \<Rightarrow> u8) \<Rightarrow> ('p, 'd) kernel \<Rightarrow> ('p, 'd) kernel option" where
  "isr_kbd_ports P buf st sc k = do { i \<leftarrow> kbd_wait st 0; isr_kbd_int P buf (sc i) k }"

subsection \<open>\<open>sepples.cpp\<close>: starting up\<close>

text \<open>
  The files: the driver looks for its drives, ext2 is registered, and the partitions of drive 0 are
  mounted under the root.
\<close>

definition boot_files :: "'d ata_port \<Rightarrow> (nat \<Rightarrow> u8 list) \<Rightarrow> 'd ata \<Rightarrow> 'd ata fs option" where
  "boot_files D junk a =
     (let s = \<lparr>vfs = vfs_init Base, fsdev = ata_init D a\<rparr>;
          fss = initfs (diskRead D) junk []
      in mountAll
           (\<lambda>part s. map_option (\<lambda>(nd, s). (nd \<noteq> None, s)) (mount (diskRead D) junk fss part root None s))
           (\<lambda>disk s. map_option (\<lambda>(table, a). (table, s\<lparr>fsdev := a\<rparr>)) (readTable D junk disk (fsdev s)))
           0 s)"

definition bin_path :: "u8 list \<Rightarrow> u8 list" where "bin_path name = map of_char ''/0/bin/'' @ name"

definition boot_program ::
  "'p pager_ops \<Rightarrow> 'd disk_reader \<Rightarrow> (nat \<Rightarrow> u8 list) \<Rightarrow> u8 list \<Rightarrow> ('p, 'd) kernel \<Rightarrow> ('p, 'd) kernel option" where
  "boot_program P R junk name k = do {
     (nd, f) \<leftarrow> resolve R junk (bin_path name) (files (tasks k));
     let k = k\<lparr>tasks := (tasks k)\<lparr>files := f\<rparr>\<rparr>;
     if nd \<noteq> None then do {
       v \<leftarrow> print P (map of_char ''Starting '' @ [34] @ bin_path name @ [34, 10]) (screen k);
       (_, t) \<leftarrow> loadTask_node R junk nd [] (tasks k);
       Some (k\<lparr>screen := v, tasks := t\<rparr>) }
     else do {
       v \<leftarrow> print P (map of_char ''Failed to get path to '' @ name @ [10]) (screen k);
       Some (k\<lparr>screen := v\<rparr>) } }"

text \<open>From \<open>TaskManager::init\<close> to the loop; the first result is \<open>lastNProc\<close>.\<close>

definition boot_start ::
  "'p pager_ops \<Rightarrow> 'd disk_reader \<Rightarrow> (nat \<Rightarrow> u8 list) \<Rightarrow> process \<Rightarrow> u16 \<Rightarrow> ('p, 'd) kernel \<Rightarrow>
   (int \<times> ('p, 'd) kernel) option" where
  "boot_start P R junk jk kernel_ss k = do {
     let k = k\<lparr>tasks := task_init jk kernel_ss (tasks k)\<rparr>;
     let lastNProc = sint (getNProc (tasks k));
     k \<leftarrow> boot_program P R junk (map of_char ''hello.elf'') k;
     k \<leftarrow> boot_program P R junk (map of_char ''sh.elf'') k;
     Some (lastNProc, k\<lparr>kbd := setLogInput True (kbd k)\<rparr>) }"

subsection \<open>\<open>sepples.cpp\<close>: keeping a shell alive\<close>

text \<open>
  One turn of the loop at the end of \<open>boot\<close>: the first result is \<open>giveup\<close>, the second
  \<open>lastNProc\<close>.
\<close>

definition boot_turn ::
  "'p pager_ops \<Rightarrow> 'd disk_reader \<Rightarrow> (nat \<Rightarrow> u8 list) \<Rightarrow> int \<Rightarrow> ('p, 'd) kernel \<Rightarrow>
   (bool \<times> int \<times> ('p, 'd) kernel) option" where
  "boot_turn P R junk lastNProc k =
     (if sint (getNProc (tasks k)) \<noteq> lastNProc \<or> lastNProc = 0 then
        let lastNProc = sint (getNProc (tasks k)) in
        if lastNProc = 0 then do {
          v \<leftarrow> print P (map of_char ''All tasks are dead, starting a shell'' @ [10])
                 (setCurStyle 6 False 0 False (screen k));
          let v = setCurStyle 7 False 0 False v;
          (n, t) \<leftarrow> loadTask R junk (bin_path (map of_char ''sh.elf'')) [] (tasks k);
          if n = 0 then do {
            v \<leftarrow> error_screen P (map of_char ''Failed to load task, giving up'' @ [10]) v;
            Some (True, lastNProc, k\<lparr>screen := v, tasks := t\<rparr>) }
          else Some (False, lastNProc, k\<lparr>screen := v, tasks := t\<rparr>) }
        else Some (False, lastNProc, k)
      else Some (False, lastNProc, k))"

text \<open>After giving up the kernel sleeps between interrupts.\<close>

definition boot_sleep :: "'p pager_ops \<Rightarrow> ('p, 'd) kernel \<Rightarrow> ('p, 'd) kernel option" where
  "boot_sleep P k = do {
     v \<leftarrow> print P (map of_char ''Kernel going to sleep...'' @ [10]) (screen k);
     Some (k\<lparr>screen := v\<rparr>) }"

end
