(* ===== verification/Shell.thy ===== *)
theory Shell
  imports Kernel
begin

section \<open>The shell: \<open>src/shell/sh.c\<close> and its system calls, \<open>src/shell/lib/sepples.c\<close>\<close>

text \<open>
  The shell is a C program of the user.  A turn of its loop asks the kernel for a line and then
  decides what to do with it; the texts it prints are values.  The stubs load the registers that
  \<open>doSyscalls\<close> reads.
\<close>

subsection \<open>The stubs\<close>

datatype syscall = Sys_exit u32 | Sys_run u32 | Sys_print u32 | Sys_nget u32 u32

text \<open>\<open>eax\<close>, \<open>ebx\<close> and \<open>ecx\<close> at the interrupt; a stub that does not set \<open>ecx\<close> leaves it as it was.\<close>

fun call_regs :: "u32 \<Rightarrow> syscall \<Rightarrow> u32 \<times> u32 \<times> u32" where
  "call_regs old (Sys_exit st) = (1, st, old)"
| "call_regs old (Sys_run path) = (0x10003, path, old)"
| "call_regs old (Sys_print str) = (0x10001, str, old)"
| "call_regs old (Sys_nget buf n) = (0x10002, buf, n)"

definition user_call ::
  "'p pager_ops \<Rightarrow> 'd disk_reader \<Rightarrow> (nat \<Rightarrow> u8 list) \<Rightarrow> u32 \<Rightarrow> syscall \<Rightarrow> ('p, 'd) kernel \<Rightarrow>
   (outcome \<times> ('p, 'd) kernel) option" where
  "user_call P R junk old c k =
     (let (eax, ebx, ecx) = call_regs old c in doSyscalls P R junk eax (ucast ebx) (ucast ecx) k)"

subsection \<open>A turn of the loop\<close>

definition INBUF :: u32 where "INBUF = 512"

definition cmdis :: "u8 list \<Rightarrow> u8 list \<Rightarrow> bool" where
  "cmdis inbuf str \<longleftrightarrow> inbuf = str"

definition cmd_exit :: "u8 list" where "cmd_exit = map of_char ''exit'' @ [10]"
definition cmd_help :: "u8 list" where "cmd_help = map of_char ''help'' @ [10]"

datatype shell_act = Say "u8 list" | Start "u8 list"

text \<open>Lines 17--43: whether the loop goes on, and what the shell asked for; \<open>run\<close> gives the pid.\<close>

definition shell_line :: "(u8 list \<Rightarrow> nat) \<Rightarrow> u8 list \<Rightarrow> bool \<times> shell_act list" where
  "shell_line run inbuf =
     (if cmdis inbuf cmd_exit then (False, [])
      else if cmdis inbuf cmd_help then
        (True, [Say (map of_char ''Enter an absolute path to a binary, or one of the following commands:'' @ [10]),
                Say (map of_char ''exit: Exit the shell'' @ [10]),
                Say (map of_char ''help: Show this help'' @ [10])])
      else if length inbuf \<le> 1 then (True, [])
      else
        let path = (if last inbuf = 10 then butlast inbuf else inbuf) in
        (True, Start path #
           (if run path = 0
            then [Say (map of_char ''File or command not found: ''), Say path, Say [10]] else [])))"

end
