(* ===== verification/SizeText.thy ===== *)
theory SizeText
  imports HumanReadable
begin

section \<open>Sizes as text: what the callers get\<close>

text \<open>
  The buffer after \<open>toIEC\<close>, as one write of the decimal number, the unit and the terminator at the
  end of the buffer.
\<close>


subsection \<open>What the two routines leave in the buffer\<close>

fun dec :: "nat \<Rightarrow> u8 list" where
  "dec n = (if n < 10 then [] else dec (n div 10)) @ [48 + of_nat (n mod 10)]"

declare dec.simps [simp del]

text \<open>The text grows towards the front: \<open>c\<close> is the index before its first character.\<close>

lemma store_back_wr:
  assumes "Suc (length bs) < 2 ^ 64"
  shows "store_back buf ch (wr m (buf + of_int c + 1) bs, c) = (wr m (buf + of_int c) (ch # bs), c - 1)"
proof -
  have "buf + of_int c - (buf + of_int c + 1) = - 1" by simp
  then have "unat (buf + of_int c - (buf + of_int c + 1)) = 2 ^ 64 - 1" by (simp add: unsigned_minus_1_eq_mask mask_eq_exp_minus_1)
  then show ?thesis using assms by (simp add: store_back_def wr_Cons wr_upd_commute)
qed

lemma word_div_mod_10:
  assumes "n < 2 ^ 64"
  shows "(of_nat n :: u64) div 10 = of_nat (n div 10)" "ucast ((of_nat n :: u64) mod 10) = (of_nat (n mod 10) :: u8)"
    "(0 :: u64) < of_nat n \<longleftrightarrow> 0 < n"
proof -
  have n: "unat (of_nat n :: u64) = n" using assms by (simp add: unat_of_nat_small)
  show "(of_nat n :: u64) div 10 = of_nat (n div 10)"
    using n assms by (simp add: word_unat_eq_iff unat_div unat_of_nat_small)
  have "unat ((of_nat n :: u64) mod 10) = n mod 10" using n by (simp add: unat_mod)
  then show "ucast ((of_nat n :: u64) mod 10) = (of_nat (n mod 10) :: u8)"
    by (simp add: word_unat_eq_iff unsigned_ucast_eq unsigned_of_nat)
  show "(0 :: u64) < of_nat n \<longleftrightarrow> 0 < n" using n by (simp add: word_less_nat_alt)
qed

lemma digits_back_wr:
  "n < 2 ^ 64 \<Longrightarrow> 0 < n \<Longrightarrow> length bs + n < 2 ^ 64 \<Longrightarrow>
   digits_back buf (of_nat n) (wr m (buf + of_int c + 1) bs, c) =
     (wr m (buf + of_int (c - int (length (dec n))) + 1) (dec n @ bs), c - int (length (dec n)))"
proof (induction n arbitrary: bs c rule: dec.induct)
  case (1 n)
  let ?d = "48 + of_nat (n mod 10) :: u8"
  note w = word_div_mod_10 [OF 1(2)]
  have ch: "(of_char CHR ''0'' :: u8) = 48" by simp
  have step: "digits_back buf (of_nat n) (wr m (buf + of_int c + 1) bs, c) =
      digits_back buf (of_nat (n div 10)) (wr m (buf + of_int (c - 1) + 1) (?d # bs), c - 1)"
    using 1(3,4) store_back_wr [of bs buf ?d m c] by (subst digits_back.simps) (simp add: w ch)
  show ?case
  proof (cases "n < 10")
    case True
    then have "n div 10 = 0" "dec n = [?d]" by (simp_all add: dec.simps [of n])
    then show ?thesis unfolding step by (subst digits_back.simps) simp
  next
    case False
    have "length (?d # bs) + n div 10 < 2 ^ 64" using 1(4) False by simp
    then have "digits_back buf (of_nat (n div 10)) (wr m (buf + of_int (c - 1) + 1) (?d # bs), c - 1) =
      (wr m (buf + of_int (c - 1 - int (length (dec (n div 10)))) + 1) (dec (n div 10) @ ?d # bs), c - 1 - int (length (dec (n div 10))))"
      using 1(1) [of "?d # bs" "c - 1"] False 1(2) by simp
    moreover have "dec n = dec (n div 10) @ [?d]" using False by (simp add: dec.simps [of n])
    ultimately show ?thesis unfolding step by (simp add: algebra_simps)
  qed
qed

lemma scale_down_spec:
  assumes "1 < unat unit" "10 * unat unit < 2 ^ 64" "scale_down unit sz idx = (n, i)"
  shows "idx \<le> i \<and> unat n = unat sz div unat unit ^ (i - idx) \<and> unat n \<le> 10 * unat unit \<and>
    (idx < i \<longrightarrow> 10 * unat unit ^ (i - idx) \<le> unat sz)"
  using assms
proof (induction unit sz idx rule: scale_down.induct)
  case (1 unit sz idx)
  let ?u = "unat unit"
  have u10: "unat (10 * unit) = 10 * ?u" using 1(3) by (simp add: unat_word_ariths)
  show ?case
  proof (cases "sz > 10 * unit")
    case False
    then have "n = sz" "i = idx" using 1(2,4) by (subst (asm) scale_down.simps; simp add: word_less_nat_alt)+
    then show ?thesis using False u10 by (simp add: word_less_nat_alt)
  next
    case True
    have u1: "1 < unit" using 1(2) by (simp add: word_less_nat_alt)
    have rec: "scale_down unit (sz div unit) (Suc idx) = (n, i)" using 1(4) True u1 by (subst (asm) scale_down.simps) simp
    have IH: "Suc idx \<le> i" "unat n = unat sz div ?u div ?u ^ (i - Suc idx)" "unat n \<le> 10 * ?u"
      "Suc idx < i \<longrightarrow> 10 * ?u ^ (i - Suc idx) \<le> unat sz div ?u"
      using 1(1) True u1 1(2,3) rec by (auto simp: unat_div)
    have pow: "?u ^ (i - idx) = ?u * ?u ^ (i - Suc idx)"
      using IH(1) by (metis Suc_diff_le diff_Suc_Suc power_Suc)
    have "10 * ?u ^ (i - idx) \<le> unat sz"
    proof (cases "Suc idx < i")
      case True
      then have "10 * ?u ^ (i - Suc idx) * ?u \<le> unat sz"
        using IH(4) 1(2) by (simp add: less_eq_div_iff_mult_less_eq)
      then show ?thesis by (simp add: pow mult_ac)
    next
      case False
      then have "i = Suc idx" using IH(1) by simp
      then show ?thesis using True u10 by (simp add: word_less_nat_alt)
    qed
    then show ?thesis using IH by (simp add: pow div_mult2_eq)
  qed
qed

definition text_at :: "mem \<Rightarrow> u64 \<Rightarrow> int \<Rightarrow> u8 list \<Rightarrow> mem \<times> int" where
  "text_at m buf c bs = (wr m (buf + of_int c + 1) bs, c)"

lemma store_back_text: "Suc (length bs) < 2 ^ 64 \<Longrightarrow> store_back buf ch (text_at m buf c bs) = text_at m buf (c - 1) (ch # bs)"
  using store_back_wr [of bs buf ch m c] by (simp add: text_at_def)

lemma number_back_text:
  assumes "length bs + unat n + 1 < 2 ^ 64"
  shows "number_back buf n (text_at m buf c bs) = text_at m buf (c - int (length (dec (unat n)))) (dec (unat n) @ bs)"
proof (cases "n = 0")
  case True
  then show ?thesis using assms by (simp add: number_back_def store_back_text dec.simps [of 0])
next
  case False
  then have "0 < unat n" by (simp add: unat_gt_0)
  then show ?thesis
    using digits_back_wr [of "unat n" bs buf m c] assms False by (simp add: number_back_def text_at_def)
qed

lemma length_dec: "n < 10 ^ Suc k \<Longrightarrow> length (dec n) \<le> Suc k"
proof (induction k arbitrary: n)
  case 0
  then show ?case by (simp add: dec.simps [of n])
next
  case (Suc k)
  then have "length (dec (n div 10)) \<le> Suc k" by (simp add: div_less_iff_less_mult mult.commute)
  then show ?case by (subst dec.simps) simp
qed

lemma scale_exponent:
  assumes "10 * u ^ k \<le> (n :: nat)" "n < 2 ^ 64" "2 ^ 64 \<le> 10 * u ^ 7" "0 < u"
  shows "k \<le> 6"
proof (rule ccontr)
  assume "\<not> k \<le> 6"
  then have "u ^ 7 \<le> u ^ k" using assms(4) by (intro power_increasing) auto
  then show False using assms(1-3) by linarith
qed

lemma buffer_end:
  assumes "0 < unat bufSize" "unat (bufSize :: u32) < 2 ^ 31"
  shows "sint (bufSize - 1) = int (unat bufSize) - 1"
proof -
  have "bufSize - 1 = of_nat (unat bufSize - 1)" using assms(1) by (simp add: of_nat_diff)
  then have "sint (bufSize - 1) = signed_take_bit 31 (int (unat bufSize - 1))" by (simp only: signed_of_nat) simp
  moreover have "signed_take_bit 31 (int k) = int k" if "k < 2 ^ 31" for k
    using that by (intro signed_take_bit_int_eq_self) simp_all
  moreover have "unat bufSize - 1 < 2 ^ 31" using assms(2) by simp
  ultimately have "sint (bufSize - 1) = int (unat bufSize - 1)" by metis
  then show ?thesis using assms(1) by simp
qed

definition iec_unit :: "nat \<Rightarrow> u8 list" where
  "iec_unit i = [32] @ (if i = 0 then [] else [iec_indexes ! i, of_char CHR ''i'']) @ [of_char CHR ''B'']"

lemma toIEC_stores:
  assumes "scale_down 1024 sz 0 = (n, i)" "unat n < 100000"
  shows "toIEC m buf bufSize sz =
    (let (m, c) = text_at m buf (sint (bufSize - 1) - int (length (dec (unat n) @ iec_unit i)) - 1) (dec (unat n) @ iec_unit i @ [0])
     in (m, buf + of_int c + 1))"
proof -
  have start: "(m, c) = text_at m buf c []" for c by (simp add: text_at_def)
  show ?thesis
    using assms unfolding toIEC_def start
    by (simp add: store_back_text number_back_text iec_unit_def Let_def algebra_simps)
qed

text \<open>
  C18: \<open>toIEC\<close> writes at most 10 bytes, all in the buffer it is given: the size divided by a power of
  1024 in decimal, at most 10240 and at least 10 if a prefix is used, a space, the prefix and the
  unit, ended by a null byte in the last place.  The pointer it returns is the first character, so
  the 32 and 64 bytes of its callers are enough.
\<close>

theorem toIEC_text:
  assumes "toIEC m buf bufSize sz = (m', p)" "10 \<le> unat bufSize" "unat bufSize < 2 ^ 31"
  shows "\<exists>i t. i \<le> 6 \<and> t = dec (unat sz div 1024 ^ i) @ iec_unit i \<and> unat sz div 1024 ^ i \<le> 10240 \<and>
    (0 < i \<longrightarrow> 10 \<le> unat sz div 1024 ^ i) \<and> length t < 10 \<and>
    p = buf + of_nat (unat bufSize - Suc (length t)) \<and> m' = wr m p (t @ [0])"
proof -
  obtain n i where s: "scale_down 1024 sz 0 = (n, i)" by (cases "scale_down 1024 sz 0") auto
  have sc: "unat n = unat sz div 1024 ^ i" "unat n \<le> 10240" "0 < i \<longrightarrow> 10 * 1024 ^ i \<le> unat sz"
    using scale_down_spec [OF _ _ s] by simp_all
  have i6: "i \<le> 6"
    using scale_exponent [of 1024 i "unat sz"] sc(3) unsigned_less [where w = sz and 'a = nat] by (cases "i = 0") simp_all
  let ?t = "dec (unat n) @ iec_unit i"
  have len: "length ?t < 10" using length_dec [of "unat n" 4] sc(2) by (simp add: iec_unit_def)
  let ?p = "buf + of_nat (unat bufSize - Suc (length ?t))"
  have pos: "buf + of_int (int (unat bufSize) - 1 - int (length ?t) - 1) + 1 = ?p"
    using len assms(2) by (simp add: of_nat_diff)
  have small: "unat n < 100000" "0 < unat bufSize" using sc(2) assms(2) by simp_all
  have res: "toIEC m buf bufSize sz = (wr m ?p (?t @ [0]), ?p)"
    by (simp only: toIEC_stores [OF s small(1)] text_at_def prod.case Let_def buffer_end [OF small(2) assms(3)] pos append_assoc)
  have "0 < i \<longrightarrow> 10 \<le> unat sz div 1024 ^ i" using sc(3) by (simp add: less_eq_div_iff_mult_less_eq mult.commute)
  moreover have "p = ?p \<and> m' = wr m p (?t @ [0])" using assms(1) unfolding res by auto
  ultimately show ?thesis using i6 sc(1,2) len by (intro exI [of _ i] exI [of _ ?t]) simp
qed

text \<open>20480 bytes in a buffer of 32: \<open>20 KiB\<close> and the null byte, at the end.\<close>

theorem toIEC_text_witness:
  "\<exists>m'. toIEC (\<lambda>_. 0) 0x1000 32 20480 = (m', 0x1019) \<and> rd m' 0x1019 3 = [50, 48, 32]"
proof -
  obtain m' p where r: "toIEC (\<lambda>_. 0) 0x1000 32 20480 = (m', p)" by (cases "toIEC (\<lambda>_. 0) 0x1000 32 20480") auto
  obtain i t where t: "i \<le> 6" "t = dec (20480 div 1024 ^ i) @ iec_unit i" "20480 div 1024 ^ i \<le> (10240 :: nat)"
    "0 < i \<longrightarrow> 10 \<le> (20480 :: nat) div 1024 ^ i" "p = 0x1000 + of_nat (32 - Suc (length t))" "m' = wr (\<lambda>_. 0) p (t @ [0])"
    using toIEC_text [OF r] by auto
  have "i = 1"
  proof -
    have "i = 0 \<or> i = 1 \<or> i = 2 \<or> i = 3 \<or> i = 4 \<or> i = 5 \<or> i = 6" using t(1) by auto
    then show ?thesis using t(3,4) by (elim disjE) simp_all
  qed
  then have "t = [50, 48, 32, 75, 105, 66]" using t(2) by (simp add: dec.simps [of 20] dec.simps [of 2] iec_unit_def iec_indexes_def)
  then show ?thesis using r t(5,6) by (auto simp: rd_def wr_def upt_rec)
qed

end
