(* ===== verification/Reports.thy ===== *)
theory Reports
  imports Kernel
begin

section \<open>Reports of the start-up code\<close>

text \<open>
  What is printed while the kernel starts: \<open>checkMultiboot\<close> and \<open>printMbiMemmap\<close> of
  \<open>multiboot.cpp\<close> and the end of \<open>ATA::init\<close>.
\<close>

subsection \<open>\<open>multiboot.cpp\<close>\<close>

record boot_report = multiboot_info +
  part3 :: u8
  part2 :: u8
  part1 :: u8
  disk :: u8
  cmdline :: u32
  mods_count :: u32
  bootloader_name :: u32

text \<open>
  \<open>checkMultiboot\<close> with what it prints.  The halts are those of \<open>checkMultiboot\<close>; \<open>mods_count\<close>
  is handed to \<open>%s\<close>, as in the source.
\<close>

definition report_sizes :: "'p pager_ops \<Rightarrow> u64 \<Rightarrow> boot_report \<Rightarrow> 'p vga \<Rightarrow> 'p vga option" where
  "report_sizes P buf mbi s =
     (let (high, s) = size_arg (buf + 64) 64 (ucast (high_mem mbi * 1000)) s;
          (low, s) = size_arg buf 64 (ucast (low_mem mbi * 1000)) s
      in printf P (map of_char ''Available low mem : %s'' @ [10] @ map of_char ''Available high mem : %s'' @ [10]) [low, high] s)"

definition report_device :: "'p pager_ops \<Rightarrow> boot_report \<Rightarrow> 'p vga \<Rightarrow> 'p vga option" where
  "report_device P mbi s =
     (if disk mbi = 0x9f \<or> disk mbi = 0xe0 \<or> disk mbi = 0xef then say P ''Boot device : CD-ROM'' [] s
      else if disk mbi < 0x80 then say P ''Boot device : Floppy drive 0x%x'' [ucast (disk mbi)] s
      else say P ''Boot device : Partition %x:%x:%x on disk drive 0x%x''
             [ucast (part3 mbi), ucast (part2 mbi), ucast (part1 mbi), ucast (disk mbi)] s)"

definition report_multiboot :: "'p pager_ops \<Rightarrow> u64 \<Rightarrow> u32 \<Rightarrow> boot_report \<Rightarrow> 'p vga \<Rightarrow> 'p vga option" where
  "report_multiboot P buf mbmagic mbi s = do {
     let fl = flags mbi;
     let s = setCurStyle 1 True 0 False s;
     _ \<leftarrow> checkMultiboot mbmagic (multiboot_info.truncate mbi);
     s \<leftarrow> (if fl AND 0b1 \<noteq> 0 then report_sizes P buf mbi s else Some s);
     s \<leftarrow> (if fl AND 0b10 \<noteq> 0 then report_device P mbi s else Some s);
     s \<leftarrow> say_if (fl AND 0b100 \<noteq> 0) P ''Boot command line : %s'' [ucast (cmdline mbi)] s;
     s \<leftarrow> say_if (fl AND 0b1000 \<noteq> 0) P ''Boot modules : %s'' [ucast (mods_count mbi)] s;
     s \<leftarrow> say_if (fl AND 0b10000 \<noteq> 0) P ''Symbol table provided (a.out)'' [] s;
     s \<leftarrow> say_if (fl AND 0b100000 \<noteq> 0) P ''Symbol table provided (ELF)'' [] s;
     s \<leftarrow> say_if (fl AND 0b1000000 \<noteq> 0) P ''Memory Map provided'' [] s;
     s \<leftarrow> say_if (fl AND 0b10000000 \<noteq> 0) P ''Drives Map provided'' [] s;
     s \<leftarrow> say_if (drop_bit 8 fl AND 0b1 \<noteq> 0) P ''ROM configuration table provided'' [] s;
     s \<leftarrow> say_if (drop_bit 8 fl AND 0b10 \<noteq> 0) P ''Bootloader name : %s'' [ucast (bootloader_name mbi)] s;
     s \<leftarrow> say_if (drop_bit 8 fl AND 0b100 \<noteq> 0) P ''APM table provided'' [] s;
     s \<leftarrow> say_if (drop_bit 8 fl AND 0b1000 \<noteq> 0) P ''Graphic table provided'' [] s;
     Some (setCurStyle 7 False 0 False s) }"

text \<open>The map is read from the memory the text is printed to.\<close>

partial_function (option) print_entries :: "'p pager_ops \<Rightarrow> u64 \<Rightarrow> u64 \<Rightarrow> 'p vga \<Rightarrow> 'p vga option" where
  "print_entries P cur end_addr s =
     (if \<not> cur < end_addr then Some s else do {
        let m = vmem s;
        s \<leftarrow> say P ''Type %d : 0x%x - 0x%x''
              [ucast (mmap_type m cur), mmap_base_addr m cur, mmap_base_addr m cur + mmap_len m cur] s;
        print_entries P (cur + ucast (mmap_size (vmem s) cur) + 4) end_addr s })"

definition printMbiMemmap :: "'p pager_ops \<Rightarrow> multiboot_info \<Rightarrow> 'p vga \<Rightarrow> (bool \<times> 'p vga) option" where
  "printMbiMemmap P mbi s =
     (if flags mbi AND 0b01000000 = 0 then Some (False, s) else do {
        s \<leftarrow> print_entries P (ucast (mmap_addr mbi)) (ucast (mmap_addr mbi) + ucast (mmap_length mbi)) s;
        Some (True, s) })"

subsection \<open>\<open>disk.cpp\<close>\<close>

fun config_text :: "reg_config \<Rightarrow> string" where
  "config_text CONFIG_NONE = ''None''"
| "config_text CONFIG_ATA = ''Ready (ATA)''"
| "config_text CONFIG_ATAPI = ''Ready (ATAPI)''"
| "config_text CONFIG_UNKN = ''Not detected''"

definition report_drives :: "'p pager_ops \<Rightarrow> 'd ata \<Rightarrow> 'p vga \<Rightarrow> 'p vga option" where
  "report_drives P a s = do {
     let s = setCurStyle 1 True 0 False s;
     s \<leftarrow> print P (map of_char ''Drive 0 : '') s;
     s \<leftarrow> say P (config_text (regConfigInfo a ! 0)) [] s;
     s \<leftarrow> print P (map of_char ''Drive 1 : '') s;
     s \<leftarrow> say P (config_text (regConfigInfo a ! 1)) [] s;
     Some (setCurStyle 7 False 0 False s) }"

end
