(* ===== verification/Spec2Isabelle.thy ===== *)
theory Spec2Isabelle
  imports CString PageSpace HeapGrow VgaSpec Ata Vfs Ext2Dir Keyboard Arch HumanReadable Lists ElfImage Process
    Multiboot Kernel Shell SizeText Reports
begin

text \<open>
  A model of SepplesOS, a small 64-bit kernel in C++ (\<open>src/kernel\<close>) with a user shell in C
  (\<open>src/shell\<close>), and what makes its parts correct.

  \<^bold>\<open>How the parts work together.\<close>  The boot loader hands over a description of memory
  (\<open>multiboot.cpp\<close>).  \<open>Paging\<close> keeps one bit for each physical page and builds 4-level page
  tables in physical memory, which it reaches through one temporary page.  \<open>Malloc\<close> is a list of
  chunks with 8-byte headers in virtual memory that grows and shrinks page by page through
  \<open>Paging\<close>; \<open>new\<close>, the linked list and the log of the screen live on it.  The ATA driver reads
  sectors, the partition table and ext2 are read through it, and ext2 hangs its nodes into the
  VFS, which resolves paths.  The task manager loads ELF files found by path into a new page
  directory and switches tasks round robin at each timer tick.  Tasks call the kernel through one
  interrupt; the keyboard interrupt completes the calls that read a line.

  \<^bold>\<open>Conventions.\<close>  Machine integers are words of the source's width; a signed one is read with
  \<open>sint\<close>; the task manager's count of tasks, which leaks one for every program that fails to load,
  is such a word and overflows.  Memory is a function from 64-bit addresses to bytes, so that aliasing and wrap-around
  are those of the code.  A function that can halt the kernel (\<open>fatalError\<close>, \<open>halt\<close>) or loop
  for ever gives an \<open>option\<close>: \<open>None\<close> is both.  Loops whose end is not obvious from their text are
  \<open>partial_function (option)\<close>, so every theorem that ends in \<open>Some\<close> also says that the code
  returns; loops with a bound are \<open>for_each\<close> (every index) or \<open>for_find\<close> (until one succeeds) of
  \<open>Prelude\<close>.  The only count chosen here is the number of polls of a spinning loop, which is the
  source's own \<open>TIMEOUT\<close>.  Code outside the kernel is a parameter: the drive behind the ATA
  ports, the pages behind the heap (\<open>pager_ops\<close>, instantiated with \<open>Paging\<close> by \<open>kernel_pager\<close>),
  the virtual \<open>lookup\<close> of a node, and the contents of uninitialised memory (\<open>junk\<close>).  What the
  handlers print with \<open>error\<close> and \<open>logE9\<close> is on the screen and the debug port of the model; the
  messages of the layers below are left out.

  \<^bold>\<open>The theories.\<close>
  \<^item> \<open>Prelude\<close>: bytes and words in memory, the loop combinators and the shared lemmas.
  \<^item> \<open>CString\<close>: \<open>lib/string.cpp\<close>, \<open>mm/memcpy.cpp\<close>, \<open>mm/memzero.cpp\<close> over memory, and each routine
    as a function of the strings it is given; \<open>atoi\<close> after \<open>itoa\<close>, the size of the buffer.
  \<^item> \<open>HumanReadable\<close>, \<open>SizeText\<close>: \<open>lib/humanReadable.cpp\<close>, and the text \<open>toIEC\<close> leaves.
  \<^item> \<open>PhysPages\<close>, \<open>PageTables\<close>, \<open>PageWalk\<close>, \<open>PageSpace\<close>: \<open>mm/paging.cpp\<close>.  The bitmap implements the
    locale \<open>page_allocator\<close>; the processor's walk over the tables is the specification of
    \<open>mapPage\<close>, \<open>unmapPage\<close> and \<open>getPAddr\<close>; creating and destroying a directory is a round trip.
  \<^item> \<open>UserTables\<close>, \<open>UserMapping\<close>, \<open>SpaceMap\<close>, \<open>SpaceDestroy\<close>, \<open>Isolation\<close>: the spaces of the tasks.
    Their page tables are trees that share no page but the kernel's; seen as one map from directories
    and pages to entries, \<open>mapPage\<close> updates it at one point, \<open>destroyPageDir\<close> releases exactly the pages
    of one directory, and in no order of these steps does a page come to belong to two tasks.
  \<^item> \<open>Malloc\<close>, \<open>HeapSpec\<close>, \<open>HeapGrow\<close>: \<open>mm/malloc.cpp\<close>, and the heap as a list of blocks: \<open>init\<close>,
    \<open>malloc\<close>, also when it has to fetch pages, and \<open>free\<close> keep it well formed and change exactly
    the block they are about.
  \<^item> \<open>VgaText\<close>, \<open>VgaSpec\<close>: \<open>vga/vgatext.cpp\<close>, and a terminal of 25 lines as its specification.
  \<^item> \<open>Ata\<close>: \<open>disk/disk.cpp\<close> and \<open>disk/partTable.cpp\<close>; \<open>pio_drive\<close> states what the ATA specification
    promises, for a drive with a set of sectors it cannot read; \<open>reads\<close>, which a drive without such
    sectors meets, is the contract for the layers above.
  \<^item> \<open>Vfs\<close>, \<open>Ext2\<close>, \<open>Ext2Dir\<close>: \<open>disk/vfs.cpp\<close> with \<open>resolvePath\<close> as a walk over names,
    \<open>disk/ext2.cpp\<close> with the blocks of a file in order, directories as lists of entries, and from a
    path to the bytes of a file; over any disk that meets \<open>reads\<close>.
  \<^item> \<open>Output\<close>: \<open>error.cpp\<close>, \<open>error.h\<close>, the debug port of \<open>debug.h\<close>, and both \<open>printStats\<close>.
  \<^item> \<open>Keyboard\<close>: \<open>keyboard.cpp\<close> and the key handler as a machine of requests and keys, in one
    address space; \<open>Kernel\<close> puts the space of the running task there for each key.
  \<^item> \<open>Arch\<close>: \<open>arch/\<close> (descriptor tables, interrupt controller, timer), \<open>debug.cpp\<close>, \<open>power.cpp\<close>.
  \<^item> \<open>Lists\<close>: \<open>lib/llist.h\<close> over cells in a store; the locales \<open>sequence\<close> and
    \<open>indexed_sequence\<close> are interpreted on it.
  \<^item> \<open>Elf\<close>, \<open>ElfImage\<close>, \<open>Process\<close>: \<open>proc/elf.cpp\<close>, with the bytes a loaded program finds in its
    memory and what loading leaves alone, and \<open>proc/process.cpp\<close> up to the jump into a task; the table of tasks is an invariant of
    a step relation, the scheduler is fair.
  \<^item> \<open>Multiboot\<close>: \<open>multiboot.cpp\<close>.  \<open>Reports\<close>: what \<open>multiboot.cpp\<close> and the disk driver print at boot.
  \<^item> \<open>Kernel\<close>: \<open>syscalls.cpp\<close>, \<open>interrupt.cpp\<close> and the loop of \<open>sepples.cpp\<close> over the state of all
    parts.  \<open>Shell\<close>: \<open>sh.c\<close> and \<open>sepples.c\<close>.
  \<^item> This theory: properties that span components.

  \<^bold>\<open>Where the code falls short.\<close>  Some theorems state the behaviour of the code where it is not
  what it should be: the count of tasks after a failed load, the memory map, the limit of the
  IDT, the base of a segment, the buffer of the shell, a wrapper of several pages on the heap, the
  unused entries of a directory and one of size 0, the errors of the disk, a key that arrives while
  the reader is not running.  Others need a hypothesis that excludes such a case: the count of a
  read, wrapped pages that \<open>malloc\<close> would take back, a tail of less than a header when \<open>free\<close> gives
  back pages, tabs on the screen.

  \<^bold>\<open>Not modelled.\<close>  Assembly (\<open>boot.asm\<close>, \<open>interruptWrapper.asm\<close>, \<open>doSwitch.asm\<close>) except
  \<open>writeDescriptor\<close>; the C++ run-time stubs; the interrupt flag, which every screen operation
  saves and restores; the text of \<open>printChunks\<close>.  The parts
  see their own piece of memory (physical memory, the heap with the screen, the spaces of the
  tasks); that these are one memory, mapped by the tables, is not used, and the pages of a task that
  the kernel reads and writes for it are taken to be mapped, and so the first
  steps of \<open>boot\<close>, which only initialise the parts one after the other, have no definition; the
  files (\<open>boot_files\<close>), the first programs (\<open>boot_start\<close>) and the loop (\<open>boot_turn\<close>) have.
  Nothing is proved of \<open>realloc\<close>, of \<open>squeeze\<close>, of a heap that has to wrap pages in other use, and of
  the log of the screen.
\<close>


section \<open>Properties that span components\<close>

subsection \<open>The kernel as a state machine\<close>



lemma keyboard_nget_sel [simp]: "tasks (keyboard_nget buf n k) = tasks k"
  by (simp add: keyboard_nget_def split: option.split)

lemma set_user_memory_sel [simp]:
  "kbd (set_user_memory m k) = kbd k" "active_space (set_user_memory m k) = active_space k"
  "user_memory (set_user_memory m k) = m" "pList (tasks (set_user_memory m k)) = pList (tasks k)"
  "current (tasks (set_user_memory m k)) = current (tasks k)"
  "spaces (tasks (set_user_memory m k)) = (spaces (tasks k))(active_space k := m)"
  "table_kept d t (tasks (set_user_memory m k)) = table_kept d t (tasks k)"
  by (simp_all add: set_user_memory_def active_space_def user_memory_def)















subsection \<open>From the system call to the keyboard interrupt\<close>

text \<open>
  The keyboard as its interrupt finds it: with the memory of the space that is active.
\<close>

definition kbd_view :: "('p, 'd) kernel \<Rightarrow> keyboard" where
  "kbd_view k = (kbd k)\<lparr>kmemory := user_memory k\<rparr>"

lemma kbd_view_sel [simp]: "kmemory (kbd_view k) = user_memory k" "in_request buf n (kbd_view k) = in_request buf n (kbd k)"
  "ilock (kbd_view k) = ilock (kbd k)" "ubuf (kbd_view k) = ubuf (kbd k)" "pos (kbd_view k) = pos (kbd k)"
  by (simp_all add: kbd_view_def)

text \<open>
  A key is consumed in the active space; no other space changes.  If a user's buffer is to be
  written while the kernel task is the current one, the kernel halts.
\<close>

lemma kbd_deliver_view:
  assumes "kbd_deliver c k = Some (echo, k')"
  shows "kbd_view k' = kb_consume c (kbd_view k)" "active_space k' = active_space k"
    "pList (tasks k') = pList (tasks k)" "current (tasks k') = current (tasks k)"
    "spaces (tasks k') = (spaces (tasks k))(active_space k := user_memory k')"
proof -
  obtain kb where kb: "(kb, echo) = kb_input c (kbd_view k)"
    "k' = set_user_memory (kmemory kb) (k\<lparr>kbd := kb\<lparr>kmemory := kmemory (kbd k)\<rparr>\<rparr>)"
    using assms by (auto simp: kbd_deliver_def kbd_view_def split: if_splits prod.splits)
  have "kb = kb_consume c (kbd_view k)" using kb(1) by (auto simp: kb_input_def Let_def)
  then show "kbd_view k' = kb_consume c (kbd_view k)" using kb(2) by (simp add: kbd_view_def)
  show "active_space k' = active_space k" "pList (tasks k') = pList (tasks k)" "current (tasks k') = current (tasks k)"
    "spaces (tasks k') = (spaces (tasks k))(active_space k := user_memory k')"
    using kb(2) by (simp_all add: active_space_def user_memory_def)
qed

lemma kbd_deliver_runs: "pid (pList (tasks k) ! current (tasks k)) \<noteq> 0 \<Longrightarrow> \<exists>echo k'. kbd_deliver c k = Some (echo, k')"
  by (simp add: kbd_deliver_def split: prod.split)

lemma logInput_kb_consume [simp]: "logInput (kb_consume c k) = logInput k"
proof -
  have "logInput (kb_store c k) = logInput k" for k by (simp add: kb_store_def Let_def)
  then show ?thesis by (simp add: kb_consume_def unlock_def Let_def)
qed

lemma kbd_deliver_echo: "kbd_deliver c k = Some (echo, k') \<Longrightarrow> echo = (if logInput (kbd k) then Some c else None)"
  by (cases "kb_stores c (kbd k) \<and> pid (pList (tasks k) ! current (tasks k)) = 0 \<and> ubuf (kbd k) \<ge> USER_OFFSET")
    (auto simp: kbd_deliver_def kb_input_def Let_def)

text \<open>The interrupts that come while a reader waits.\<close>

datatype irq = Keyboard_irq u64 u8 | Clock_irq "u64 list" u16

fun irq_step :: "'p pager_ops \<Rightarrow> irq \<Rightarrow> ('p, 'd) kernel \<Rightarrow> ('p, 'd) kernel option" where
  "irq_step P (Keyboard_irq buf scancode) k = isr_kbd_int P buf scancode k"
| "irq_step P (Clock_irq st sreg) k = Some (isr_clock_int st sreg k)"

lemma schedule_spaces [simp]: "spaces (schedule st sreg t) = spaces t"
  by (simp add: schedule_def switchToTask_def Let_def)

definition outside :: "u64 \<Rightarrow> nat \<Rightarrow> ('p, 'd) kernel \<Rightarrow> ('p, 'd) kernel \<Rightarrow> bool" where
  "outside buf n k k' \<longleftrightarrow> (\<forall>dir x. n < unat (x - buf) \<longrightarrow> spaces (tasks k') dir x = spaces (tasks k) dir x)"

lemma deliver_request:
  assumes "kbd_deliver c k = Some (echo, k')" "in_request buf n (kbd k)" "n < 2 ^ 31" "buf \<noteq> 0"
  shows "in_request buf n (kbd k') \<and> outside buf n k k'"
proof -
  have "in_request buf n (kbd_view k)" using assms(2) by simp
  note step = request_consume [OF this assms(3,4), of c]
  have "in_request buf n (kbd_view k')" using step kbd_deliver_view(1) [OF assms(1)] by simp
  moreover have "user_memory k' x = user_memory k x" if "n < unat (x - buf)" for x
    using step that kbd_deliver_view(1) [OF assms(1), symmetric] by (simp add: only_in_def)
  then have "outside buf n k k'"
    by (auto simp: outside_def kbd_deliver_view(5) [OF assms(1)] user_memory_def [of k])
  ultimately show ?thesis by simp
qed

lemma irq_request:
  assumes "irq_step P irq k = Some k'" "in_request buf n (kbd k)" "n < 2 ^ 31" "buf \<noteq> 0"
  shows "in_request buf n (kbd k') \<and> outside buf n k k'"
proof (cases irq)
  case (Clock_irq st sreg)
  then show ?thesis using assms(1,2) by (auto simp: isr_clock_int_def outside_def)
next
  case (Keyboard_irq loc scancode)
  then obtain act ks where act: "kbd_int scancode (keys k) = Some (act, ks)"
    using assms(1) by (auto simp: isr_kbd_int_def split: Option.bind_splits)
  show ?thesis
  proof (cases "\<exists>c. act = KInput c")
    case True
    then obtain c where c: "act = KInput c" ..
    obtain echo k1 where k1: "kbd_deliver c (k\<lparr>keys := ks\<rparr>) = Some (echo, k1)" "kbd k' = kbd k1" "tasks k' = tasks k1"
      using assms(1) Keyboard_irq act c by (auto simp: isr_kbd_int_def split: Option.bind_splits option.splits)
    have "in_request buf n (kbd (k\<lparr>keys := ks\<rparr>))" using assms(2) by simp
    from deliver_request [OF k1(1) this assms(3,4)] show ?thesis
      using k1(2,3) by (simp add: outside_def)
  next
    case False
    then show ?thesis using assms(1,2) Keyboard_irq act
      by (cases act) (auto simp: isr_kbd_int_def print_stats_def outside_def split: Option.bind_splits)
  qed
qed

lemma irqs_request:
  assumes "for_each (irq_step P) irqs k = Some k'" "in_request buf n (kbd k)" "n < 2 ^ 31" "buf \<noteq> 0"
  shows "outside buf n k k'"
  using assms(1,2)
proof (induction irqs arbitrary: k)
  case Nil
  then show ?case by (simp add: outside_def)
next
  case (Cons irq irqs)
  then obtain k1 where k1: "irq_step P irq k = Some k1" "for_each (irq_step P) irqs k1 = Some k'"
    by (auto split: Option.bind_splits)
  have "in_request buf n (kbd k1)" "outside buf n k k1" using irq_request [OF k1(1) Cons.prems(2) assms(3,4)] by simp_all
  then show ?case using Cons.IH [OF k1(2)] by (simp add: outside_def)
qed

text \<open>
  C15: A task that reads a line with the system call cannot make the keyboard write kernel memory: if
  its count fits in 31 bits, then whatever pointer it passed, whatever keys are pressed afterwards
  and whichever tasks the clock switches to meanwhile, no byte below the user area changes in any
  address space.
\<close>

theorem sys_nget_protects_kernel:
  assumes "doSyscalls P R junk (0x10000 + 2) arg1 arg2 k = Some (r, k1)" "\<not> ilock (kbd k)" "unat arg2 < 2 ^ 31"
    and "for_each (irq_step P) irqs k1 = Some k2" "x < USER_OFFSET"
  shows "spaces (tasks k2) dir x = spaces (tasks k) dir x"
proof -
  have call: "sys_nget arg1 arg2 k = Some (r, k1)" using assms(1) by (simp add: doSyscalls_def)
  have same: "tasks k1 = tasks k" using call by (auto simp: sys_nget_def split: if_splits)
  show ?thesis
  proof (cases "isUserPtrValid arg1 \<and> isUserPtrValid (arg1 + arg2)")
    case False
    then have "in_request 1 0 (kbd k1)" using call assms(2) by (auto simp: sys_nget_def in_request_def)
    from irqs_request [OF assms(4) this] have "outside 1 0 k1 k2" by simp
    moreover have "in_request 2 0 (kbd k1)" using False call assms(2) by (auto simp: sys_nget_def in_request_def)
    from irqs_request [OF assms(4) this] have "outside 2 0 k1 k2" by simp
    ultimately show ?thesis using same by (cases "x = 1") (auto simp: outside_def unat_gt_0)
  next
    case True
    let ?n = "ucast arg2 :: u32"
    obtain kb where kb: "nget_request arg1 ?n (kbd k) = Some kb" "kbd k1 = kb"
      using call True assms(2) by (auto simp: sys_nget_def keyboard_nget_def nget_request_def)
    have n: "unat ?n = unat arg2" using assms(3) by (simp add: unsigned_ucast_eq take_bit_nat_eq_self)
    have ge: "USER_OFFSET \<le> arg1" and le: "arg1 \<le> USER_STACK" using True by (simp_all add: isUserPtrValid_def)
    have lt: "x < arg1" and top: "unat arg1 \<le> unat USER_STACK"
      using order.strict_trans2 [OF assms(5) ge] le by (simp_all add: word_le_nat_alt)
    have "unat (x - arg1) = 2 ^ 64 + unat x - unat arg1"
      using lt by (simp add: word_less_nat_alt unat_sub_if_size word_size)
    then have far: "unat ?n < unat (x - arg1)"
      using n assms(3) top by (simp add: USER_STACK_def)
    have "in_request arg1 (unat ?n) (kbd k1)" using request_starts [OF kb(1)] kb(2) by simp
    moreover have "arg1 \<noteq> 0" using ge by (auto simp: USER_OFFSET_def)
    ultimately have "outside arg1 (unat ?n) k1 k2" using irqs_request [OF assms(4)] n assms(3) by simp
    then show ?thesis using far same by (simp add: outside_def)
  qed
qed

text \<open>A kernel with two tasks, an empty screen and a reader's buffer at the start of the user area.\<close>

definition kernel0 :: "(nat, unit) kernel" where
  "kernel0 = \<lparr>screen = \<lparr>vheap = heap0, m_curX = 0, m_curY = 0, m_curStyle = 7, m_tabSize = 4, logEnabled = False,
       m_logBase = 0, m_logLim = 0, m_logCur = 0, ruboutLimitX = 0, ruboutLimitY = 0, ports = []\<rparr>,
     kbd = keyboard0 (\<lambda>_. 1),
     keys = \<lparr>lshift_enable = False, rshift_enable = False, alt_enable = False, ctrl_enable = False\<rparr>,
     tasks = demo_tasks, dregs = \<lparr>dr_addr = [0, 0, 0, 0], dr6 = 0, dr7 = 0, dr_errors = []\<rparr>\<rparr>"



lemma kernel0_current: "pid (pList (tasks kernel0) ! current (tasks kernel0)) = 1" "\<not> ilock (kbd kernel0)"
  "spaces (tasks kernel0) dir x = 0" "active_space kernel0 = 0"
  by (simp_all add: kernel0_def demo_nth demo_process_def keyboard0_def active_space_def demo_regs_def)
    (simp add: demo_tasks_def)

theorem sys_nget_protects_kernel_witness:
  "\<exists>k1 k2. doSyscalls pager0 (\<lambda>_ _ _ b d. Some (0, b, d)) (\<lambda>n. replicate n 0) (0x10000 + 2) 0x40000000 4 kernel0 = Some (WaitKeys, k1) \<and>
     for_each (irq_step pager0) [Keyboard_irq 0 0x1F] k1 = Some k2 \<and> spaces (tasks k2) 0 0x1000 = 0"
proof -
  let ?D = "\<lambda>_ _ _ b d. Some (0, b, d)" and ?J = "\<lambda>n. replicate n 0"
  let ?k1 = "keyboard_nget 0x40000000 4 kernel0"
  have k1: "doSyscalls pager0 ?D ?J (0x10000 + 2) 0x40000000 4 kernel0 = Some (WaitKeys, ?k1)"
    by (simp add: doSyscalls_def sys_nget_def isUserPtrValid_def USER_OFFSET_def USER_STACK_def)
  let ?c = "kbdmap ! (120 + (if lshift_enable (keys ?k1) \<or> rshift_enable (keys ?k1) then 1 else 0))"
  have act: "kbd_int 0x1F (keys ?k1) = Some (KInput ?c, keys ?k1)"
    by (simp add: kbd_int_def length_kbdmap Let_def)
  have "pid (pList (tasks ?k1) ! current (tasks ?k1)) \<noteq> 0" using kernel0_current(1) by simp
  then obtain echo k2 where k2: "kbd_deliver ?c ?k1 = Some (echo, k2)" using kbd_deliver_runs by blast
  moreover have "echo = None"
    using kbd_deliver_echo [OF k2]
    by (simp add: keyboard_nget_def nget_request_def kernel0_def keyboard0_def)
  ultimately have irq: "for_each (irq_step pager0) [Keyboard_irq 0 0x1F] ?k1 = Some k2"
    using act by (simp add: isr_kbd_int_def)
  have "spaces (tasks k2) 0 0x1000 = spaces (tasks kernel0) 0 0x1000"
    using sys_nget_protects_kernel [OF k1 kernel0_current(2) _ irq, of "0x1000"] by (simp add: USER_OFFSET_def)
  then show ?thesis using k1 irq kernel0_current(3) by auto
qed


subsection \<open>From the keys to the program that is started\<close>

lemma ucast_32_64: "(ucast (ucast (n :: u32) :: u64) :: u32) = n"
  by (rule bit_word_eqI) (simp add: bit_simps)

lemma ucast_32_64_zero: "(ucast (n :: u32) :: u64) = 0 \<longleftrightarrow> n = 0"
  by (simp add: word_unat_eq_iff)

text \<open>Keys that arrive one after the other while the reader is the current task.\<close>

definition type_keys :: "u8 list \<Rightarrow> ('p, 'd) kernel \<Rightarrow> ('p, 'd) kernel option" where
  "type_keys = for_each (\<lambda>c k. map_option snd (kbd_deliver c k))"

lemma type_keys_view:
  assumes "pid (pList (tasks k) ! current (tasks k)) \<noteq> 0"
  shows "\<exists>k'. type_keys chars k = Some k' \<and> kbd_view k' = fold kb_consume chars (kbd_view k)"
  using assms
proof (induction chars arbitrary: k)
  case Nil
  then show ?case by (simp add: type_keys_def)
next
  case (Cons c chars)
  obtain echo k1 where k1: "kbd_deliver c k = Some (echo, k1)" using kbd_deliver_runs [OF Cons.prems] by blast
  have "pid (pList (tasks k1) ! current (tasks k1)) \<noteq> 0" using Cons.prems kbd_deliver_view(3,4) [OF k1] by simp
  from Cons.IH [OF this] show ?case using k1 kbd_deliver_view(1) [OF k1] by (simp add: type_keys_def)
qed

lemma user_call_nget:
  assumes "user_call P R junk old (Sys_nget buf n) k = Some (WaitKeys, k1)" "\<not> ilock (kbd k)"
  shows "tasks k1 = tasks k" "nget_request (ucast buf) n (kbd_view k) = Some (kbd_view k1)"
    "kb_steps (kbd_view k) (Nget (ucast buf) n # map Key typed) (fold kb_consume typed (kbd_view k1))"
proof -
  have k1: "k1 = keyboard_nget (ucast buf) n k"
    using assms(1) by (auto simp: user_call_def doSyscalls_def sys_nget_def ucast_32_64 split: if_splits)
  then show t: "tasks k1 = tasks k" by simp
  then have "user_memory k1 = user_memory k" by (simp add: user_memory_def active_space_def)
  then show req: "nget_request (ucast buf) n (kbd_view k) = Some (kbd_view k1)"
    using assms(2) k1 by (simp add: kbd_view_def keyboard_nget_def nget_request_def)
  then show "kb_steps (kbd_view k) (Nget (ucast buf) n # map Key typed) (fold kb_consume typed (kbd_view k1))"
    by auto
qed

lemma rd_is_cstr: "rd m p (length bs + 1) = bs @ [0] \<Longrightarrow> 0 \<notin> set bs \<Longrightarrow> length bs < 2 ^ 64 \<Longrightarrow> is_cstr m p bs"
  by (simp add: is_cstr_def)

lemma cstring_at_cstr: "is_cstr m p bs \<Longrightarrow> cstring_at m p = Some bs"
  using strlen_cstr [of m p bs] rd_append [of m p "length bs" 1] by (auto simp: cstring_at_def is_cstr_def unat_of_nat)

text \<open>
  C16: What is typed is what is started: if the shell waits for a line and, while it is the current
  task, a path of at most 510 characters is typed that is not a command, then its memory holds the
  line as a string at its buffer, and the shell asks the kernel to start exactly that path.
\<close>

theorem typed_line_starts:
  assumes "user_call P R junk old (Sys_nget buf INBUF) k = Some (WaitKeys, k1)" "\<not> ilock (kbd k)" "buf \<noteq> 0"
    and "pid (pList (tasks k) ! current (tasks k)) \<noteq> 0"
    and "\<forall>c \<in> set path. plain c \<and> c \<noteq> 0" "path \<noteq> []" "length path \<le> 510" "path @ [10] \<notin> {cmd_exit, cmd_help}"
  shows "\<exists>k2 line rest. type_keys (path @ [10]) k1 = Some k2 \<and> cstring_at (user_memory k2) (ucast buf) = Some line \<and>
    shell_line run line = (True, Start path # rest)"
proof -
  note call = user_call_nget [OF assms(1,2)]
  obtain k2 where k2: "type_keys (path @ [10]) k1 = Some k2" "kbd_view k2 = fold kb_consume (path @ [10]) (kbd_view k1)"
    using type_keys_view [of k1 "path @ [10]"] assms(4) call(1) by auto
  have b: "(ucast buf :: u64) \<noteq> 0"
    using assms(3) by (simp add: ucast_32_64_zero)
  have "rd (kmemory (kbd_view k2)) (ucast buf) (length path + 2) = path @ [10, 0]"
    unfolding k2(2) using nget_line [OF call(3) [of "path @ [10]"] b] assms(5,7) by (auto simp: INBUF_def is_newline_def)
  then have "cstring_at (user_memory k2) (ucast buf) = Some (path @ [10])"
    using assms(5,7) by (intro cstring_at_cstr rd_is_cstr) auto
  moreover have "\<exists>rest. shell_line run (path @ [10]) = (True, Start path # rest)"
    using assms(6,8) by (auto simp: shell_line_def cmdis_def)
  ultimately show ?thesis using k2(1) by blast
qed

lemma consume_last:
  assumes "listening buf 0 k"
  shows "kmemory (kb_consume c k) = kmemory (kb_store c k)"
proof -
  have "(- 2 :: u32) <s 0" by code_simp
  then have "ilock k" "ubuf k \<noteq> 0" "stop k \<noteq> -2" "stop k <s 0 \<or> stop k \<noteq> 0"
    using assms by (auto simp: listening_def)
  then show ?thesis by (auto simp: kb_consume_def Let_def)
qed

text \<open>
  C17: The buffer of the shell is one byte too small: a line of 512 characters, typed while the shell
  is the current task, makes the kernel store the terminator behind its 512 bytes.
\<close>

theorem shell_buffer_overrun:
  assumes "user_call P R junk old (Sys_nget buf INBUF) k = Some (WaitKeys, k1)" "\<not> ilock (kbd k)" "buf \<noteq> 0"
    and "pid (pList (tasks k) ! current (tasks k)) \<noteq> 0" "\<forall>c \<in> set typed. plain c" "length typed = 512"
  shows "\<exists>k2. type_keys typed k1 = Some k2 \<and> user_memory k2 (ucast buf + 512) = 0"
proof -
  note call = user_call_nget [OF assms(1,2)]
  obtain k2 where k2: "type_keys typed k1 = Some k2" "kbd_view k2 = fold kb_consume typed (kbd_view k1)"
    using type_keys_view [of k1 typed] assms(4) call(1) by auto
  have b: "(ucast buf :: u64) \<noteq> 0"
    using assms(3) by (simp add: ucast_32_64_zero)
  obtain us d where typed: "typed = us @ [d]" "length us = 511" using assms(6) by (cases typed rule: rev_cases) auto
  note l = nget_request_listens [OF call(2) b, of 511, unfolded INBUF_def, simplified]
  let ?k = "fold kb_consume us (kbd_view k1)"
  have t: "listening (ucast buf) 0 ?k" "unat (pos ?k) = 511"
    using typed_plain [of "ucast buf" us "kbd_view k1"] l assms(5) typed by auto
  have "d \<noteq> 8" using assms(5) typed(1) by (simp add: plain_def)
  then have "kmemory (kb_store d ?k) = wr (kmemory ?k) (ucast buf + of_nat 511) [d, 0]"
    using kb_store_plain(1) [of d ?k] t by (simp add: listening_def)
  then have "kmemory (kbd_view k2) (ucast buf + 512) = 0"
    unfolding k2(2) using consume_last [OF t(1), of d] typed(1) by (simp add: wr_def)
  then show ?thesis using k2(1) by simp
qed

text \<open>
  The keyboard follows the processor, not the reader: a key that arrives while another task runs is
  stored at the reader's address in that task's memory, and the reader's stays as it was; if the
  kernel task runs, the kernel halts.
\<close>

theorem key_goes_to_running_task:
  assumes "kb_stores c (kbd k)" "c \<noteq> 8" "USER_OFFSET \<le> ubuf (kbd k)" "unat (pos (kbd k)) + 1 < 2 ^ 32"
  shows "if pid (pList (tasks k) ! current (tasks k)) = 0 then kbd_deliver c k = None
    else \<exists>echo k'. kbd_deliver c k = Some (echo, k') \<and>
      user_memory k' = wr (user_memory k) (ubuf (kbd k) + ucast (pos (kbd k))) [c, 0] \<and>
      (\<forall>dir. dir \<noteq> active_space k \<longrightarrow> spaces (tasks k') dir = spaces (tasks k) dir)"
proof (cases "pid (pList (tasks k) ! current (tasks k)) = 0")
  case True
  then show ?thesis using assms(1,3) by (simp add: kbd_deliver_def)
next
  case False
  then obtain echo k' where k': "kbd_deliver c k = Some (echo, k')" using kbd_deliver_runs by blast
  note v = kbd_deliver_view [OF k']
  have "kmemory (kb_consume c (kbd_view k)) = kmemory (kb_store c (kbd_view k))"
    using assms(1) by (auto simp: kb_consume_def kb_stores_def kbd_view_def Let_def)
  then have "user_memory k' = wr (user_memory k) (ubuf (kbd k) + ucast (pos (kbd k))) [c, 0]"
    using kb_store_plain(1) [of c "kbd_view k"] assms(2,4) v(1) [symmetric] by simp
  then show ?thesis using False k' v(5) by simp
qed

lemma waiting0: "user_call pager0 (\<lambda>_ _ _ b d. Some (0, b, d)) (\<lambda>n. replicate n 0) 0 (Sys_nget 0x40000000 INBUF) kernel0 =
    Some (WaitKeys, keyboard_nget 0x40000000 512 kernel0)"
  by (simp add: user_call_def doSyscalls_def sys_nget_def isUserPtrValid_def USER_OFFSET_def USER_STACK_def INBUF_def)

theorem typed_line_starts_witness:
  "\<exists>k2 line rest. type_keys ([0x2F, 0x61] @ [10]) (keyboard_nget 0x40000000 512 kernel0) = Some k2 \<and>
     cstring_at (user_memory k2) 0x40000000 = Some line \<and> shell_line (\<lambda>_. 0) line = (True, Start [0x2F, 0x61] # rest)"
  using typed_line_starts [OF waiting0 kernel0_current(2), of "[0x2F, 0x61]" "\<lambda>_. 0"] kernel0_current(1)
  by (simp add: plain_def cmd_exit_def cmd_help_def)

theorem shell_buffer_overrun_witness:
  "\<exists>k2. type_keys (replicate 512 65) (keyboard_nget 0x40000000 512 kernel0) = Some k2 \<and> user_memory k2 0x40000200 = 0"
  using shell_buffer_overrun [OF waiting0 kernel0_current(2), of "replicate 512 65"] kernel0_current(1)
  by (simp add: plain_def)

end
